(* ===== verification/Prelude.thy ===== *)
theory Prelude
  imports Main "HOL-Library.Word"
begin

text \<open>
  What every component of the kernel model shares: the machine integers of
  \<open>hal.x86/include/types.h\<close>, the ways a kernel operation can fail to return (a failed
  \<open>assert\<close>, which \<open>kassert\<close> turns into an endless loop; a dereference of \<open>NULL\<close>; an index
  outside its array; a loop that does not end), the error monad that composes them, the loops over
  pages, and the generic lemmas about them.
\<close>

unbundle bit_operations_syntax

section \<open>Machine integers\<close>

type_synonym u8 = "8 word"
type_synonym u16 = "16 word"
type_synonym u32 = "32 word"
type_synonym u64 = "64 word"

lemma u32_unat_less: "unat (a :: u32) < 4294967296"
  by (rule order_less_le_trans [OF unsigned_less]) simp

definition page_aligned :: "u32 \<Rightarrow> bool" where
  "page_aligned a \<longleftrightarrow> a mod 4096 = 0"

lemma page_aligned_unat: "page_aligned a \<longleftrightarrow> unat a mod 4096 = 0"
  by (simp add: page_aligned_def word_unat_eq_iff unat_mod_distrib)

lemma page_aligned_numeral [simp]:
  "page_aligned 0" "page_aligned (numeral n) \<longleftrightarrow> (numeral n :: u32) mod 4096 = 0"
  by (simp_all add: page_aligned_def)

lemma page_alignedE:
  assumes "page_aligned a"
  obtains k where "unat a = k * 4096" "k < 1048576" "unat a div 4096 = k"
proof -
  have "unat a = unat a div 4096 * 4096"
    using assms div_mult_mod_eq [of "unat a" 4096] by (simp add: page_aligned_unat)
  with u32_unat_less [of a] show ?thesis by (intro that [of "unat a div 4096"]) auto
qed

section \<open>Errors as values\<close>

datatype kerror =
    Assert_Failed string
  | Null_Deref
  | Out_Of_Bounds
  | Diverges
  | Halted string

fun bindE :: "'e + 'a \<Rightarrow> ('a \<Rightarrow> 'e + 'b) \<Rightarrow> 'e + 'b" where
  "bindE (Inl e) f = Inl e"
| "bindE (Inr x) f = f x"

definition assertE :: "bool \<Rightarrow> string \<Rightarrow> kerror + unit" where
  "assertE c msg = (if c then Inr () else Inl (Assert_Failed msg))"

text \<open>
  Following a pointer. Null is an error of the model: once paging is on, page 0 is mapped in this kernel, so C
  would read or write low memory there and go on, which is not followed.
\<close>

definition derefE :: "u32 \<Rightarrow> kerror + unit" where
  "derefE p = (if p = 0 then Inl Null_Deref else Inr ())"

definition returned :: "(kerror + 'a) option \<Rightarrow> kerror + 'a" where
  "returned r = (case r of None \<Rightarrow> Inl Diverges | Some x \<Rightarrow> x)"

named_theorems kernel_simps "rewrite rules that run the error monad"

lemma bindE_Inr_iff [kernel_simps]:
  "bindE m f = Inr y \<longleftrightarrow> (\<exists>x. m = Inr x \<and> f x = Inr y)"
  by (cases m) auto

lemma bindE_Inl_iff:
  "bindE m f = Inl e \<longleftrightarrow> m = Inl e \<or> (\<exists>x. m = Inr x \<and> f x = Inl e)"
  by (cases m) auto

lemma bindE_assoc: "bindE (bindE m f) g = bindE m (\<lambda>x. bindE (f x) g)"
  by (cases m) auto

lemma assertE_Inr_iff [kernel_simps]: "assertE c msg = Inr u \<longleftrightarrow> c"
  by (simp add: assertE_def)

lemma assertE_True [simp]: "c \<Longrightarrow> assertE c msg = Inr ()"
  by (simp add: assertE_def)

lemma assertE_False [simp]: "\<not> c \<Longrightarrow> assertE c msg = Inl (Assert_Failed msg)"
  by (simp add: assertE_def)

lemma derefE_Inr_iff [kernel_simps]: "derefE p = Inr u \<longleftrightarrow> p \<noteq> 0"
  by (simp add: derefE_def)

lemma derefE_nonzero [simp]: "p \<noteq> 0 \<Longrightarrow> derefE p = Inr ()"
  by (simp add: derefE_def)

lemma derefE_zero [simp]: "derefE 0 = Inl Null_Deref"
  by (simp add: derefE_def)

lemma returned_simps [simp]: "returned None = Inl Diverges" "returned (Some x) = x"
  by (simp_all add: returned_def)

lemma returned_Inr_iff [kernel_simps]: "returned r = Inr y \<longleftrightarrow> r = Some (Inr y)"
  by (auto simp: returned_def split: option.splits)

text \<open>Iterating a fallible step over a list stops at the first error.\<close>

fun foldE :: "('x \<Rightarrow> 's \<Rightarrow> 'e + 's) \<Rightarrow> 'x list \<Rightarrow> 's \<Rightarrow> 'e + 's" where
  "foldE f [] s = Inr s"
| "foldE f (x # xs) s = bindE (f x s) (foldE f xs)"

lemma foldE_append: "foldE f (xs @ ys) s = bindE (foldE f xs s) (foldE f ys)"
proof (induction xs arbitrary: s)
  case (Cons x xs)
  then show ?case by (cases "f x s") auto
qed simp

lemma foldE_invariant:
  assumes "foldE f xs s = Inr s'" and "P s"
    and "\<And>x s s'. x \<in> set xs \<Longrightarrow> P s \<Longrightarrow> f x s = Inr s' \<Longrightarrow> P s'"
  shows "P s'"
  using assms by (induction xs arbitrary: s) (auto simp: kernel_simps)

lemma foldE_pure: "foldE (\<lambda>x s. Inr (f x s)) xs s = Inr (fold f xs s)"
  by (induction xs arbitrary: s) auto

lemma foldE_map: "foldE f (map g xs) s = foldE (\<lambda>x. f (g x)) xs s"
proof (induction xs arbitrary: s)
  case (Cons x xs)
  then show ?case by (cases "f (g x) s") auto
qed simp

lemma bindE_return [simp]: "bindE m Inr = m"
  by (cases m) auto

lemma foldE_single [simp]: "foldE f [x] = f x"
proof (rule ext)
  have "foldE f [] = Inr" by (rule ext) simp
  then show "foldE f [x] s = f x s" for s by simp
qed

lemma find_split:
  "find P xs = Some x \<Longrightarrow> \<exists>us vs. xs = us @ x # vs \<and> P x \<and> (\<forall>u \<in> set us. \<not> P u)"
proof (induction xs)
  case (Cons y ys)
  show ?case
  proof (cases "P y")
    case True
    with Cons.prems show ?thesis by (intro exI [of _ "[]"] exI [of _ ys]) auto
  next
    case False
    with Cons obtain us vs where "ys = us @ x # vs" "P x" "\<forall>u \<in> set us. \<not> P u" by auto
    with False have "y # ys = (y # us) @ x # vs \<and> P x \<and> (\<forall>u \<in> set (y # us). \<not> P u)" by simp
    then show ?thesis by blast
  qed
qed simp

lemma find_splitI: "P x \<Longrightarrow> \<forall>u \<in> set us. \<not> P u \<Longrightarrow> find P (us @ x # vs) = Some x"
  by (induction us) auto

section \<open>Loops over pages\<close>

text \<open>
  The kernel's most frequent loop is \<open>for(i = start; i < end; i += PAGESIZE)\<close> over unsigned
  32-bit addresses. The addition wraps, so the loop need not end: \<open>None\<close> is a loop that runs
  for ever.
\<close>

partial_function (option) page_loop ::
  "(u32 \<Rightarrow> 's \<Rightarrow> kerror + 's) \<Rightarrow> u32 \<Rightarrow> u32 \<Rightarrow> 's \<Rightarrow> (kerror + 's) option" where
  "page_loop body i e s =
     (if i < e
      then (case body i s of Inl x \<Rightarrow> Some (Inl x) | Inr s' \<Rightarrow> page_loop body (i + 0x1000) e s')
      else Some (Inr s))"

definition for_pages :: "(u32 \<Rightarrow> 's \<Rightarrow> kerror + 's) \<Rightarrow> u32 \<Rightarrow> u32 \<Rightarrow> 's \<Rightarrow> kerror + 's" where
  "for_pages body i e s = returned (page_loop body i e s)"

definition page_count :: "u32 \<Rightarrow> u32 \<Rightarrow> nat" where
  "page_count i e = (unat e - unat i + 4095) div 4096"

definition pages_of :: "u32 \<Rightarrow> u32 \<Rightarrow> u32 list" where
  "pages_of i e = map (\<lambda>k. i + 0x1000 * of_nat k) [0..<page_count i e]"

lemma page_step_unat:
  fixes i e :: u32
  assumes "i < e" "e \<le> 0xFFFFF000"
  shows "unat (i + 0x1000) = unat i + 4096"
proof -
  have "unat i < 0xFFFFF000"
    using assms by (simp add: word_less_nat_alt word_le_nat_alt)
  then show ?thesis by (simp add: unat_word_ariths)
qed

lemma ceil_pages_step:
  assumes "0 < (d::nat)"
  shows "(d + 4095) div 4096 = Suc ((d - 4096 + 4095) div 4096)"
proof (cases "4096 \<le> d")
  case True
  then have "d + 4095 = (d - 4096 + 4095) + 4096" by simp
  then show ?thesis by (metis div_add_self2 add.commute plus_1_eq_Suc zero_neq_numeral)
next
  case False
  then have "(d + 4095) div 4096 = 1" using assms by (intro div_nat_eqI) auto
  with False show ?thesis by simp
qed

lemma page_count_step:
  assumes "i < e" "e \<le> 0xFFFFF000"
  shows "page_count i e = Suc (page_count (i + 0x1000) e)"
proof -
  have "0 < unat e - unat i" using assms by (simp add: word_less_nat_alt)
  from ceil_pages_step [OF this] show ?thesis
    using page_step_unat [OF assms] by (simp add: page_count_def)
qed

lemma page_count_done: "\<not> i < e \<Longrightarrow> page_count i e = 0"
  by (simp add: page_count_def word_less_nat_alt)

lemma pages_of_step:
  assumes "i < e" "e \<le> 0xFFFFF000"
  shows "pages_of i e = i # pages_of (i + 0x1000) e"
  by (simp add: pages_of_def page_count_step [OF assms] upt_conv_Cons
      algebra_simps del: upt_Suc flip: map_Suc_upt)

lemma pages_of_done: "\<not> i < e \<Longrightarrow> pages_of i e = []"
  by (simp add: pages_of_def page_count_done)

text \<open>Where the end leaves room for one more page below 4 GB, the loop ends and is a fold.\<close>

lemma page_loop_foldE:
  assumes "e \<le> 0xFFFFF000"
  shows "page_loop body i e s = Some (foldE body (pages_of i e) s)"
proof (induction "page_count i e" arbitrary: i s)
  case 0
  then have "\<not> i < e"
    using page_count_step [OF _ assms, of i] by auto
  then show ?case by (simp add: page_loop.simps pages_of_done)
next
  case (Suc n)
  then have "i < e" using page_count_done by fastforce
  note less = this assms
  have "n = page_count (i + 0x1000) e"
    using Suc.hyps(2) page_count_step [OF less] by simp
  from Suc.hyps(1) [OF this] less show ?case
    by (simp add: page_loop.simps [of body i] pages_of_step split: sum.splits)
qed

lemma for_pages_foldE:
  "e \<le> 0xFFFFF000 \<Longrightarrow> for_pages body i e s = foldE body (pages_of i e) s"
  by (simp add: for_pages_def page_loop_foldE)

text \<open>The pages of a range, as sets of addresses.\<close>

lemma unat_pages_of:
  assumes "k < page_count i e"
  shows "unat (i + 0x1000 * of_nat k) = unat i + 4096 * k" "unat i + 4096 * k < unat e"
proof -
  have "Suc k * 4096 \<le> unat e - unat i + 4095"
    using assms by (simp add: page_count_def Suc_le_eq less_eq_div_iff_mult_less_eq del: mult_Suc
        flip: Suc_le_eq)
  then show bound: "unat i + 4096 * k < unat e" by simp
  have "unat (of_nat k :: u32) = k"
    using bound u32_unat_less [of e] by (simp add: unat_of_nat)
  then show "unat (i + 0x1000 * of_nat k) = unat i + 4096 * k"
    using bound u32_unat_less [of e] by (simp add: unat_word_ariths)
qed


lemma set_pages_of:
  assumes "page_aligned i"
  shows "a \<in> set (pages_of i e) \<longleftrightarrow> i \<le> a \<and> a < e \<and> page_aligned a"
proof
  assume "a \<in> set (pages_of i e)"
  then obtain k where "k < page_count i e" "a = i + 0x1000 * of_nat k"
    by (auto simp: pages_of_def)
  with assms show "i \<le> a \<and> a < e \<and> page_aligned a"
    using unat_pages_of [of k i e] unfolding page_aligned_unat word_le_nat_alt word_less_nat_alt
    by simp
next
  assume a: "i \<le> a \<and> a < e \<and> page_aligned a"
  define k where "k = (unat a - unat i) div 4096"
  have ia: "unat i \<le> unat a" "unat a < unat e" "unat a mod 4096 = 0" "unat i mod 4096 = 0"
    using a assms by (auto simp: word_le_nat_alt word_less_nat_alt page_aligned_unat)
  then have k: "unat a = unat i + 4096 * k"
    unfolding k_def by (metis add_diff_inverse_nat dvd_diff_nat dvd_mult_div_cancel mod_0_imp_dvd not_less)
  with ia have "Suc k * 4096 \<le> unat e - unat i + 4095" by simp
  then have "k < page_count i e"
    by (simp add: page_count_def less_eq_div_iff_mult_less_eq flip: Suc_le_eq)
  moreover from this k have "a = i + 0x1000 * of_nat k"
    using unat_pages_of(1) [of k i e] by (simp add: word_unat_eq_iff)
  ultimately show "a \<in> set (pages_of i e)" by (auto simp: pages_of_def)
qed

end
