(* ===== verification/Video.thy ===== *)
theory Video
  imports Prelude
begin

text \<open>
  The text console, \<open>hal.x86/video.c\<close>, with the formatted output of \<open>kprintf\<close> and of \<open>DebugPrintf\<close> in
  \<open>hal.x86/debug.c\<close>. The screen memory as bytes from the start of the frame buffer, the cursor, the
  trace of bytes written to I/O ports.
\<close>

section \<open>State\<close>

text \<open>
  \<open>screen\<close> is indexed relative to \<open>0xB8000\<close>; C checks no bounds, so every integer is an index. The
  cursor coordinates are C \<open>int\<close>s far from their limits. \<open>ports\<close> lists the calls of \<open>outb\<close>, the last
  first.
\<close>

record video =
  screen :: "int \<Rightarrow> u8"
  v_color :: u8
  v_x :: int
  v_y :: int
  ports :: "(u16 \<times> u8) list"

definition outb :: "u16 \<Rightarrow> u8 \<Rightarrow> video \<Rightarrow> video" where
  "outb port val v = v\<lparr>ports := (port, val) # ports v\<rparr>"

section \<open>Operations\<close>

definition UpdateCursor :: "video \<Rightarrow> video" where
  "UpdateCursor v =
     (let temp = word_of_int (v_y v * 80 + v_x v) :: u32
      in outb 0x3D5 (ucast temp) (outb 0x3D4 15 (outb 0x3D5 (ucast (drop_bit 8 temp)) (outb 0x3D4 14 v))))"

definition poke :: "int \<Rightarrow> u8 \<Rightarrow> video \<Rightarrow> video" where
  "poke i b v = v\<lparr>screen := (screen v)(i := b)\<rparr>"

text \<open>
  The first loop of \<open>scroll\<close> runs to \<open>2 * 27 * 80\<close>, past the end of the screen, so the second one, which
  would clear the bottom line from there to \<open>2 * 25 * 80\<close>, never runs.
\<close>

definition scroll :: "video \<Rightarrow> video" where
  "scroll v =
     (if v_y v > 24
      then
        let v1 = fold (\<lambda>i v. poke i (screen v (i + 160)) v) [0..2 * 27 * 80 - 1] v;
            v2 = fold (\<lambda>i. poke i 0) [2 * 27 * 80..2 * 25 * 80 - 1] v1
        in v2\<lparr>v_y := v_y v2 - 1\<rparr>
      else v)"

definition cls :: "video \<Rightarrow> video" where
  "cls v =
     (let v1 = fold (\<lambda>k v. poke (2 * k + 1) (v_color v) (poke (2 * k) 0 v)) [0..25 * 80 - 1] v
      in UpdateCursor (v1\<lparr>v_x := 0, v_y := 0\<rparr>))"

definition kputch :: "u8 \<Rightarrow> video \<Rightarrow> video" where
  "kputch c v =
     (if c = 10 then UpdateCursor (scroll (v\<lparr>v_x := 0, v_y := v_y v + 1\<rparr>))
      else if c = 8
      then
        let v1 = v\<lparr>v_x := v_x v - 1\<rparr>
        in UpdateCursor (poke (2 * (v_y v1 * 80 + v_x v1)) 0 v1)
      else
        let v1 = poke (2 * (v_y v * 80 + v_x v)) c v;
            v2 = poke (2 * (v_y v1 * 80 + v_x v1) + 1) (v_color v1) v1;
            v3 = v2\<lparr>v_x := v_x v2 + 1\<rparr>;
            v4 = (if v_x v3 \<ge> 80 then v3\<lparr>v_x := 0, v_y := v_y v3 + 1\<rparr> else v3)
        in UpdateCursor (scroll v4))"

text \<open>C strings are lists of their bytes before the terminating zero; \<open>bytes\<close> gives those of a literal.\<close>

definition bytes :: "string \<Rightarrow> u8 list" where
  "bytes s = map of_char s"

definition kputs :: "u8 list \<Rightarrow> video \<Rightarrow> video" where
  "kputs = fold kputch"

definition kprintln :: "u8 list \<Rightarrow> video \<Rightarrow> video" where
  "kprintln str v = kputch 10 (kputs str v)"

subsection \<open>Numbers\<close>

text \<open>
  The digits of \<open>kputn\<close>: a loop that divides until nothing is left and writes backwards into a 65-byte buffer.
  \<open>base\<close> is an \<open>int\<close>, converted to \<open>unsigned\<close> by the division.
\<close>

definition digit :: "u32 \<Rightarrow> u8" where
  "digit d = (if d < 10 then 48 + ucast d else 55 + ucast d)"

partial_function (option) digits_loop :: "u32 \<Rightarrow> u32 \<Rightarrow> u8 list \<Rightarrow> (kerror + u8 list) option" where
  "digits_loop x base p =
     (if base = 0 then Some (Inl (Halted ''division by zero''))
      else if \<not> x mod base < 36 \<or> 64 \<le> length p then Some (Inl Out_Of_Bounds)
      else
        let p' = digit (x mod base) # p; x' = x div base
        in if x' = 0 then Some (Inr p') else digits_loop x' base p')"

definition number :: "u32 \<Rightarrow> u32 \<Rightarrow> kerror + u8 list" where
  "number x base = (if 36 <s base then Inr [] else returned (digits_loop x base []))"

definition kputn :: "u32 \<Rightarrow> u32 \<Rightarrow> video \<Rightarrow> kerror + video" where
  "kputn x base v = bindE (number x base) (\<lambda>p. Inr (kputs p v))"

subsection \<open>Formatted output\<close>

text \<open>
  The arguments after the format. A conversion that reads an argument of the wrong kind, or one that
  is missing, is undefined in C and an error here.
\<close>

datatype varg = Num u32 | Str "u8 list"

fun num_arg :: "varg list \<Rightarrow> kerror + u32 \<times> varg list" where
  "num_arg (Num n # as) = Inr (n, as)"
| "num_arg _ = Inl Out_Of_Bounds"

fun str_arg :: "varg list \<Rightarrow> kerror + u8 list \<times> varg list" where
  "str_arg (Str s # as) = Inr (s, as)"
| "str_arg _ = Inl Out_Of_Bounds"

text \<open>
  One conversion of \<open>kprintf\<close> and \<open>DebugPrintf\<close>, whose loops have the same cases: the bytes printed,
  the arguments left and the rest of the format after the conversion. \<open>%l\<close> prints a number when a
  \<open>d\<close> follows and nothing otherwise.
\<close>

fun conversion :: "u8 \<Rightarrow> u8 list \<Rightarrow> varg list \<Rightarrow> kerror + u8 list \<times> varg list \<times> u8 list" where
  "conversion c rest as =
     (if c = 115 then bindE (str_arg as) (\<lambda>(s, as). Inr (s, as, rest))
      else if c = 99 then bindE (num_arg as) (\<lambda>(n, as). Inr ([ucast n], as, rest))
      else if c = 100 \<or> c = 117
      then bindE (num_arg as) (\<lambda>(n, as). bindE (number n 10) (\<lambda>p. Inr (p, as, rest)))
      else if c = 120 \<or> c = 112
      then bindE (num_arg as) (\<lambda>(n, as). bindE (number n 16) (\<lambda>p. Inr (p, as, rest)))
      else if c = 108
      then (case rest of
              d # rest' \<Rightarrow>
                if d = 100
                then bindE (num_arg as) (\<lambda>(n, as). bindE (number n 10) (\<lambda>p. Inr (p, as, rest')))
                else Inr ([], as, rest)
            | [] \<Rightarrow> Inr ([], as, rest))
      else if c = 37 then Inr ([37], as, rest)
      else Inr ([37, c], as, rest))"

lemma conversion_shrinks: "conversion c rest as = Inr (out, as', rest') \<Longrightarrow> length rest' \<le> length rest"
  by (auto simp: kernel_simps split: if_splits list.splits)

declare conversion.simps [simp del]

function format_loop :: "u8 list \<Rightarrow> varg list \<Rightarrow> kerror + u8 list" where
  "format_loop [] as = Inr []"
| "format_loop (c # fmt) as =
     (if c = 37
      then (case fmt of
              [] \<Rightarrow> Inr []
            | d # rest \<Rightarrow>
                (case conversion d rest as of
                   Inl e \<Rightarrow> Inl e
                 | Inr (out, as', fmt') \<Rightarrow>
                     (case format_loop fmt' as' of Inl e \<Rightarrow> Inl e | Inr s \<Rightarrow> Inr (out @ s))))
      else (case format_loop fmt as of Inl e \<Rightarrow> Inl e | Inr s \<Rightarrow> Inr (c # s)))"
  by pat_completeness auto
termination by (relation "measure (\<lambda>(fmt, as). length fmt)") (auto dest: conversion_shrinks)

definition kprintf :: "u8 list \<Rightarrow> varg list \<Rightarrow> video \<Rightarrow> kerror + video" where
  "kprintf fmt as v = bindE (format_loop fmt as) (\<lambda>s. Inr (kputs s v))"

section \<open>Printing numbers\<close>

definition digits_value :: "u32 \<Rightarrow> u32 list \<Rightarrow> nat" where
  "digits_value base ds = foldl (\<lambda>n d. n * unat base + unat d) 0 ds"

lemma digits_value_simps [simp]: "digits_value base [] = 0"
  "digits_value base (ds @ [d]) = digits_value base ds * unat base + unat d"
  by (simp_all add: digits_value_def)

lemma digits_loop_value:
  assumes base: "2 \<le> base" "base \<le> 36"
  shows "unat x < 2 ^ n \<Longrightarrow> length p + n < 64 \<Longrightarrow>
    \<exists>ds. digits_loop x base p = Some (Inr (map digit ds @ p)) \<and> ds \<noteq> [] \<and> length ds \<le> max 1 n
      \<and> (\<forall>d \<in> set ds. d < base) \<and> digits_value base ds = unat x \<and> (x \<noteq> 0 \<longrightarrow> hd ds \<noteq> 0)"
proof (induction n arbitrary: x p)
  case 0
  then have "x = 0" by (simp add: unat_eq_zero)
  then show ?case
    using base 0 by (intro exI [of _ "[0]"])
      (auto simp: digits_loop.simps [of 0] digits_value_def word_le_nat_alt word_less_nat_alt)
next
  case (Suc n)
  let ?d = "x mod base" and ?x = "x div base"
  have b0: "base \<noteq> 0" "2 \<le> unat base" using base by (auto simp: word_le_nat_alt)
  have d: "?d < base" using b0(1) by (simp add: word_mod_less_divisor word_neq_0_conv [symmetric])
  then have d36: "?d < 36" using base(2) by (rule order.strict_trans2)
  have val_eq: "unat ?x * unat base + unat ?d = unat x"
    by (simp add: unat_div_distrib unat_mod_distrib)
  have step: "digits_loop x base p =
      (if ?x = 0 then Some (Inr (digit ?d # p)) else digits_loop ?x base (digit ?d # p))"
    using b0(1) d36 Suc.prems(2) by (subst digits_loop.simps) (simp add: Let_def)
  show ?case
  proof (cases "?x = 0")
    case True
    then have "?d = x" using val_eq by (simp add: word_unat_eq_iff)
    then show ?thesis
      using step True d by (intro exI [of _ "[?d]"]) (simp add: digits_value_def)
  next
    case False
    have "unat ?x * 2 \<le> unat ?x * unat base" using b0(2) by simp
    then have "unat ?x * 2 \<le> unat x" using val_eq by linarith
    then have less: "unat ?x < 2 ^ n" using Suc.prems(1) by simp
    moreover have "0 < unat ?x" using False by (simp add: unat_gt_0)
    ultimately have n: "n \<noteq> 0" by (cases n) auto
    from Suc.IH [OF less, of "digit ?d # p"] Suc.prems(2) obtain ds where ds:
      "digits_loop ?x base (digit ?d # p) = Some (Inr (map digit ds @ digit ?d # p))" "ds \<noteq> []"
      "length ds \<le> max 1 n" "\<forall>d \<in> set ds. d < base" "digits_value base ds = unat ?x" "hd ds \<noteq> 0"
      using False by auto
    then show ?thesis
      using step False d n val_eq by (intro exI [of _ "ds @ [?d]"]) auto
  qed
qed

text \<open>
  For every base from 2 to 36 \<open>kputn\<close> returns and prints the digits of the number:
  the printed digits are below the base, have the number as their value, have no leading zero unless the
  number is 0, and there are at most 32 of them, so the 65-byte buffer is never left.
\<close>

theorem number_prints_digits:
  assumes "2 \<le> base" "base \<le> 36"
  shows "\<exists>ds. number x base = Inr (map digit ds) \<and> ds \<noteq> [] \<and> length ds \<le> 32
    \<and> (\<forall>d \<in> set ds. d < base) \<and> digits_value base ds = unat x \<and> (x \<noteq> 0 \<longrightarrow> hd ds \<noteq> 0)"
proof -
  have "unat x < 2 ^ 32" using u32_unat_less [of x] by simp
  from digits_loop_value [OF assms this, of "[]"] obtain ds where
    "digits_loop x base [] = Some (Inr (map digit ds))" "ds \<noteq> []" "length ds \<le> 32"
    "\<forall>d \<in> set ds. d < base" "digits_value base ds = unat x" "x \<noteq> 0 \<longrightarrow> hd ds \<noteq> 0" by auto
  moreover have "\<not> 36 <s base"
  proof -
    have base: "uint base \<le> 36" using assms(2) by (simp add: word_le_def)
    then have "sint base = uint base"
      unfolding sint_uint by (intro signed_take_bit_int_eq_self) (auto intro: order_trans [of _ 0])
    then show ?thesis using base by (simp add: word_sless_alt)
  qed
  ultimately show ?thesis by (auto simp: number_def)
qed

theorem number_prints_digits_witness:
  "\<exists>ds. number 255 16 = Inr (map digit ds) \<and> digits_value 16 ds = 255 \<and> length ds \<le> 32"
  using number_prints_digits [of 16 255] by auto

section \<open>Writing to the screen\<close>

text \<open>The bytes \<open>scroll\<close> moves: 160 ahead, for the first 4320 bytes.\<close>

definition shifted :: "(int \<Rightarrow> u8) \<Rightarrow> int \<Rightarrow> u8" where
  "shifted b i = (if 0 \<le> i \<and> i < 4320 then b (i + 160) else b i)"

lemma scroll_fold:
  "fold (\<lambda>i v. poke i (screen v (i + 160)) v) [0..int n - 1] v =
     v\<lparr>screen := \<lambda>i. if 0 \<le> i \<and> i < int n then screen v (i + 160) else screen v i\<rparr>"
proof (induction n)
  case 0
  have "(\<lambda>i. if 0 \<le> i \<and> i < int 0 then screen v (i + 160) else screen v i) = screen v"
    by (rule ext) auto
  then show ?case by simp
next
  case (Suc n)
  let ?f = "\<lambda>i v. poke i (screen v (i + 160)) v"
    and ?w = "v\<lparr>screen := \<lambda>i. if 0 \<le> i \<and> i < int n then screen v (i + 160) else screen v i\<rparr>"
  have e: "[0..int (Suc n) - 1] = [0..int n - 1] @ [int n]" using upto_rec2 [of 0 "int n"] by simp
  have "fold ?f [0..int (Suc n) - 1] v = ?f (int n) ?w"
    by (simp only: e fold_append fold.simps comp_def id_apply Suc.IH)
  then show ?case by (simp only:) (auto simp: poke_def fun_eq_iff)
qed

lemma scroll_effect:
  "scroll v = (if v_y v > 24 then v\<lparr>screen := shifted (screen v), v_y := v_y v - 1\<rparr> else v)"
  using scroll_fold [of 4320 v] by (simp add: scroll_def Let_def shifted_def [abs_def])

definition on_screen :: "video \<Rightarrow> bool" where
  "on_screen v \<longleftrightarrow> 0 \<le> v_x v \<and> v_x v < 80 \<and> 0 \<le> v_y v \<and> v_y v \<le> 24"

lemma UpdateCursor_same [simp]:
  "screen (UpdateCursor v) = screen v" "v_x (UpdateCursor v) = v_x v" "v_y (UpdateCursor v) = v_y v"
  "v_color (UpdateCursor v) = v_color v"
  by (simp_all add: UpdateCursor_def outb_def Let_def)

text \<open>
  With the cursor on the screen, a printed character writes its byte and the colour into the cell
  under the cursor and moves on, to the next line at the end of one; a newline goes to the start of the
  next line. Past the last line everything moves up by one line, and the cursor stays on the screen: the
  last line then shows the 160 bytes behind the screen, it is not cleared. A backspace clears the cell
  before the cursor, at the start of the screen two bytes before the screen, and from column 0 it moves
  the cursor off the line.
\<close>

theorem kputch_effect:
  assumes "on_screen v"
  defines "cell \<equiv> 2 * (v_y v * 80 + v_x v)"
  shows "(c \<noteq> 10 \<and> c \<noteq> 8 \<longrightarrow> on_screen (kputch c v)
        \<and> screen (kputch c v) =
            (if v_x v = 79 \<and> v_y v = 24 then shifted else id) ((screen v)(cell := c, cell + 1 := v_color v))
        \<and> (v_x (kputch c v), v_y (kputch c v)) =
            (if v_x v < 79 then (v_x v + 1, v_y v) else (0, min 24 (v_y v + 1))))
    \<and> on_screen (kputch 10 v)
    \<and> screen (kputch 10 v) = (if v_y v = 24 then shifted else id) (screen v)
    \<and> (v_x (kputch 10 v), v_y (kputch 10 v)) = (0, min 24 (v_y v + 1))
    \<and> screen (kputch 8 v) = (screen v)(cell - 2 := 0)
    \<and> (on_screen (kputch 8 v) \<longleftrightarrow> v_x v \<noteq> 0)"
  using assms(1)
  by (auto simp: kputch_def Let_def scroll_effect on_screen_def poke_def cell_def algebra_simps fun_upd_def
      split: if_splits cong: if_cong)

definition example_video :: video where
  "example_video = \<lparr>screen = \<lambda>_. 0, v_color = 15, v_x = 0, v_y = 0, ports = []\<rparr>"

theorem kputch_effect_witness:
  "screen (kputch 65 example_video) 0 = 65 \<and> v_x (kputch 65 example_video) = 1
   \<and> screen (kputch 8 example_video) = (screen example_video)(-2 := 0)"
  using kputch_effect [of example_video 65] kputch_effect [of example_video 8]
  by (simp add: example_video_def on_screen_def)

end
