(* ===== verification/Layout.thy ===== *)
theory Layout
  imports Prelude
begin

text \<open>
  The memory map of the kernel (the macros of \<open>hal.x86/include/vmm.h\<close>, \<open>heap.h\<close> and \<open>pmm.h\<close>) and
  the structures the boot loader hands over (\<open>hal.x86/include/multiboot.h\<close>). The addresses of the
  two linker symbols are a parameter: the linker chooses them.
\<close>

section \<open>Address ranges\<close>

record layout =
  kernel_start :: u32
  kernel_end :: u32

abbreviation PAGESIZE :: u32 where "PAGESIZE \<equiv> 0x1000"
abbreviation MIN_MEMORY :: u32 where "MIN_MEMORY \<equiv> 30"

definition PAGEPOOL_START :: "layout \<Rightarrow> u32" where
  "PAGEPOOL_START L = kernel_end L"

definition PAGEPOOL_END :: "layout \<Rightarrow> u32" where
  "PAGEPOOL_END L = PAGEPOOL_START L + 0x200000"

definition USERSPACE_PAGEPOOL :: u32 where
  "USERSPACE_PAGEPOOL = 0x40000000"

definition HEAP_START :: "layout \<Rightarrow> u32" where
  "HEAP_START L = PAGEPOOL_END L"

definition HEAP_SIZE :: u32 where
  "HEAP_SIZE = 0x1400000"

definition HEAP_END :: "layout \<Rightarrow> u32" where
  "HEAP_END L = HEAP_START L + HEAP_SIZE"

text \<open>
  What is assumed of the linked image: both symbols are page aligned and in order, as \<open>kernel.ld\<close> has it, and
  the image is so small (its end at most at 0x3EA00000) that pool and heap, which follow it, stay below the user
  space heap. The bound is an assumption: neither \<open>kernel.ld\<close> nor the code checks it.
\<close>

definition layout_ok :: "layout \<Rightarrow> bool" where
  "layout_ok L \<longleftrightarrow> page_aligned (kernel_start L) \<and> page_aligned (kernel_end L)
     \<and> kernel_start L < kernel_end L \<and> kernel_end L \<le> 0x3EA00000"

lemmas layout_defs =
  PAGEPOOL_START_def PAGEPOOL_END_def HEAP_START_def HEAP_SIZE_def HEAP_END_def

lemma layout_unat:
  assumes "layout_ok L"
  shows "unat (PAGEPOOL_END L) = unat (kernel_end L) + 0x200000"
    and "unat (HEAP_START L) = unat (kernel_end L) + 0x200000"
    and "unat (HEAP_END L) = unat (kernel_end L) + 0x1600000"
    and "unat (kernel_end L) \<le> 0x3EA00000"
    and "0 < unat (kernel_end L)"
proof -
  show le: "unat (kernel_end L) \<le> 0x3EA00000" and "0 < unat (kernel_end L)"
    using assms by (auto simp: layout_ok_def word_le_nat_alt word_less_nat_alt)
  show "unat (PAGEPOOL_END L) = unat (kernel_end L) + 0x200000"
    and "unat (HEAP_START L) = unat (kernel_end L) + 0x200000"
    and "unat (HEAP_END L) = unat (kernel_end L) + 0x1600000"
    using le by (simp_all add: layout_defs unat_word_ariths)
qed

text \<open>A layout as the linker produces it: the image starts at 0 and is a little over 1 MB.\<close>

definition example_layout :: layout where
  "example_layout = \<lparr>kernel_start = 0, kernel_end = 0x150000\<rparr>"

lemma example_layout_ok: "layout_ok example_layout"
  by (simp add: layout_ok_def example_layout_def)

lemma example_layout_sel [simp]:
  "kernel_start example_layout = 0" "kernel_end example_layout = 0x150000"
  "PAGEPOOL_START example_layout = 0x150000" "PAGEPOOL_END example_layout = 0x350000"
  "HEAP_START example_layout = 0x350000" "HEAP_END example_layout = 0x1750000"
  by (simp_all add: example_layout_def layout_defs)

section \<open>Structures of the boot loader\<close>

record multiboot_info =
  mbs_flags :: u32
  mbs_mem_lower :: u32
  mbs_mem_upper :: u32
  mbs_bootdevice :: u32
  mbs_cmdline :: u32
  mbs_mods_count :: u32
  mbs_mods_addr :: u32
  mbs_syms :: "u32 list"
  mbs_mmap_length :: u32
  mbs_mmap_addr :: u32

record multiboot_mmap =
  entry_size :: u32
  mmap_base :: u64
  mmap_length :: u64
  mmap_type :: u32

record multiboot_module =
  mod_start :: u32
  mod_end :: u32
  mod_cmdline :: u32
  mod_reserved :: u32

text \<open>The packed sizes in bytes, by which pointers into the arrays advance.\<close>

abbreviation (input) sizeof_mmap :: u32 where "sizeof_mmap \<equiv> 24"
abbreviation (input) sizeof_module :: u32 where "sizeof_module \<equiv> 16"

end
