(* ===== verification/Pmm.thy ===== *)
theory Pmm
  imports Layout
begin

text \<open>
  The physical memory manager, \<open>hal.x86/pmm.c\<close>: a bitmap with one bit per 4 KB page (set: in use)
  and a counter of free bytes. Its operations, the set of used pages as its abstraction, and the
  functional behaviour of both allocation routines over that set.
\<close>

section \<open>State and operations\<close>

text \<open>
  The C array \<open>bitmap\<close> has 32768 words. Every index the code computes is below that
  (\<open>get_index_bounds\<close>), so it is a function from index to word.
\<close>

record pmm =
  bitmap :: "u32 \<Rightarrow> u32"
  total_memory :: u32
  free_memory :: u32

abbreviation (input) BITMAP_SIZE :: u32 where "BITMAP_SIZE \<equiv> 32768"
abbreviation (input) MEMORY_SIZE :: u32 where "MEMORY_SIZE \<equiv> 1048576"

definition get_index :: "u32 \<Rightarrow> u32 \<times> u32" where
  "get_index addr = (let page = addr div PAGESIZE in (page div 32, page mod 32))"

definition pmm_free :: "u32 \<Rightarrow> pmm \<Rightarrow> pmm" where
  "pmm_free addr p =
     (let (index, offset) = get_index addr
      in p\<lparr>bitmap := (bitmap p)(index := bitmap p index AND NOT (push_bit (unat offset) 1)),
           free_memory := free_memory p + 0x1000\<rparr>)"

definition use :: "u32 \<Rightarrow> pmm \<Rightarrow> pmm" where
  "use addr p =
     (let (index, offset) = get_index addr
      in p\<lparr>bitmap := (bitmap p)(index := bitmap p index OR push_bit (unat offset) 1),
           free_memory := free_memory p - 0x1000\<rparr>)"

text \<open>Despite its name, \<open>is_free\<close> is nonzero where the page is in use.\<close>

definition is_free :: "u32 \<Rightarrow> pmm \<Rightarrow> u32" where
  "is_free addr p =
     (let (index, offset) = get_index addr in bitmap p index AND push_bit (unat offset) 1)"

partial_function (option) pmm_alloc_loop :: "u32 \<Rightarrow> u32 \<Rightarrow> pmm \<Rightarrow> (kerror + u32 \<times> pmm) option" where
  "pmm_alloc_loop i e p =
     (if i < e
      then (if is_free i p = 0 then Some (Inr (i, use i p)) else pmm_alloc_loop (i + PAGESIZE) e p)
      else Some (Inr (0, p)))"

definition pmm_alloc :: "u32 \<Rightarrow> u32 \<Rightarrow> pmm \<Rightarrow> kerror + u32 \<times> pmm" where
  "pmm_alloc start e p =
     bindE (assertE (start < e) ''start < end'') (\<lambda>_. returned (pmm_alloc_loop start e p))"

function pmm_alloc_start_loop :: "u32 \<Rightarrow> pmm \<Rightarrow> u32 \<times> pmm" where
  "pmm_alloc_start_loop i p =
     (if i < MEMORY_SIZE
      then (if is_free (i * PAGESIZE) p = 0 then (i * PAGESIZE, use (i * PAGESIZE) p)
            else pmm_alloc_start_loop (i + 1) p)
      else (0, p))"
  by pat_completeness auto
termination
proof (relation "measure (\<lambda>(i, p). 1048576 - unat i)")
  fix i :: u32 and p :: pmm
  assume "i < MEMORY_SIZE"
  then have "unat i < 1048576" by (simp add: word_less_nat_alt)
  moreover from this have "unat (i + 1) = unat i + 1" by (simp add: unat_word_ariths)
  ultimately show "((i + 1, p), (i, p)) \<in> measure (\<lambda>(i, p). 1048576 - unat i)" by simp
qed simp

declare pmm_alloc_start_loop.simps [simp del]

definition pmm_alloc_start :: "u32 \<Rightarrow> pmm \<Rightarrow> u32 \<times> pmm" where
  "pmm_alloc_start start p = pmm_alloc_start_loop (start div PAGESIZE) p"

text \<open>The number of bytes \<open>pmm_info\<close> reports as used; the report itself is debug output.\<close>

definition pmm_info_used :: "pmm \<Rightarrow> u32" where
  "pmm_info_used p = total_memory p * 1024 * 1024 - free_memory p"

section \<open>Initialisation\<close>

definition free_range :: "u32 \<Rightarrow> u32 \<Rightarrow> pmm \<Rightarrow> kerror + pmm" where
  "free_range = for_pages (\<lambda>a p. Inr (pmm_free a p))"

definition use_range :: "u32 \<Rightarrow> u32 \<Rightarrow> pmm \<Rightarrow> kerror + pmm" where
  "use_range = for_pages (\<lambda>a p. Inr (use a p))"

text \<open>
  The loop over the BIOS memory map. \<open>mm\<close> points to an entry, \<open>mmap_at\<close> is the boot loader's
  memory read as entries; \<open>addr\<close> and \<open>end_addr\<close> keep the low 32 bits of 64-bit values.
\<close>

partial_function (option) mmap_loop ::
  "(u32 \<Rightarrow> multiboot_mmap) \<Rightarrow> u32 \<Rightarrow> u32 \<Rightarrow> pmm \<Rightarrow> (kerror + pmm) option" where
  "mmap_loop mmap_at mm mm_end p =
     (if mm < mm_end
      then (if mmap_type (mmap_at mm) = 1
            then (let addr = ucast (mmap_base (mmap_at mm));
                      end_addr = ucast (ucast addr + mmap_length (mmap_at mm))
                  in case free_range addr end_addr p of
                       Inl x \<Rightarrow> Some (Inl x)
                     | Inr p' \<Rightarrow> mmap_loop mmap_at (mm + sizeof_mmap) mm_end p')
            else mmap_loop mmap_at (mm + sizeof_mmap) mm_end p)
      else Some (Inr p))"

definition use_module :: "(u32 \<Rightarrow> multiboot_module) \<Rightarrow> u32 \<Rightarrow> u32 \<Rightarrow> pmm \<Rightarrow> kerror + pmm" where
  "use_module module_at modules i p =
     (let m = module_at (modules + sizeof_module * i) in use_range (mod_start m) (mod_end m) p)"

definition InitPmm ::
  "layout \<Rightarrow> (u32 \<Rightarrow> multiboot_mmap) \<Rightarrow> (u32 \<Rightarrow> multiboot_module) \<Rightarrow> u32 \<Rightarrow> multiboot_info
     \<Rightarrow> pmm \<Rightarrow> kerror + pmm" where
  "InitPmm L mmap_at module_at mb_addr mb_info p0 =
     (let p1 = p0\<lparr>total_memory := mbs_mem_upper mb_info div 1024 + 1\<rparr> in
      bindE (assertE (MIN_MEMORY < total_memory p1) ''total_memory > MIN_MEMORY'') (\<lambda>_.
      let mmap = mbs_mmap_addr mb_info;
          mmap_end = mbs_mmap_addr mb_info + mbs_mmap_length mb_info;
          p2 = p1\<lparr>bitmap := (\<lambda>_. 0)\<rparr> in
      bindE (returned (mmap_loop mmap_at mmap mmap_end p2)) (\<lambda>p3.
      bindE (use_range (kernel_start L) (kernel_end L) p3) (\<lambda>p4.
      let modules = mbs_mods_addr mb_info;
          p5 = use modules (use mb_addr p4) in
      bindE (foldE (use_module module_at modules)
               (map of_nat [0..<unat (mbs_mods_count mb_info)]) p5) (\<lambda>p6.
      bindE (use_range (HEAP_START L) (HEAP_END L) p6) (\<lambda>p7.
      Inr (use 0 p7)))))))"

section \<open>The set of used pages\<close>

definition page_used :: "pmm \<Rightarrow> u32 \<Rightarrow> bool" where
  "page_used p a \<longleftrightarrow> is_free a p \<noteq> 0"

definition same_page :: "u32 \<Rightarrow> u32 \<Rightarrow> bool" where
  "same_page a b \<longleftrightarrow> a div 4096 = b div 4096"

lemma same_page_refl [simp]: "same_page a a"
  by (simp add: same_page_def)

lemma same_page_sym: "same_page a b \<longleftrightarrow> same_page b a"
  by (auto simp: same_page_def)

lemma same_page_trans: "same_page a b \<Longrightarrow> same_page b c \<Longrightarrow> same_page a c"
  by (simp add: same_page_def)

lemma unat_get_index:
  "unat (fst (get_index a)) = unat a div 131072" "unat (snd (get_index a)) = unat a div 4096 mod 32"
  by (simp_all add: get_index_def Let_def unat_div_distrib unat_mod_distrib flip: div_mult2_eq)

lemma get_index_bounds:
  "fst (get_index a) < BITMAP_SIZE" "snd (get_index a) < 32"
  using u32_unat_less [of a]
  by (auto simp: word_less_nat_alt unat_get_index less_mult_imp_div_less)

lemma get_index_eqI:
  "fst (get_index a) = fst (get_index b) \<Longrightarrow> unat (snd (get_index a)) = unat (snd (get_index b))
     \<Longrightarrow> get_index a = get_index b"
  by (simp add: prod_eq_iff word_unat_eq_iff)

lemma get_index_eq_iff: "get_index a = get_index b \<longleftrightarrow> same_page a b"
proof -
  have "x div 32 = y div 32 \<and> x mod 32 = y mod 32 \<longleftrightarrow> x = y" for x y :: u32
    by (metis div_mult_mod_eq)
  then show ?thesis by (simp add: get_index_def Let_def same_page_def)
qed

lemma page_used_bit:
  "page_used p a \<longleftrightarrow> bit (bitmap p (fst (get_index a))) (unat (snd (get_index a)))"
proof -
  have "x AND push_bit n 1 = 0 \<longleftrightarrow> \<not> bit x n" for x :: u32 and n
    by (simp add: and_exp_eq_0_iff_not_bit push_bit_eq_mult)
  then show ?thesis
    by (simp add: page_used_def is_free_def split_beta)
qed

lemma page_used_use [simp]: "page_used (use a p) b \<longleftrightarrow> same_page a b \<or> page_used p b"
proof -
  have "unat (snd (get_index b)) < 32"
    using get_index_bounds(2) [of b] by (simp add: word_less_nat_alt)
  then show ?thesis
    by (auto simp: page_used_bit use_def split_beta Let_def bit_simps
        simp flip: get_index_eq_iff intro: get_index_eqI)
qed

lemma page_used_free [simp]: "page_used (pmm_free a p) b \<longleftrightarrow> \<not> same_page a b \<and> page_used p b"
proof -
  have "unat (snd (get_index b)) < 32"
    using get_index_bounds(2) [of b] by (simp add: word_less_nat_alt)
  then show ?thesis
    by (auto simp: page_used_bit pmm_free_def split_beta Let_def bit_simps
        simp flip: get_index_eq_iff intro: get_index_eqI)
qed

lemma page_used_same: "same_page a b \<Longrightarrow> page_used p a \<longleftrightarrow> page_used p b"
  by (simp add: page_used_def is_free_def flip: get_index_eq_iff)

lemma is_free_iff: "is_free a p = 0 \<longleftrightarrow> \<not> page_used p a"
  by (simp add: page_used_def)

section \<open>Allocation is a search for the first free page\<close>

lemma use_bitmap_only [simp]: "total_memory (use a p) = total_memory p"
  by (simp add: use_def split_beta Let_def)

lemma free_bitmap_only [simp]: "total_memory (pmm_free a p) = total_memory p"
  by (simp add: pmm_free_def split_beta Let_def)

definition take_first :: "u32 list \<Rightarrow> pmm \<Rightarrow> u32 \<times> pmm" where
  "take_first as p =
     (case find (\<lambda>a. \<not> page_used p a) as of None \<Rightarrow> (0, p) | Some a \<Rightarrow> (a, use a p))"

lemma pmm_alloc_loop_take_first:
  assumes "e \<le> 0xFFFFF000"
  shows "pmm_alloc_loop i e p = Some (Inr (take_first (pages_of i e) p))"
proof (induction "page_count i e" arbitrary: i)
  case 0
  then have "\<not> i < e" using page_count_step [OF _ assms, of i] by auto
  then show ?case by (simp add: pmm_alloc_loop.simps pages_of_done take_first_def)
next
  case (Suc n)
  then have "i < e" using page_count_done by fastforce
  note less = this assms
  have "n = page_count (i + 0x1000) e"
    using Suc.hyps(2) page_count_step [OF less] by simp
  from Suc.hyps(1) [OF this] less show ?case
    by (simp add: pmm_alloc_loop.simps [of i] pages_of_step take_first_def is_free_iff)
qed

lemma pmm_alloc_take_first:
  "start < e \<Longrightarrow> e \<le> 0xFFFFF000 \<Longrightarrow>
     pmm_alloc start e p = Inr (take_first (pages_of start e) p)"
  by (simp add: pmm_alloc_def pmm_alloc_loop_take_first)

definition pages_above :: "u32 \<Rightarrow> u32 list" where
  "pages_above n = map (\<lambda>k. of_nat k * 0x1000) [unat n..<1048576]"

lemma pages_above_step:
  assumes "n < MEMORY_SIZE"
  shows "pages_above n = n * 0x1000 # pages_above (n + 1)"
proof -
  have "unat n < 1048576" using assms by (simp add: word_less_nat_alt)
  moreover from this have "unat (n + 1) = Suc (unat n)" by (simp add: unat_word_ariths)
  ultimately show ?thesis by (simp add: pages_above_def upt_conv_Cons del: upt_Suc)
qed

lemma pages_above_done: "\<not> n < MEMORY_SIZE \<Longrightarrow> pages_above n = []"
  by (simp add: pages_above_def word_less_nat_alt)

lemma pmm_alloc_start_loop_take_first:
  "pmm_alloc_start_loop i p = take_first (pages_above i) p"
proof (induction i p rule: pmm_alloc_start_loop.induct)
  case (1 i p)
  then show ?case
    by (cases "i < MEMORY_SIZE")
      (auto simp: pmm_alloc_start_loop.simps [of i] pages_above_step pages_above_done
        take_first_def is_free_iff)
qed

lemma pmm_alloc_start_take_first:
  "pmm_alloc_start start p = take_first (pages_above (start div 4096)) p"
  by (simp add: pmm_alloc_start_def pmm_alloc_start_loop_take_first)

lemma take_first_cases:
  assumes "take_first as p = (a, p')"
  obtains (fresh) "a \<in> set as" "\<not> page_used p a" "p' = use a p"
  | (full) "a = 0" "p' = p" "\<forall>b \<in> set as. page_used p b"
proof (cases "find (\<lambda>a. \<not> page_used p a) as")
  case None
  then have "take_first as p = (0, p)" by (simp add: take_first_def)
  moreover have "\<forall>b \<in> set as. page_used p b" using None by (auto simp: find_None_iff)
  ultimately show ?thesis using assms full by simp
next
  case (Some b)
  then have "b \<in> set as" "\<not> page_used p b" by (auto simp: find_Some_iff)
  moreover have "a = b" "p' = use b p" using assms Some by (auto simp: take_first_def)
  ultimately show ?thesis using fresh by blast
qed

lemma set_pages_above:
  assumes "page_aligned start"
  shows "a \<in> set (pages_above (start div 4096)) \<longleftrightarrow> start \<le> a \<and> page_aligned a"
proof -
  have start: "unat start = unat start div 4096 * 4096" "unat (start div 4096) = unat start div 4096"
    using assms div_mult_mod_eq [of "unat start" 4096] by (simp_all add: page_aligned_unat unat_div_distrib)
  have page: "unat (of_nat k * 0x1000 :: u32) = k * 4096" if "k < 1048576" for k
    using that by (simp add: unat_word_ariths unat_of_nat)
  show ?thesis
  proof
    assume "a \<in> set (pages_above (start div 4096))"
    then obtain k where k: "unat start div 4096 \<le> k" "k < 1048576" "a = of_nat k * 0x1000"
      by (auto simp: pages_above_def start(2))
    then have "unat a = k * 4096" using page by simp
    with k(1) start(1) show "start \<le> a \<and> page_aligned a"
      unfolding page_aligned_unat word_le_nat_alt by auto
  next
    assume a: "start \<le> a \<and> page_aligned a"
    define k where "k = unat a div 4096"
    have "unat a = k * 4096"
      using a div_mult_mod_eq [of "unat a" 4096] by (simp add: page_aligned_unat k_def)
    moreover have k: "k < 1048576"
      using u32_unat_less [of a] by (simp add: less_mult_imp_div_less k_def)
    ultimately have "a = of_nat k * 0x1000" using page by (simp add: word_unat_eq_iff)
    moreover have "unat start div 4096 \<le> k"
      using a by (simp add: word_le_nat_alt div_le_mono k_def)
    ultimately show "a \<in> set (pages_above (start div 4096))"
      using k by (auto simp: pages_above_def start(2))
  qed
qed

section \<open>The contract of a page allocator\<close>

text \<open>
  What the virtual memory manager relies on: an allocation returns \<open>0\<close> and changes nothing, or
  takes a page of its pool that was not in use.
\<close>

locale page_allocator =
  fixes alloc :: "'p \<Rightarrow> kerror + u32 \<times> 'p"
    and used :: "'p \<Rightarrow> u32 \<Rightarrow> bool"
    and pool :: "u32 \<Rightarrow> bool"
    and inv :: "'p \<Rightarrow> bool"
  assumes alloc_total: "inv p \<Longrightarrow> \<exists>a p'. alloc p = Inr (a, p')"
    and alloc_page: "inv p \<Longrightarrow> alloc p = Inr (a, p') \<Longrightarrow> a \<noteq> 0 \<Longrightarrow> pool a \<and> \<not> used p a"
    and alloc_used: "inv p \<Longrightarrow> alloc p = Inr (a, p') \<Longrightarrow> a \<noteq> 0 \<Longrightarrow>
      used p' b \<longleftrightarrow> same_page a b \<or> used p b"
    and alloc_null: "inv p \<Longrightarrow> alloc p = Inr (0, p') \<Longrightarrow> p' = p \<and> (\<forall>a. pool a \<longrightarrow> used p a)"
    and alloc_inv: "inv p \<Longrightarrow> alloc p = Inr (a, p') \<Longrightarrow> inv p'"
    and pool_page: "inv p \<Longrightarrow> pool a \<Longrightarrow> page_aligned a \<and> a \<noteq> 0"
    and used_page: "same_page a b \<Longrightarrow> used p a \<longleftrightarrow> used p b"
begin

lemma alloc_mono:
  "inv p \<Longrightarrow> alloc p = Inr (a, p') \<Longrightarrow> used p b \<Longrightarrow> used p' b"
  using alloc_used alloc_null by (cases "a = 0") blast+

lemma alloc_distinct:
  assumes "inv p" "alloc p = Inr (a, p')" "alloc p' = Inr (b, p'')" "a \<noteq> 0" "b \<noteq> 0"
  shows "\<not> same_page a b"
  using assms alloc_page [of p' b p''] alloc_used [of p a p' b] alloc_inv by blast

lemma alloc_fails_iff:
  assumes "inv p" "alloc p = Inr (a, p')"
  shows "a = 0 \<longleftrightarrow> (\<forall>b. pool b \<longrightarrow> used p b)"
  using assms alloc_null alloc_page by blast

fun alloc_n :: "nat \<Rightarrow> 'p \<Rightarrow> kerror + u32 list \<times> 'p" where
  "alloc_n 0 p = Inr ([], p)"
| "alloc_n (Suc n) p =
     bindE (alloc p) (\<lambda>(a, p'). bindE (alloc_n n p') (\<lambda>(as, p''). Inr (a # as, p'')))"

lemma alloc_n_step:
  assumes "inv p" "alloc_n (Suc n) p = Inr (as, p')" "0 \<notin> set as"
  obtains a p1 bs where "as = a # bs" "alloc p = Inr (a, p1)" "alloc_n n p1 = Inr (bs, p')"
    "inv p1" "pool a" "\<not> used p a" "\<And>b. used p1 b \<longleftrightarrow> same_page a b \<or> used p b" "0 \<notin> set bs"
proof -
  from assms obtain a p1 bs where step: "as = a # bs" "alloc p = Inr (a, p1)"
      "alloc_n n p1 = Inr (bs, p')"
    by (auto simp: kernel_simps)
  moreover have "a \<noteq> 0" "0 \<notin> set bs" using step assms(3) by auto
  moreover have "inv p1" using step assms(1) alloc_inv by blast
  ultimately show ?thesis
    using that alloc_page [OF assms(1) step(2)] alloc_used [OF assms(1) step(2)] by blast
qed

lemma alloc_n_used:
  assumes "inv p" "alloc_n n p = Inr (as, p')" "0 \<notin> set as"
  shows "used p' b \<longleftrightarrow> (\<exists>a \<in> set as. same_page a b) \<or> used p b"
  using assms
proof (induction n arbitrary: p as)
  case (Suc n)
  from alloc_n_step [OF Suc.prems] obtain a p1 bs where "as = a # bs"
      "alloc_n n p1 = Inr (bs, p')" "inv p1" "0 \<notin> set bs"
      "used p1 b \<longleftrightarrow> same_page a b \<or> used p b" by metis
  with Suc.IH [of p1 bs] show ?case by auto
qed simp

lemma alloc_n_fresh:
  assumes "inv p" "alloc_n n p = Inr (as, p')" "0 \<notin> set as"
  shows "(\<forall>a \<in> set as. pool a \<and> \<not> used p a) \<and> distinct (map (\<lambda>a. a div 4096) as)"
  using assms
proof (induction n arbitrary: p as)
  case (Suc n)
  from alloc_n_step [OF Suc.prems] obtain a p1 bs where step: "as = a # bs"
      "alloc_n n p1 = Inr (bs, p')" "inv p1" "0 \<notin> set bs" "pool a" "\<not> used p a"
      "\<And>b. used p1 b \<longleftrightarrow> same_page a b \<or> used p b" by metis
  with Suc.IH [of p1 bs] show ?case by (auto simp: same_page_def)
qed simp

end

locale page_manager = page_allocator +
  fixes free_page :: "u32 \<Rightarrow> 'a \<Rightarrow> 'a"
  assumes free_used: "used (free_page a p) b \<longleftrightarrow> \<not> same_page a b \<and> used p b"
begin

lemma alloc_free:
  assumes "inv p" "alloc p = Inr (a, p')" "a \<noteq> 0"
  shows "used (free_page a p') b \<longleftrightarrow> used p b"
  using assms alloc_used alloc_page [of p a p'] used_page [of a b p] by (auto simp: free_used)

end

text \<open>
  Both allocation routines are page allocators: \<open>pmm_alloc\<close> on the page pool, from which page
  directories and page tables come, and \<open>pmm_alloc_start\<close> on everything above the kernel heap, from
  which user memory comes.
\<close>

lemma pool_bounds:
  assumes "layout_ok L"
  shows "PAGEPOOL_START L < PAGEPOOL_END L" "PAGEPOOL_END L \<le> 0xFFFFF000"
    "page_aligned (PAGEPOOL_START L)" "page_aligned (HEAP_END L)" "PAGEPOOL_START L \<noteq> 0" "HEAP_END L \<noteq> 0"
  using layout_unat [OF assms] assms
  by (auto simp: word_less_nat_alt word_le_nat_alt page_aligned_unat layout_ok_def PAGEPOOL_START_def)

definition in_pool :: "layout \<Rightarrow> u32 \<Rightarrow> bool" where
  "in_pool L a \<longleftrightarrow> PAGEPOOL_START L \<le> a \<and> a < PAGEPOOL_END L \<and> page_aligned a"

definition above_heap :: "layout \<Rightarrow> u32 \<Rightarrow> bool" where
  "above_heap L a \<longleftrightarrow> HEAP_END L \<le> a \<and> page_aligned a"

definition pool_alloc :: "layout \<Rightarrow> pmm \<Rightarrow> kerror + u32 \<times> pmm" where
  "pool_alloc L = pmm_alloc (PAGEPOOL_START L) (PAGEPOOL_END L)"

definition frame_alloc :: "layout \<Rightarrow> pmm \<Rightarrow> kerror + u32 \<times> pmm" where
  "frame_alloc L p = Inr (pmm_alloc_start (HEAP_END L) p)"

lemma pool_alloc_take_first:
  "layout_ok L \<Longrightarrow>
     pool_alloc L p = Inr (take_first (pages_of (PAGEPOOL_START L) (PAGEPOOL_END L)) p)"
  by (simp add: pool_alloc_def pmm_alloc_take_first pool_bounds)

lemma set_pool:
  "layout_ok L \<Longrightarrow> a \<in> set (pages_of (PAGEPOOL_START L) (PAGEPOOL_END L)) \<longleftrightarrow> in_pool L a"
  by (simp add: set_pages_of pool_bounds in_pool_def)

lemma set_above_heap:
  "layout_ok L \<Longrightarrow> a \<in> set (pages_above (HEAP_END L div 4096)) \<longleftrightarrow> above_heap L a"
  by (simp add: set_pages_above pool_bounds above_heap_def)

lemma take_first_allocator:
  assumes "\<And>p. ok p \<Longrightarrow> alloc p = Inr (take_first as p)"
    and "\<And>p a. ok p \<Longrightarrow> a \<in> set as \<longleftrightarrow> pool a"
    and "\<And>p a. ok p \<Longrightarrow> pool a \<Longrightarrow> page_aligned a \<and> a \<noteq> 0"
    and "\<And>p a. ok p \<Longrightarrow> ok (use a p)"
  shows "page_allocator alloc page_used pool ok"
proof
  fix p a p' b
  assume ok: "ok p"
  note elim = take_first_cases [of as p]
  show "\<exists>a p'. alloc p = Inr (a, p')"
    using assms(1) [OF ok] by (cases "take_first as p") auto
  show "pool a \<Longrightarrow> page_aligned a \<and> a \<noteq> 0" using assms(3) ok by blast
  assume "alloc p = Inr (a, p')"
  then have tf: "take_first as p = (a, p')" using assms(1) [OF ok] by simp
  show "ok p'" using elim [OF tf] assms(4) ok by metis
  show "a \<noteq> 0 \<Longrightarrow> pool a \<and> \<not> page_used p a" using elim [OF tf] assms(2) [OF ok] by metis
  show "a \<noteq> 0 \<Longrightarrow> page_used p' b \<longleftrightarrow> same_page a b \<or> page_used p b"
    using elim [OF tf] page_used_use by metis
next
  fix p p'
  assume ok: "ok p" and "alloc p = Inr (0, p')"
  then have tf: "take_first as p = (0, p')" using assms(1) by simp
  show "p' = p \<and> (\<forall>a. pool a \<longrightarrow> page_used p a)"
    using take_first_cases [OF tf] assms(2,3) [OF ok] by metis
qed (rule page_used_same)

interpretation pool: page_manager "pool_alloc L" page_used "in_pool L" "\<lambda>_. layout_ok L" pmm_free
  for L
proof -
  have "page_allocator (pool_alloc L) page_used (in_pool L) (\<lambda>_. layout_ok L)"
    by (rule take_first_allocator [OF pool_alloc_take_first set_pool])
      (use pool_bounds in \<open>auto simp: in_pool_def\<close>)
  then show "page_manager (pool_alloc L) page_used (in_pool L) (\<lambda>_. layout_ok L) pmm_free"
    by (rule page_manager.intro) (rule page_manager_axioms.intro, simp)
qed

interpretation frames: page_manager "frame_alloc L" page_used "above_heap L" "\<lambda>_. layout_ok L" pmm_free
  for L
proof -
  have "page_allocator (frame_alloc L) page_used (above_heap L) (\<lambda>_. layout_ok L)"
    by (rule take_first_allocator [OF _ set_above_heap])
      (use pool_bounds in \<open>auto simp: above_heap_def frame_alloc_def pmm_alloc_start_take_first\<close>)
  then show "page_manager (frame_alloc L) page_used (above_heap L) (\<lambda>_. layout_ok L) pmm_free"
    by (rule page_manager.intro) (rule page_manager_axioms.intro, simp)
qed

section \<open>What the boot leaves in use\<close>

definition covers :: "u32 \<Rightarrow> u32 \<Rightarrow> u32 \<Rightarrow> bool" where
  "covers s e a \<longleftrightarrow> (\<exists>x \<in> set (pages_of s e). same_page x a)"

lemma page_used_fold_use:
  "page_used (fold use as p) b \<longleftrightarrow> (\<exists>a \<in> set as. same_page a b) \<or> page_used p b"
  by (induction as arbitrary: p) auto

lemma page_used_fold_free: "page_used (fold pmm_free as p) b \<Longrightarrow> page_used p b"
  by (induction as arbitrary: p) (simp, metis fold_simps(2) page_used_free)

lemma use_range_fold:
  "e \<le> 0xFFFFF000 \<Longrightarrow> use_range s e p = Inr (fold use (pages_of s e) p)"
  by (simp add: use_range_def for_pages_foldE foldE_pure)

lemma use_range_used:
  assumes "e \<le> 0xFFFFF000"
  shows "\<exists>p'. use_range s e p = Inr p' \<and> (\<forall>b. page_used p' b \<longleftrightarrow> covers s e b \<or> page_used p b)"
  using assms by (simp add: use_range_fold page_used_fold_use covers_def)

lemma free_range_used:
  assumes "e \<le> 0xFFFFF000"
  shows "\<exists>p'. free_range s e p = Inr p' \<and> (\<forall>b. page_used p' b \<longrightarrow> page_used p b)"
  using assms page_used_fold_free by (auto simp: free_range_def for_pages_foldE foldE_pure)

lemma covers_aligned:
  assumes "page_aligned s" "page_aligned e"
  shows "covers s e a \<longleftrightarrow> s \<le> a \<and> a < e"
proof -
  define b where "b = a - a mod 4096"
  have "unat (a mod 4096) \<le> unat a" by (simp add: unat_mod_distrib)
  then have b: "unat b = unat a - unat a mod 4096"
    by (simp add: b_def unat_sub word_le_nat_alt unat_mod_distrib)
  then have b_mod: "unat b mod 4096 = 0" "unat b div 4096 = unat a div 4096"
    by (simp_all add: minus_mod_eq_mult_div)
  have se: "unat s mod 4096 = 0" "unat e mod 4096 = 0"
    using assms by (simp_all add: page_aligned_unat)
  have page: "same_page x a \<longleftrightarrow> unat x div 4096 = unat a div 4096" for x
    by (simp add: same_page_def word_unat_eq_iff unat_div_distrib)
  have le: "(n::nat) mod 4096 = 0 \<Longrightarrow> n div 4096 = k div 4096 \<Longrightarrow> n \<le> k" for n k
    by (metis div_mult_mod_eq add.right_neutral le_add1)
  have fwd: "s \<le> a \<and> a < e" if x: "s \<le> x" "x < e" "page_aligned x" "same_page x a" for x
  proof -
    have "unat x \<le> unat a" using x le [of "unat x" "unat a"] page by (simp add: page_aligned_unat)
    moreover have "unat a < unat e"
    proof (rule ccontr)
      assume "\<not> unat a < unat e"
      then have "unat e div 4096 \<le> unat x div 4096" using x page by (simp add: div_le_mono)
      then have "unat e \<le> unat x"
        using se(2) x(3) unfolding page_aligned_unat by (metis div_mult_mod_eq mult_le_mono1 add.right_neutral)
      with x(2) show False by (simp add: word_less_nat_alt)
    qed
    ultimately show ?thesis using x by (simp add: word_le_nat_alt word_less_nat_alt)
  qed
  have bwd: "s \<le> b \<and> b < e \<and> page_aligned b \<and> same_page b a" if "s \<le> a" "a < e"
  proof -
    have "unat s div 4096 \<le> unat b div 4096" using that b_mod by (simp add: word_le_nat_alt div_le_mono)
    then have "unat s \<le> unat b"
      using se(1) b_mod(1) by (metis div_mult_mod_eq mult_le_mono1 add.right_neutral)
    moreover have "unat b \<le> unat a" using b by simp
    ultimately show ?thesis
      using that page b_mod by (simp add: word_le_nat_alt word_less_nat_alt page_aligned_unat)
  qed
  show ?thesis
  proof
    assume "covers s e a"
    then obtain x where "x \<in> set (pages_of s e)" "same_page x a" by (auto simp: covers_def)
    then show "s \<le> a \<and> a < e" using fwd set_pages_of [OF assms(1)] by metis
  next
    assume "s \<le> a \<and> a < e"
    then have "b \<in> set (pages_of s e)" "same_page b a"
      using bwd set_pages_of [OF assms(1)] by metis+
    then show "covers s e a" by (auto simp: covers_def)
  qed
qed

definition boot_ok ::
  "(u32 \<Rightarrow> multiboot_mmap) \<Rightarrow> (u32 \<Rightarrow> multiboot_module) \<Rightarrow> multiboot_info \<Rightarrow> bool" where
  "boot_ok mmap_at module_at mb_info \<longleftrightarrow>
     MIN_MEMORY < mbs_mem_upper mb_info div 1024 + 1
   \<and> mbs_mmap_addr mb_info + mbs_mmap_length mb_info \<le> 0xFFFFFFE8
   \<and> (\<forall>m. mbs_mmap_addr mb_info \<le> m \<and> m < mbs_mmap_addr mb_info + mbs_mmap_length mb_info
        \<and> mmap_type (mmap_at m) = 1 \<longrightarrow>
        ucast (ucast (ucast (mmap_base (mmap_at m)) :: u32) + mmap_length (mmap_at m))
          \<le> (0xFFFFF000 :: u32))
   \<and> (\<forall>i < unat (mbs_mods_count mb_info).
        mod_end (module_at (mbs_mods_addr mb_info + sizeof_module * of_nat i)) \<le> 0xFFFFF000)"

lemma mmap_loop_used:
  assumes "mm_end \<le> 0xFFFFFFE8"
    and "\<forall>m. mm \<le> m \<and> m < mm_end \<and> mmap_type (mmap_at m) = 1 \<longrightarrow>
        ucast (ucast (ucast (mmap_base (mmap_at m)) :: u32) + mmap_length (mmap_at m))
          \<le> (0xFFFFF000 :: u32)"
  shows "\<exists>p'. mmap_loop mmap_at mm mm_end p = Some (Inr p') \<and>
           (\<forall>b. page_used p' b \<longrightarrow> page_used p b)"
  using assms(2)
proof (induction "unat mm_end - unat mm" arbitrary: mm p rule: less_induct)
  case less
  show ?case
  proof (cases "mm < mm_end")
    case False
    then show ?thesis by (simp add: mmap_loop.simps)
  next
    case True
    have "unat mm < 0xFFFFFFE8" using True assms(1) by (simp add: word_less_nat_alt word_le_nat_alt)
    then have next_mm: "unat (mm + 24) = unat mm + 24" by (simp add: unat_word_ariths)
    then have "unat mm_end - unat (mm + 24) < unat mm_end - unat mm" "mm \<le> mm + 24"
      using True by (simp_all add: word_less_nat_alt word_le_nat_alt)
    note IH = less.hyps [OF this(1)]
    have rest: "\<exists>p'. mmap_loop mmap_at (mm + 24) mm_end q = Some (Inr p') \<and>
        (\<forall>b. page_used p' b \<longrightarrow> page_used q b)" for q
      using IH less.prems \<open>mm \<le> mm + 24\<close> order_trans by blast
    show ?thesis
    proof (cases "mmap_type (mmap_at mm) = 1")
      case False
      with True rest [of p] show ?thesis by (simp add: mmap_loop.simps [of mmap_at mm])
    next
      case usable: True
      let ?addr = "ucast (mmap_base (mmap_at mm)) :: u32"
      let ?stop = "ucast (ucast ?addr + mmap_length (mmap_at mm)) :: u32"
      have "?stop \<le> 0xFFFFF000" using less.prems True usable by blast
      then obtain q where q: "free_range ?addr ?stop p = Inr q" "\<forall>b. page_used q b \<longrightarrow> page_used p b"
        using free_range_used by blast
      with True usable rest [of q] show ?thesis
        by (auto simp: mmap_loop.simps [of mmap_at mm] Let_def)
    qed
  qed
qed

lemma use_modules_used:
  assumes "\<forall>i \<in> set is. mod_end (module_at (modules + sizeof_module * i)) \<le> 0xFFFFF000"
  shows "\<exists>p'. foldE (use_module module_at modules) is p = Inr p' \<and>
    (\<forall>b. page_used p' b \<longleftrightarrow>
       (\<exists>i \<in> set is. covers (mod_start (module_at (modules + sizeof_module * i)))
                          (mod_end (module_at (modules + sizeof_module * i))) b) \<or> page_used p b)"
  using assms
proof (induction "is" arbitrary: p)
  case (Cons i js)
  let ?m = "module_at (modules + sizeof_module * i)"
  obtain q where q: "use_range (mod_start ?m) (mod_end ?m) p = Inr q"
      "\<forall>b. page_used q b \<longleftrightarrow> covers (mod_start ?m) (mod_end ?m) b \<or> page_used p b"
    using use_range_used Cons.prems by (metis list.set_intros(1))
  from Cons.IH [of q] Cons.prems q show ?case by (auto simp: use_module_def Let_def)
qed simp

lemma InitPmm_pages:
  assumes "layout_ok L" and "boot_ok mmap_at module_at mb_info"
  shows "\<exists>p. InitPmm L mmap_at module_at mb_addr mb_info p0 = Inr p \<and>
    (\<forall>a. page_used p a \<longleftrightarrow>
       kernel_start L \<le> a \<and> a < kernel_end L
     \<or> same_page a mb_addr \<or> same_page a (mbs_mods_addr mb_info)
     \<or> (\<exists>i < unat (mbs_mods_count mb_info).
          let m = module_at (mbs_mods_addr mb_info + sizeof_module * of_nat i)
          in covers (mod_start m) (mod_end m) a)
     \<or> HEAP_START L \<le> a \<and> a < HEAP_END L
     \<or> same_page a 0)"
proof -
  let ?p1 = "p0\<lparr>total_memory := mbs_mem_upper mb_info div 1024 + 1\<rparr>"
  let ?mm = "mbs_mmap_addr mb_info" and ?len = "mbs_mmap_length mb_info"
  let ?mods = "mbs_mods_addr mb_info" and ?n = "unat (mbs_mods_count mb_info)"
  let ?p2 = "?p1\<lparr>bitmap := (\<lambda>_. 0)\<rparr>"
  have ks: "page_aligned (kernel_start L)" "page_aligned (kernel_end L)" "kernel_end L \<le> 0xFFFFF000"
    "page_aligned (HEAP_START L)" "page_aligned (HEAP_END L)" "HEAP_END L \<le> 0xFFFFF000"
    using layout_unat [OF assms(1)] assms(1)
    by (auto simp: layout_ok_def word_le_nat_alt page_aligned_unat)
  obtain p3 where p3: "mmap_loop mmap_at ?mm (?mm + ?len) ?p2 = Some (Inr p3)"
      "\<forall>b. \<not> page_used p3 b"
    using mmap_loop_used [of "?mm + ?len" ?mm mmap_at ?p2] assms(2)
    by (auto simp: boot_ok_def page_used_bit)
  obtain p4 where p4: "use_range (kernel_start L) (kernel_end L) p3 = Inr p4"
      "\<forall>b. page_used p4 b \<longleftrightarrow> covers (kernel_start L) (kernel_end L) b \<or> page_used p3 b"
    using use_range_used ks by blast
  let ?p5 = "use ?mods (use mb_addr p4)"
  obtain p6 where p6: "foldE (use_module module_at ?mods) (map of_nat [0..<?n]) ?p5 = Inr p6"
    and p6_used: "\<forall>b. page_used p6 b \<longleftrightarrow>
       (\<exists>i \<in> set (map of_nat [0..<?n]). covers (mod_start (module_at (?mods + sizeof_module * i)))
                          (mod_end (module_at (?mods + sizeof_module * i))) b) \<or> page_used ?p5 b"
    using use_modules_used [of "map of_nat [0..<?n]" module_at ?mods ?p5] assms(2)
    by (auto simp: boot_ok_def)
  obtain p7 where p7: "use_range (HEAP_START L) (HEAP_END L) p6 = Inr p7"
      "\<forall>b. page_used p7 b \<longleftrightarrow> covers (HEAP_START L) (HEAP_END L) b \<or> page_used p6 b"
    using use_range_used ks by blast
  have "InitPmm L mmap_at module_at mb_addr mb_info p0 = Inr (use 0 p7)"
    using assms(2) p3(1) p4(1) p6 p7(1) by (simp add: InitPmm_def boot_ok_def)
  moreover have "page_used (use 0 p7) a \<longleftrightarrow>
       kernel_start L \<le> a \<and> a < kernel_end L
     \<or> same_page a mb_addr \<or> same_page a ?mods
     \<or> (\<exists>i < ?n. let m = module_at (?mods + sizeof_module * of_nat i)
               in covers (mod_start m) (mod_end m) a)
     \<or> HEAP_START L \<le> a \<and> a < HEAP_END L \<or> same_page a 0" for a
    using p3(2) p4(2) p6_used p7(2) covers_aligned ks
    by (auto simp: Let_def same_page_sym)
  ultimately show ?thesis by blast
qed

text \<open>
  C15: Whatever the BIOS memory map says, \<open>InitPmm\<close> returns (its loops end when no range reaches the
  last page below 4 GB), and exactly these pages are marked used: the kernel image, the two multiboot
  structures, the pages of every module, the kernel heap, and page 0. Every other page counts as free.
\<close>

theorem InitPmm_used_pages:
  assumes "layout_ok L" and "boot_ok mmap_at module_at mb_info"
  shows "\<exists>p. InitPmm L mmap_at module_at mb_addr mb_info p0 = Inr p \<and>
    (\<forall>a. page_used p a \<longleftrightarrow>
       kernel_start L \<le> a \<and> a < kernel_end L
     \<or> same_page a mb_addr \<or> same_page a (mbs_mods_addr mb_info)
     \<or> (\<exists>i < unat (mbs_mods_count mb_info).
          let m = module_at (mbs_mods_addr mb_info + sizeof_module * of_nat i)
          in covers (mod_start m) (mod_end m) a)
     \<or> HEAP_START L \<le> a \<and> a < HEAP_END L
     \<or> same_page a 0)"
  by (rule InitPmm_pages [OF assms])

definition example_mmap :: "u32 \<Rightarrow> multiboot_mmap" where
  "example_mmap _ = \<lparr>entry_size = 20, mmap_base = 0x100000, mmap_length = 0x7F00000, mmap_type = 1\<rparr>"

definition example_module :: "u32 \<Rightarrow> multiboot_module" where
  "example_module _ = \<lparr>mod_start = 0x151000, mod_end = 0x170000, mod_cmdline = 0, mod_reserved = 0\<rparr>"

definition example_info :: multiboot_info where
  "example_info = \<lparr>mbs_flags = 0, mbs_mem_lower = 640, mbs_mem_upper = 0x1FC00, mbs_bootdevice = 0,
     mbs_cmdline = 0, mbs_mods_count = 1, mbs_mods_addr = 0x10000, mbs_syms = [0, 0, 0, 0],
     mbs_mmap_length = 24, mbs_mmap_addr = 0x9000\<rparr>"

theorem InitPmm_used_pages_witness:
  "\<forall>p0. \<exists>p. InitPmm example_layout example_mmap example_module 0x9500 example_info p0 = Inr p
     \<and> page_used p 0x100000 \<and> page_used p 0x160000 \<and> page_used p 0x400000
     \<and> \<not> page_used p 0x180000 \<and> \<not> page_used p 0xF0000000"
proof
  fix p0
  have ok: "boot_ok example_mmap example_module example_info"
    by (simp add: boot_ok_def example_info_def example_mmap_def example_module_def)
  from InitPmm_used_pages [OF example_layout_ok ok, of "0x9500" p0]
  show "\<exists>p. InitPmm example_layout example_mmap example_module 0x9500 example_info p0 = Inr p
     \<and> page_used p 0x100000 \<and> page_used p 0x160000 \<and> page_used p 0x400000
     \<and> \<not> page_used p 0x180000 \<and> \<not> page_used p 0xF0000000"
    by (auto simp: example_info_def example_module_def Let_def covers_aligned same_page_def)
qed

section \<open>Behaviour of allocation\<close>

lemma find_first_page:
  assumes "find Q (pages_of s e) = Some a" "page_aligned s" "s \<le> b" "b < a" "page_aligned b"
  shows "\<not> Q b"
proof -
  from assms(1) obtain k where k: "k < page_count s e" "a = s + 0x1000 * of_nat k"
      "\<forall>j < k. \<not> Q (s + 0x1000 * of_nat j)"
    by (auto simp: find_Some_iff pages_of_def)
  have "a < e" using unat_pages_of [OF k(1)] k(2) by (simp add: word_less_nat_alt)
  then have "b \<in> set (pages_of s e)"
    using assms set_pages_of [OF assms(2)] order_less_trans by blast
  then obtain j where j: "j < page_count s e" "b = s + 0x1000 * of_nat j"
    by (auto simp: pages_of_def)
  then have "j < k"
    using assms(4) k(2) unat_pages_of(1) [OF k(1)] unat_pages_of(1) [OF j(1)]
    by (simp add: word_less_nat_alt)
  with k(3) j(2) show ?thesis by simp
qed

lemma find_first_page_above:
  assumes "find Q (pages_above (s div 4096)) = Some a" "page_aligned s" "s \<le> b" "b < a"
    "page_aligned b"
  shows "\<not> Q b"
proof -
  let ?n = "unat (s div 4096)"
  have page: "unat (of_nat k * 0x1000 :: u32) = k * 4096" if "k < 1048576" for k
    using that by (simp add: unat_word_ariths unat_of_nat)
  from assms(1) obtain k where "k < length (pages_above (s div 4096))"
      "a = pages_above (s div 4096) ! k" "\<forall>j < k. \<not> Q (pages_above (s div 4096) ! j)"
    unfolding find_Some_iff by blast
  then have k: "?n + k < 1048576" "a = of_nat (?n + k) * 0x1000"
      "\<forall>j < k. \<not> Q (of_nat (?n + j) * 0x1000)"
    by (auto simp: pages_above_def simp del: of_nat_add)
  have "b \<in> set (pages_above (s div 4096))" using assms set_pages_above by simp
  then obtain j where j: "?n \<le> j" "j < 1048576" "b = of_nat j * 0x1000"
    by (auto simp: pages_above_def)
  then have "j - ?n < k"
    using assms(4) k page [OF k(1)] page [OF j(2)] by (simp add: word_less_nat_alt)
  with k(3) j(1,3) show ?thesis by (metis le_add_diff_inverse)
qed

text \<open>
  C16: \<open>pmm_alloc\<close> on an aligned range returns the lowest free page of it, marks that page and no
  other, and takes one page off the free counter; it returns \<open>NULL\<close> and changes nothing exactly when
  every page of the range is in use.
\<close>

theorem pmm_alloc_first_free:
  assumes "start < e" "e \<le> 0xFFFFF000" "page_aligned start"
  shows "\<exists>a p'. pmm_alloc start e p = Inr (a, p') \<and>
    (if \<exists>b. start \<le> b \<and> b < e \<and> page_aligned b \<and> \<not> page_used p b
     then start \<le> a \<and> a < e \<and> page_aligned a \<and> \<not> page_used p a
        \<and> (\<forall>b. start \<le> b \<and> b < a \<and> page_aligned b \<longrightarrow> page_used p b)
        \<and> (\<forall>c. page_used p' c \<longleftrightarrow> same_page a c \<or> page_used p c)
        \<and> free_memory p' = free_memory p - 0x1000
     else a = 0 \<and> p' = p)"
proof (cases "find (\<lambda>a. \<not> page_used p a) (pages_of start e)")
  case None
  then have "take_first (pages_of start e) p = (0, p)" by (simp add: take_first_def)
  moreover have "\<forall>a \<in> set (pages_of start e). page_used p a"
    using None by (auto simp: find_None_iff)
  ultimately show ?thesis
    using pmm_alloc_take_first [OF assms(1,2)] set_pages_of [OF assms(3)] by auto
next
  case (Some a)
  then have a: "a \<in> set (pages_of start e)" "\<not> page_used p a" by (auto simp: find_Some_iff)
  have "take_first (pages_of start e) p = (a, use a p)" using Some by (simp add: take_first_def)
  moreover have "free_memory (use a p) = free_memory p - 0x1000"
    by (simp add: use_def split_beta Let_def)
  ultimately show ?thesis
    using pmm_alloc_take_first [OF assms(1,2)] a find_first_page [OF Some assms(3)]
    unfolding set_pages_of [OF assms(3)] by (intro exI [of _ a] exI [of _ "use a p"]) auto
qed

definition empty_pmm :: pmm where
  "empty_pmm = \<lparr>bitmap = \<lambda>_. 0, total_memory = 128, free_memory = 0x8000000\<rparr>"

theorem pmm_alloc_first_free_witness:
  "\<exists>p'. pmm_alloc 0x150000 0x350000 (use 0x150000 empty_pmm) = Inr (0x151000, p')"
proof -
  let ?p = "use 0x150000 empty_pmm"
  have used: "page_used ?p a \<longleftrightarrow> same_page 0x150000 a" for a
    by (simp, simp add: empty_pmm_def page_used_bit)
  have "\<exists>b. 0x150000 \<le> b \<and> b < (0x350000::u32) \<and> page_aligned b \<and> \<not> same_page 0x150000 b"
    by (rule exI [of _ "0x151000"]) (simp add: same_page_def)
  then obtain a p' where a: "pmm_alloc 0x150000 0x350000 ?p = Inr (a, p')"
    "0x150000 \<le> a" "page_aligned a" "\<not> same_page 0x150000 a"
    "\<forall>b. 0x150000 \<le> b \<and> b < a \<and> page_aligned b \<longrightarrow> same_page 0x150000 b"
    using pmm_alloc_first_free [of "0x150000" "0x350000" ?p] unfolding used
    by auto
  have "\<not> 0x151000 < a" using a(5) [rule_format, of "0x151000"] by (auto simp: same_page_def)
  moreover obtain k where k: "unat a = k * 4096" using a(3) by (rule page_alignedE)
  moreover have "k \<noteq> 336" using a(4) k by (auto simp: same_page_def word_unat_eq_iff unat_div_distrib)
  ultimately have "a = 0x151000" using a(2) by (simp add: word_le_nat_alt word_less_nat_alt word_unat_eq_iff)
  with a(1) show ?thesis by blast
qed

text \<open>
  \<open>pmm_alloc_start\<close> always returns. It takes the lowest free page at or above its (aligned)
  argument, and returns \<open>NULL\<close> and changes nothing when every such page of the 4 GB is in use.
\<close>

theorem pmm_alloc_start_first_free:
  assumes "page_aligned start"
  shows "case pmm_alloc_start start p of (a, p') \<Rightarrow>
    (if \<exists>b. start \<le> b \<and> page_aligned b \<and> \<not> page_used p b
     then start \<le> a \<and> page_aligned a \<and> \<not> page_used p a
        \<and> (\<forall>b. start \<le> b \<and> b < a \<and> page_aligned b \<longrightarrow> page_used p b)
        \<and> (\<forall>c. page_used p' c \<longleftrightarrow> same_page a c \<or> page_used p c)
        \<and> free_memory p' = free_memory p - 0x1000
     else a = 0 \<and> p' = p)"
proof (cases "find (\<lambda>a. \<not> page_used p a) (pages_above (start div 4096))")
  case None
  then have "take_first (pages_above (start div 4096)) p = (0, p)" by (simp add: take_first_def)
  moreover have "\<forall>a \<in> set (pages_above (start div 4096)). page_used p a"
    using None by (auto simp: find_None_iff)
  ultimately show ?thesis
    using pmm_alloc_start_take_first set_pages_above [OF assms] by auto
next
  case (Some a)
  then have a: "a \<in> set (pages_above (start div 4096))" "\<not> page_used p a"
    by (auto simp: find_Some_iff)
  have "take_first (pages_above (start div 4096)) p = (a, use a p)"
    using Some by (simp add: take_first_def)
  moreover have "free_memory (use a p) = free_memory p - 0x1000"
    by (simp add: use_def split_beta Let_def)
  ultimately show ?thesis
    using a find_first_page_above [OF Some assms]
    unfolding pmm_alloc_start_take_first set_pages_above [OF assms] by auto
qed

theorem pmm_alloc_start_first_free_witness:
  "\<exists>a p'. pmm_alloc_start 0x1750000 empty_pmm = (a, p') \<and> page_used p' a \<and> 0x1750000 \<le> a"
proof -
  have free: "\<not> page_used empty_pmm b" for b by (simp add: empty_pmm_def page_used_bit)
  show ?thesis
    using pmm_alloc_start_first_free [of "0x1750000" empty_pmm] free
    by (cases "pmm_alloc_start 0x1750000 empty_pmm") (auto split: if_splits)
qed

lemma below_last_page:
  assumes "page_aligned i" "0xFFFFF000 < e"
  shows "i < e" "page_aligned (i + PAGESIZE)"
proof -
  obtain k where "unat i = k * 4096" "k < 1048576" using assms(1) page_alignedE by blast
  then show "i < e" using assms(2) by (simp add: word_less_nat_alt)
  show "page_aligned (i + PAGESIZE)"
    using assms(1) by (simp add: page_aligned_unat unat_word_ariths mod_mod_cancel)
qed

lemma pmm_alloc_loop_diverges:
  assumes "page_aligned start" "0xFFFFF000 < e" "\<And>a. page_used p a"
  shows "pmm_alloc_loop start e p = None"
proof -
  have False if "pmm_alloc_loop start e p = Some r" for r
  proof (rule pmm_alloc_loop.raw_induct
      [where P = "\<lambda>i e p r. \<not> (page_aligned i \<and> 0xFFFFF000 < e \<and> (\<forall>a. page_used p a))",
        OF _ that, THEN notE])
    fix f :: "u32 \<Rightarrow> u32 \<Rightarrow> pmm \<Rightarrow> (kerror + u32 \<times> pmm) option" and i e p r
    assume IH: "\<And>i e p r. f i e p = Some r \<Longrightarrow>
        \<not> (page_aligned i \<and> 0xFFFFF000 < e \<and> (\<forall>a. page_used p a))"
      and eq: "(if i < e then if is_free i p = 0 then Some (Inr (i, use i p)) else f (i + PAGESIZE) e p
                else Some (Inr (0, p))) = Some r"
    show "\<not> (page_aligned i \<and> 0xFFFFF000 < e \<and> (\<forall>a. page_used p a))"
    proof
      assume all: "page_aligned i \<and> 0xFFFFF000 < e \<and> (\<forall>a. page_used p a)"
      then have "f (i + PAGESIZE) e p = Some r" using eq below_last_page(1) by (simp add: is_free_iff)
      then show False using IH all below_last_page(2) by blast
    qed
  qed (use assms in blast)
  then show ?thesis by (cases "pmm_alloc_loop start e p") auto
qed

text \<open>With a free page anywhere in memory the search ends: each turn is one page nearer to it.\<close>

definition pages_ahead :: "u32 \<Rightarrow> u32 \<Rightarrow> nat" where
  "pages_ahead b i = (if i \<le> b then unat b div 4096 - unat i div 4096
     else unat b div 4096 + 1048576 - unat i div 4096)"

lemma pages_ahead_step:
  assumes "page_aligned i" "page_aligned b" "i \<noteq> b"
  shows "pages_ahead b (i + PAGESIZE) < pages_ahead b i"
proof -
  obtain j k where j: "unat i = j * 4096" "j < 1048576" and k: "unat b = k * 4096" "k < 1048576"
    using assms(1,2) page_alignedE by metis
  have "j \<noteq> k" using assms(3) j k by (auto simp: word_unat_eq_iff)
  moreover have "unat (i + PAGESIZE) = (if j = 1048575 then 0 else (j + 1) * 4096)"
    using j by (simp add: unat_word_ariths)
  ultimately show ?thesis using j k by (auto simp: pages_ahead_def word_le_nat_alt)
qed

lemma pmm_alloc_loop_finds:
  assumes "page_aligned i" "0xFFFFF000 < e" "page_aligned b" "\<not> page_used p b"
  shows "\<exists>a p'. pmm_alloc_loop i e p = Some (Inr (a, p'))"
  using assms(1)
proof (induction "pages_ahead b i" arbitrary: i rule: less_induct)
  case less
  note i = below_last_page [OF less.prems assms(2)]
  show ?case
  proof (cases "is_free i p = 0")
    case False
    then have "i \<noteq> b" using assms(4) by (auto simp: is_free_iff)
    from less.hyps [OF pages_ahead_step [OF less.prems assms(3) this] i(2)] show ?thesis
      using False i(1) by (simp add: pmm_alloc_loop.simps [of i])
  qed (use i(1) in \<open>simp add: pmm_alloc_loop.simps [of i]\<close>)
qed

text \<open>
  C32: When \<open>pmm_alloc\<close> returns. It returns, with a page or \<open>NULL\<close>, for every end that is a multiple of the
  page size, as the comment at the function demands. Nothing checks the demand: for an end above the start of
  the last page, which is never such a multiple, the loop variable wraps from the last page to 0 and the search
  goes on through all memory; it returns if any page at all is free and never returns if none is.
\<close>

theorem pmm_alloc_wraps:
  assumes "page_aligned start" "start < e"
  shows "(if 0xFFFFF000 < e \<and> (\<forall>a. page_used p a) then pmm_alloc start e p = Inl Diverges
          else \<exists>a p'. pmm_alloc start e p = Inr (a, p'))
    \<and> (page_aligned e \<longrightarrow> (\<exists>a p'. pmm_alloc start e p = Inr (a, p')))"
proof -
  have low: "\<exists>a p'. pmm_alloc start e p = Inr (a, p')" if "e \<le> 0xFFFFF000"
    using that pmm_alloc_take_first [OF assms(2)] by (cases "take_first (pages_of start e) p") auto
  have "e \<le> 0xFFFFF000" if e: "page_aligned e"
    using below_last_page(1) [OF e, of "0xFFFFF001"] by (simp add: word_less_nat_alt word_le_nat_alt)
  moreover have "\<exists>a p'. pmm_alloc start e p = Inr (a, p')" if e: "0xFFFFF000 < e" and b: "\<not> page_used p b" for b
  proof -
    let ?c = "of_nat (unat b div 4096) * 0x1000 :: u32"
    have c: "unat ?c = unat b div 4096 * 4096"
      using u32_unat_less [of b] by (simp add: unat_word_ariths unat_of_nat)
    then have "page_aligned ?c" "same_page ?c b"
      by (simp_all add: page_aligned_unat same_page_def word_unat_eq_iff unat_div_distrib)
    then show ?thesis
      using pmm_alloc_loop_finds [OF assms(1) e, of ?c p] page_used_same b assms(2) by (fastforce simp: pmm_alloc_def)
  qed
  moreover have "pmm_alloc start e p = Inl Diverges" if "0xFFFFF000 < e" "\<forall>a. page_used p a"
    using pmm_alloc_loop_diverges [OF assms(1) that(1)] that(2) assms(2) by (simp add: pmm_alloc_def)
  ultimately show ?thesis using low by fastforce
qed

text \<open>With memory full, the same call with the aligned end just below returns \<open>NULL\<close>.\<close>

definition full_pmm :: pmm where
  "full_pmm = \<lparr>bitmap = \<lambda>_. - 1, total_memory = 128, free_memory = 0\<rparr>"

theorem pmm_alloc_wraps_witness:
  "pmm_alloc 0xFFFF0000 0xFFFFFFFF full_pmm = Inl Diverges
   \<and> (\<exists>a p'. pmm_alloc 0xFFFF0000 0xFFFFF000 full_pmm = Inr (a, p'))
   \<and> (\<exists>a p'. pmm_alloc 0xFFFF0000 0xFFFFFFFF (pmm_free 0 full_pmm) = Inr (a, p'))"
proof -
  have "page_used full_pmm a" for a
    using get_index_bounds(2) [of a] by (simp add: full_pmm_def page_used_bit word_less_nat_alt)
  then show ?thesis
    using pmm_alloc_wraps [of "0xFFFF0000" "0xFFFFFFFF" full_pmm] pmm_alloc_wraps [of "0xFFFF0000" "0xFFFFF000" full_pmm]
      pmm_alloc_wraps [of "0xFFFF0000" "0xFFFFFFFF" "pmm_free 0 full_pmm"] same_page_refl [of 0]
    by (simp, metis)
qed

lemma pmm_free_use:
  assumes "\<not> page_used p a"
  shows "pmm_free a (use a p) = p"
proof -
  obtain i n where in': "get_index a = (i, n)" by (cases "get_index a")
  then have "\<not> bit (bitmap p i) (unat n)" using assms by (simp add: page_used_bit)
  then have "(bitmap p i OR push_bit (unat n) 1) AND NOT (push_bit (unat n) 1) = bitmap p i"
    by (intro bit_word_eqI) (auto simp: bit_simps)
  with in' show ?thesis by (simp add: pmm_free_def use_def)
qed

text \<open>
  C23: Freeing a page that either allocation routine has just handed out restores the whole state of
  the memory manager, the bitmap and the counter of free bytes included.
\<close>

theorem page_roundtrip:
  assumes "layout_ok L" "a \<noteq> 0"
    and "pmm_alloc (PAGEPOOL_START L) (PAGEPOOL_END L) p = Inr (a, p')
         \<or> pmm_alloc_start (HEAP_END L) p = (a, p')"
  shows "pmm_free a p' = p"
proof -
  obtain as where "take_first as p = (a, p')"
    using assms(3) pool_alloc_take_first [OF assms(1), of p] pmm_alloc_start_take_first
    by (auto simp: pool_alloc_def)
  then show ?thesis using take_first_cases assms(2) pmm_free_use by metis
qed

theorem page_roundtrip_witness:
  "pmm_free 0x1750000 (snd (pmm_alloc_start 0x1750000 empty_pmm)) = empty_pmm"
proof -
  have "pmm_alloc_start (HEAP_END example_layout) empty_pmm = (0x1750000, use 0x1750000 empty_pmm)"
    by (simp add: pmm_alloc_start_def pmm_alloc_start_loop.simps is_free_def empty_pmm_def Let_def
        split_beta)
  from page_roundtrip [OF example_layout_ok _ disjI2 [OF this]] this show ?thesis by simp
qed

definition used_pages :: "pmm \<Rightarrow> u32 set" where
  "used_pages p = {a. page_aligned a \<and> page_used p a}"

definition accounted :: "pmm \<Rightarrow> u32" where
  "accounted p = free_memory p + 0x1000 * of_nat (card (used_pages p))"

lemma same_page_aligned: "page_aligned a \<Longrightarrow> page_aligned b \<Longrightarrow> same_page a b \<longleftrightarrow> a = b"
  by (elim page_alignedE) (auto simp: same_page_def word_unat_eq_iff unat_div_distrib)

lemma accounted_use: "page_aligned a \<Longrightarrow> \<not> page_used p a \<Longrightarrow> accounted (use a p) = accounted p"
proof -
  assume a: "page_aligned a" "\<not> page_used p a"
  then have "used_pages (use a p) = insert a (used_pages p)" "a \<notin> used_pages p"
    by (auto simp: used_pages_def same_page_aligned)
  then show ?thesis
    by (simp add: accounted_def use_def split_beta Let_def algebra_simps)
qed

lemma accounted_take_first:
  assumes "take_first as p = (a, p')" "\<And>a. a \<in> set as \<Longrightarrow> page_aligned a"
  shows "accounted p' = accounted p"
  using take_first_cases [OF assms(1)] assms(2) accounted_use by metis

lemma free_memory_pmm_free: "free_memory (pmm_free a p) = free_memory p + 0x1000"
  by (simp add: pmm_free_def split_beta Let_def)

lemma accounted_free_used:
  assumes "page_aligned a" "page_used p a"
  shows "accounted (pmm_free a p) = accounted p"
proof -
  have "used_pages p = insert a (used_pages (pmm_free a p))" "a \<notin> used_pages (pmm_free a p)"
    using assms by (auto simp: used_pages_def same_page_aligned)
  then show ?thesis by (simp add: accounted_def free_memory_pmm_free algebra_simps)
qed

lemma accounted_free_unused:
  assumes "\<not> page_used p a"
  shows "used_pages (pmm_free a p) = used_pages p"
    and "accounted (pmm_free a p) = accounted p + 0x1000"
proof -
  show pages: "used_pages (pmm_free a p) = used_pages p"
    using assms page_used_same by (auto simp: used_pages_def)
  show "accounted (pmm_free a p) = accounted p + 0x1000"
    by (simp add: accounted_def pages free_memory_pmm_free)
qed

text \<open>
  C22: The counter \<open>free_memory\<close> and the bitmap agree in the sense that their sum, free bytes plus
  4096 times the number of used pages, is kept by both allocation routines and by freeing a page in
  use. Freeing a page that is not in use leaves the bitmap's meaning alone but still adds a page to
  the counter.
\<close>

theorem memory_accounting:
  assumes "layout_ok L" "page_aligned b"
  shows "(pmm_alloc (PAGEPOOL_START L) (PAGEPOOL_END L) p = Inr (a, p')
           \<or> pmm_alloc_start (HEAP_END L) p = (a, p') \<longrightarrow> accounted p' = accounted p)
       \<and> (if page_used p b then accounted (pmm_free b p) = accounted p
          else used_pages (pmm_free b p) = used_pages p
             \<and> accounted (pmm_free b p) = accounted p + 0x1000)"
proof -
  have "accounted p' = accounted p"
    if "pmm_alloc (PAGEPOOL_START L) (PAGEPOOL_END L) p = Inr (a, p')
      \<or> pmm_alloc_start (HEAP_END L) p = (a, p')"
  proof -
    have "take_first (pages_of (PAGEPOOL_START L) (PAGEPOOL_END L)) p = (a, p')
        \<or> take_first (pages_above (HEAP_END L div 4096)) p = (a, p')"
      using that pool_alloc_take_first [OF assms(1), of p] pmm_alloc_start_take_first
      by (auto simp: pool_alloc_def)
    then show ?thesis
      using accounted_take_first set_pool [OF assms(1)] set_above_heap [OF assms(1)]
      by (metis in_pool_def above_heap_def)
  qed
  then show ?thesis using accounted_free_used accounted_free_unused assms(2) by simp
qed

theorem memory_accounting_witness:
  "accounted (snd (pmm_alloc_start 0x1750000 empty_pmm)) = accounted empty_pmm"
  using memory_accounting [OF example_layout_ok, of 0 empty_pmm
      "fst (pmm_alloc_start 0x1750000 empty_pmm)" "snd (pmm_alloc_start 0x1750000 empty_pmm)"]
  by simp

end
