(* ===== verification/Phys_Mem.thy ===== *)
theory Phys_Mem
  imports Prelude
begin

text \<open>
  Physical memory as the kernel's C code sees it: bytes, read and written as little-endian 32-bit
  words, with the string functions the kernel uses on it. The lemmas about words in different places are
  stated for aligned words, and for tables of 1024 words that fill a page.
\<close>

type_synonym memory = "u32 \<Rightarrow> u8"

definition load32 :: "memory \<Rightarrow> u32 \<Rightarrow> u32" where
  "load32 m a = ucast (m a) OR push_bit 8 (ucast (m (a + 1)))
     OR push_bit 16 (ucast (m (a + 2))) OR push_bit 24 (ucast (m (a + 3)))"

definition store32 :: "memory \<Rightarrow> u32 \<Rightarrow> u32 \<Rightarrow> memory" where
  "store32 m a v = m(a := ucast v, a + 1 := ucast (drop_bit 8 v),
     a + 2 := ucast (drop_bit 16 v), a + 3 := ucast (drop_bit 24 v))"

definition aligned4 :: "u32 \<Rightarrow> bool" where
  "aligned4 a \<longleftrightarrow> unat a mod 4 = 0"

lemma load32_store32_same [simp]: "load32 (store32 m a v) a = v"
proof -
  have "bit (load32 (store32 m a v) a) n = bit v n" if "n < 32" for n
  proof -
    define k where "k = n mod 8"
    have k: "k < 8" "n = n div 8 * 8 + k" by (simp_all add: k_def)
    have "n div 8 = 0 \<or> n div 8 = 1 \<or> n div 8 = 2 \<or> n div 8 = 3" using that by auto
    with k have "n = k \<or> n = 8 + k \<or> n = 16 + k \<or> n = 24 + k" by auto
    with \<open>k < 8\<close> show ?thesis by (elim disjE) (simp_all add: load32_def store32_def bit_simps)
  qed
  then show ?thesis by (intro bit_word_eqI) simp
qed

lemma aligned4_offset:
  assumes "aligned4 a" "i < 4"
  shows "unat (a + of_nat i) = unat a + i"
proof -
  have "unat a + i < 4294967296"
    using assms u32_unat_less [of a] unfolding aligned4_def by presburger
  moreover have "unat (of_nat i :: u32) = i" using assms(2) by (simp add: unat_of_nat)
  ultimately show ?thesis by (simp add: unat_word_ariths)
qed

lemma aligned4_bytes_differ:
  assumes "aligned4 a" "aligned4 b" "a \<noteq> b" "i < 4" "j < 4"
  shows "a + of_nat i \<noteq> b + of_nat j"
proof
  assume "a + of_nat i = b + of_nat j"
  then have "unat a + i = unat b + j" using aligned4_offset assms by metis
  moreover have "unat a mod 4 = 0" "unat b mod 4 = 0" using assms by (simp_all add: aligned4_def)
  ultimately have "unat a = unat b" using assms(4,5) by presburger
  then show False using assms(3) by (simp add: word_unat_eq_iff)
qed

lemma load32_cong:
  assumes "\<And>i. i < 4 \<Longrightarrow> m (a + of_nat i) = m' (a + of_nat i)"
  shows "load32 m a = load32 m' a"
  using assms [of 0] assms [of 1] assms [of 2] assms [of 3] by (simp add: load32_def)

lemma store32_outside:
  assumes "\<And>i. i < 4 \<Longrightarrow> b \<noteq> a + of_nat i"
  shows "store32 m a v b = m b"
  using assms [of 0] assms [of 1] assms [of 2] assms [of 3] by (simp add: store32_def)

lemma load32_store32_other:
  assumes "aligned4 a" "aligned4 b" "a \<noteq> b"
  shows "load32 (store32 m a v) b = load32 m b"
  by (intro load32_cong store32_outside) (use aligned4_bytes_differ assms in metis)

section \<open>Tables that fill a page\<close>

text \<open>The address of entry \<open>i\<close> of the table at \<open>t\<close>: \<open>t[i]\<close> for an array of 32-bit words.\<close>

definition entry :: "u32 \<Rightarrow> nat \<Rightarrow> u32" where
  "entry t i = t + 4 * of_nat i"

lemma unat_entry:
  assumes "page_aligned t" "i < 1024"
  shows "unat (entry t i) = unat t + 4 * i"
proof -
  obtain k where k: "unat t = k * 4096" "k < 1048576" using assms(1) by (rule page_alignedE)
  have "unat (of_nat i :: u32) = i" using assms(2) by (simp add: unat_of_nat)
  then show ?thesis using k assms(2) by (simp add: entry_def unat_word_ariths)
qed

lemma entry_aligned4:
  assumes "page_aligned t" "i < 1024"
  shows "aligned4 (entry t i)"
proof -
  obtain k where "unat t = k * 4096" using assms(1) by (rule page_alignedE)
  then show ?thesis using unat_entry [OF assms] by (simp add: aligned4_def)
qed

lemma entry_page:
  assumes "page_aligned t" "i < 1024"
  shows "unat (entry t i) div 4096 = unat t div 4096"
proof -
  obtain k where "unat t = k * 4096" using assms(1) by (rule page_alignedE)
  then show ?thesis using unat_entry [OF assms] assms(2) by simp
qed

lemma page_aligned_eqI:
  assumes "page_aligned s" "page_aligned t" "unat s div 4096 = unat t div 4096"
  shows "s = t"
  using assms by (elim page_alignedE) (auto simp: word_unat_eq_iff)

lemma entry_eq_iff:
  assumes "page_aligned s" "page_aligned t" "i < 1024" "j < 1024"
  shows "entry s i = entry t j \<longleftrightarrow> s = t \<and> i = j"
proof
  assume eq: "entry s i = entry t j"
  then have "s = t" using entry_page assms page_aligned_eqI by metis
  with eq show "s = t \<and> i = j" using unat_entry assms by (metis add_left_cancel mult_left_cancel zero_neq_numeral)
qed simp

lemma load_entry_store:
  assumes "page_aligned s" "page_aligned t" "i < 1024" "j < 1024"
  shows "load32 (store32 m (entry s i) v) (entry t j) =
    (if s = t \<and> i = j then v else load32 m (entry t j))"
  using assms entry_eq_iff entry_aligned4 load32_store32_other load32_store32_same by metis

text \<open>Bytes of other pages do not change.\<close>

lemma store_entry_outside:
  assumes "page_aligned t" "i < 1024" "unat b div 4096 \<noteq> unat t div 4096"
  shows "store32 m (entry t i) v b = m b"
proof (rule store32_outside)
  fix k :: nat assume "k < 4"
  then have "unat (entry t i + of_nat k) = unat t + 4 * i + k"
    using aligned4_offset entry_aligned4 unat_entry assms by simp
  moreover obtain q where "unat t = q * 4096" using assms(1) by (rule page_alignedE)
  ultimately have "unat (entry t i + of_nat k) div 4096 = unat t div 4096"
    using assms(2) \<open>k < 4\<close> by simp
  then show "b \<noteq> entry t i + of_nat k" using assms(3) by auto
qed

lemma load_page_cong:
  assumes "page_aligned t" "i < 1024"
    and "\<And>b. unat b div 4096 = unat t div 4096 \<Longrightarrow> m b = m' b"
  shows "load32 m (entry t i) = load32 m' (entry t i)"
proof (rule load32_cong)
  fix k :: nat assume "k < 4"
  then have "unat (entry t i + of_nat k) = unat t + 4 * i + k"
    using aligned4_offset entry_aligned4 unat_entry assms by simp
  moreover obtain q where "unat t = q * 4096" using assms(1) by (rule page_alignedE)
  ultimately have "unat (entry t i + of_nat k) div 4096 = unat t div 4096"
    using assms(2) \<open>k < 4\<close> by simp
  then show "m (entry t i + of_nat k) = m' (entry t i + of_nat k)" by (rule assms(3))
qed

text \<open>Writing the first \<open>n\<close> entries of a table, in order.\<close>

definition fill_table :: "u32 \<Rightarrow> (memory \<Rightarrow> nat \<Rightarrow> u32) \<Rightarrow> nat \<Rightarrow> memory \<Rightarrow> memory" where
  "fill_table t f n = fold (\<lambda>i m. store32 m (entry t i) (f m i)) [0..<n]"

lemma fill_table_Suc:
  "fill_table t f (Suc n) m = store32 (fill_table t f n m) (entry t n) (f (fill_table t f n m) n)"
  by (simp add: fill_table_def)

lemma fill_table_outside:
  assumes "page_aligned t" "n \<le> 1024" "unat b div 4096 \<noteq> unat t div 4096"
  shows "fill_table t f n m b = m b"
  using assms(2)
proof (induction n)
  case (Suc n)
  then show ?case using store_entry_outside [OF assms(1) _ assms(3)] by (simp add: fill_table_Suc)
qed (simp add: fill_table_def)

lemma fill_table_entry:
  assumes "page_aligned t" "n \<le> 1024" "i < n"
    and "\<And>k m'. k < 1024 \<Longrightarrow> (\<And>b. unat b div 4096 \<noteq> unat t div 4096 \<Longrightarrow> m' b = m b) \<Longrightarrow> f m' k = g k"
  shows "load32 (fill_table t f n m) (entry t i) = g i"
  using assms(2,3)
proof (induction n)
  case (Suc n)
  have "f (fill_table t f n m) n = g n"
    using fill_table_outside [OF assms(1)] Suc.prems by (intro assms(4)) auto
  then show ?case
    using Suc load_entry_store [OF assms(1,1)] by (auto simp: fill_table_Suc less_Suc_eq)
qed simp

end
