(* ===== verification/Vmm.thy ===== *)
theory Vmm
  imports Pmm Phys_Mem
begin

text \<open>
  The virtual memory manager, \<open>hal.x86/vmm.c\<close>: address space contexts (a page holding the pointer to a
  page directory), page directories and two-level page tables in physical memory. Its operations, the
  page walk of the x86 MMU as the specification of what a page directory means, the invariant of a
  context, and the effect of mapping and allocating on the walk.
\<close>

section \<open>State\<close>

text \<open>
  \<open>kernel_context\<close> and \<open>current_context\<close> are the two globals, \<open>cr0\<close> and \<open>cr3\<close> the control
  registers. The kernel reaches contexts and tables through the identity mapping of the page pool, so
  their addresses are physical. The flush of one TLB entry after a mapping is not modelled.
\<close>

record vmm =
  pm :: pmm
  mem :: memory
  kernel_context :: u32
  current_context :: u32
  cr0 :: u32
  cr3 :: u32

abbreviation (input) VMM_USED :: u32 where "VMM_USED \<equiv> 1"
abbreviation (input) VMM_WRITE :: u32 where "VMM_WRITE \<equiv> 2"
abbreviation (input) VMM_USERSPACE :: u32 where "VMM_USERSPACE \<equiv> 4"

text \<open>The two parts of a directory or table entry: its present bit and the address in its upper bits.\<close>

definition present :: "u32 \<Rightarrow> bool" where
  "present e \<longleftrightarrow> e AND 1 \<noteq> 0"

definition frame_of :: "u32 \<Rightarrow> u32" where
  "frame_of e = e AND NOT 0xFFF"

text \<open>\<open>context->pagedir\<close>: the only field of \<open>vmm_context_t\<close>, at offset 0.\<close>

definition pagedir :: "memory \<Rightarrow> u32 \<Rightarrow> u32" where
  "pagedir m ctx = load32 m ctx"

section \<open>Operations\<close>

definition activate_memory_context :: "u32 \<Rightarrow> vmm \<Rightarrow> kerror + vmm" where
  "activate_memory_context ctx v =
     bindE (derefE ctx) (\<lambda>_.
     Inr (v\<lparr>cr3 := pagedir (mem v) ctx, current_context := ctx\<rparr>))"

definition clear_pagedir :: "u32 \<Rightarrow> memory \<Rightarrow> memory" where
  "clear_pagedir ctx = fold (\<lambda>i m. store32 m (entry (pagedir m ctx) i) 0) [0..<1024]"

definition create_context :: "layout \<Rightarrow> vmm \<Rightarrow> kerror + u32 \<times> vmm" where
  "create_context L v =
     bindE (pmm_alloc (PAGEPOOL_START L) (PAGEPOOL_END L) (pm v)) (\<lambda>(ctx, p1).
     bindE (assertE (ctx \<noteq> 0) ''context != NULL'') (\<lambda>_.
     bindE (pmm_alloc (PAGEPOOL_START L) (PAGEPOOL_END L) p1) (\<lambda>(pd, p2).
     let m1 = store32 (mem v) ctx pd in
     bindE (assertE (pagedir m1 ctx \<noteq> 0) ''context->pagedir != NULL'') (\<lambda>_.
     Inr (ctx, v\<lparr>pm := p2, mem := clear_pagedir ctx m1\<rparr>)))))"

text \<open>
  One iteration of \<open>destroy_context\<close>. The directory entry is used as the address of the page table
  without masking its flag bits, as the code has it.
\<close>

definition free_table_entry :: "layout \<Rightarrow> memory \<Rightarrow> u32 \<Rightarrow> nat \<Rightarrow> pmm \<Rightarrow> pmm" where
  "free_table_entry L m pagetable j p =
     (let pte = load32 m (entry pagetable j)
      in if pte \<noteq> 0 \<and> HEAP_END L < pte then pmm_free (frame_of pte) p else p)"

definition free_directory_entry :: "layout \<Rightarrow> memory \<Rightarrow> u32 \<Rightarrow> u32 \<Rightarrow> nat \<Rightarrow> pmm \<Rightarrow> kerror + pmm" where
  "free_directory_entry L m ctx kctx i p =
     (let pde = load32 m (entry (pagedir m ctx) i)
      in if pde = 0 then Inr p
         else
           bindE (derefE kctx) (\<lambda>_.
           if pde \<noteq> load32 m (entry (pagedir m kctx) i)
           then Inr (pmm_free (pde AND 0xFFFFFF00) (fold (free_table_entry L m pde) [0..<1024] p))
           else Inr p))"

definition destroy_context :: "layout \<Rightarrow> u32 \<Rightarrow> vmm \<Rightarrow> kerror + vmm" where
  "destroy_context L ctx v =
     bindE (assertE (ctx \<noteq> 0) ''context != NULL'') (\<lambda>_.
     bindE (assertE (ctx \<noteq> kernel_context v) ''context != kernel_context'') (\<lambda>_.
     bindE (foldE (free_directory_entry L (mem v) ctx (kernel_context v)) [0..<1024] (pm v)) (\<lambda>p1.
     let p2 = pmm_free (pagedir (mem v) ctx) p1;
         p3 = pmm_free ctx p2
     in Inr (v\<lparr>pm := p3\<rparr>))))"

definition copy_pagedir :: "u32 \<Rightarrow> u32 \<Rightarrow> memory \<Rightarrow> memory" where
  "copy_pagedir ctx kctx =
     fold (\<lambda>i m. store32 m (entry (pagedir m ctx) i) (load32 m (entry (pagedir m kctx) i))) [0..<1024]"

text \<open>The argument \<open>kernel_write\<close> is only used in code that is commented out.\<close>

definition CreateUsermodeContext :: "layout \<Rightarrow> u32 \<Rightarrow> vmm \<Rightarrow> kerror + u32 \<times> vmm" where
  "CreateUsermodeContext L kernel_write v =
     bindE (create_context L v) (\<lambda>(ctx, v1).
     bindE (derefE (kernel_context v1)) (\<lambda>_.
     Inr (ctx, v1\<lparr>mem := copy_pagedir ctx (kernel_context v1) (mem v1)\<rparr>)))"

definition page_flags :: "u32 \<Rightarrow> u32" where
  "page_flags userspace =
     (if userspace \<noteq> 0 then VMM_USED OR VMM_WRITE OR VMM_USERSPACE else VMM_USED OR VMM_WRITE)"

text \<open>The page table of \<open>map_page\<close>: looked up in the directory, or allocated, cleared and entered.\<close>

definition get_page_table :: "layout \<Rightarrow> u32 \<Rightarrow> nat \<Rightarrow> u32 \<Rightarrow> vmm \<Rightarrow> kerror + u32 \<times> vmm" where
  "get_page_table L ctx pdIndex flags v =
     (let pde = load32 (mem v) (entry (pagedir (mem v) ctx) pdIndex) in
      if present pde then Inr (frame_of pde, v)
      else
        bindE (pmm_alloc (PAGEPOOL_START L) (PAGEPOOL_END L) (pm v)) (\<lambda>(pageTable, p').
        bindE (assertE (pageTable \<noteq> 0) ''pageTable != NULL'') (\<lambda>_.
        let m1 = fill_table pageTable (\<lambda>_ _. 0) 1024 (mem v);
            m2 = store32 m1 (entry (pagedir m1 ctx) pdIndex) (pageTable OR flags)
        in Inr (pageTable, v\<lparr>pm := p', mem := m2\<rparr>))))"

definition map_page :: "layout \<Rightarrow> u32 \<Rightarrow> u32 \<Rightarrow> u32 \<Rightarrow> u32 \<Rightarrow> vmm \<Rightarrow> kerror + vmm" where
  "map_page L ctx virt phys userspace v =
     (let pageIndex = virt div 0x1000;
          pdIndex = unat (pageIndex div 1024);
          ptIndex = unat (pageIndex mod 1024);
          flags = page_flags userspace in
      bindE (assertE (\<not> (virt AND 0xFFF \<noteq> 0 \<or> phys AND 0xFFF \<noteq> 0))
        ''!((virt & 0xFFF) || (phys & 0xFFF))'') (\<lambda>_.
      bindE (derefE ctx) (\<lambda>_.
      bindE (get_page_table L ctx pdIndex flags v) (\<lambda>(pageTable, v1).
      Inr (v1\<lparr>mem := store32 (mem v1) (entry pageTable ptIndex) (phys OR flags)\<rparr>)))))"

text \<open>
  \<open>map_range\<close>: the comparison is \<open>i <= start_virt + size\<close>. The loop variable is an \<open>int\<close>, compared and
  advanced as the unsigned 32-bit value it converts to.
\<close>

partial_function (option) map_range_loop ::
  "layout \<Rightarrow> u32 \<Rightarrow> u32 \<Rightarrow> u32 \<Rightarrow> u32 \<Rightarrow> u32 \<Rightarrow> vmm \<Rightarrow> (kerror + vmm) option" where
  "map_range_loop L ctx i limit phys userspace v =
     (if i \<le> limit
      then (case map_page L ctx i phys userspace v of
              Inl e \<Rightarrow> Some (Inl e)
            | Inr v' \<Rightarrow> map_range_loop L ctx (i + PAGESIZE) limit (phys + PAGESIZE) userspace v')
      else Some (Inr v))"

definition map_range :: "layout \<Rightarrow> u32 \<Rightarrow> u32 \<Rightarrow> u32 \<Rightarrow> u32 \<Rightarrow> u32 \<Rightarrow> vmm \<Rightarrow> kerror + vmm" where
  "map_range L ctx start_virt start_phys sz userspace v =
     returned (map_range_loop L ctx start_virt (start_virt + sz) start_phys userspace v)"

definition vmm_alloc_page :: "layout \<Rightarrow> u32 \<Rightarrow> u32 \<Rightarrow> vmm \<Rightarrow> kerror + vmm" where
  "vmm_alloc_page L ctx i v =
     (let (phys_page, p') = pmm_alloc_start (HEAP_END L) (pm v) in
      bindE (assertE (phys_page \<noteq> 0) ''phys_page != 0'') (\<lambda>_.
      map_page L ctx i phys_page 1 (v\<lparr>pm := p'\<rparr>)))"

definition vmm_alloc :: "layout \<Rightarrow> u32 \<Rightarrow> u32 \<Rightarrow> u32 \<Rightarrow> vmm \<Rightarrow> kerror + vmm" where
  "vmm_alloc L ctx vaddr sz = for_pages (vmm_alloc_page L ctx) vaddr (vaddr + sz)"

definition InitVmm :: "layout \<Rightarrow> vmm \<Rightarrow> kerror + vmm" where
  "InitVmm L v =
     bindE (create_context L v) (\<lambda>(ctx, v1).
     let v2 = v1\<lparr>kernel_context := ctx\<rparr> in
     bindE (map_range L ctx (kernel_start L) (kernel_start L) (kernel_end L - kernel_start L) 1 v2) (\<lambda>v3.
     bindE (map_range L ctx (PAGEPOOL_START L) (PAGEPOOL_START L)
              (PAGEPOOL_END L - PAGEPOOL_START L) 1 v3) (\<lambda>v4.
     bindE (map_range L ctx (HEAP_START L) (HEAP_START L) HEAP_SIZE 1 v4) (\<lambda>v5.
     bindE (activate_memory_context ctx v5) (\<lambda>v6.
     Inr (v6\<lparr>cr0 := cr0 v6 OR push_bit 31 1\<rparr>))))))"

section \<open>What a page directory means\<close>

text \<open>
  The page walk of the processor: the page table entry that translates a virtual address, if both
  levels are present. Its upper 20 bits are the frame, its low bits the flags.
\<close>

definition pd_index :: "u32 \<Rightarrow> nat" where
  "pd_index a = unat (a div 0x1000 div 1024)"

definition pt_index :: "u32 \<Rightarrow> nat" where
  "pt_index a = unat (a div 0x1000 mod 1024)"

definition mmu_walk :: "memory \<Rightarrow> u32 \<Rightarrow> u32 \<Rightarrow> u32 option" where
  "mmu_walk m pd a =
     (let pde = load32 m (entry pd (pd_index a)) in
      if \<not> present pde then None
      else
        let pte = load32 m (entry (frame_of pde) (pt_index a))
        in if \<not> present pte then None else Some pte)"

definition walk_context :: "vmm \<Rightarrow> u32 \<Rightarrow> u32 \<Rightarrow> u32 option" where
  "walk_context v ctx a = mmu_walk (mem v) (pagedir (mem v) ctx) a"

text \<open>
  A well-formed context: its own page, its directory and its tables are distinct page-aligned pages
  that the physical memory manager has marked used.
\<close>

definition table_at :: "memory \<Rightarrow> u32 \<Rightarrow> nat \<Rightarrow> u32 option" where
  "table_at m pd i =
     (let pde = load32 m (entry pd i) in if \<not> present pde then None else Some (frame_of pde))"

definition context_ok :: "vmm \<Rightarrow> u32 \<Rightarrow> bool" where
  "context_ok v ctx \<longleftrightarrow>
     (let pd = pagedir (mem v) ctx in
      page_aligned ctx \<and> ctx \<noteq> 0 \<and> page_aligned pd \<and> ctx \<noteq> pd
    \<and> page_used (pm v) ctx \<and> page_used (pm v) pd
    \<and> (\<forall>i < 1024. \<forall>t. table_at (mem v) pd i = Some t \<longrightarrow>
         t \<noteq> ctx \<and> t \<noteq> pd \<and> page_used (pm v) t)
    \<and> (\<forall>i < 1024. \<forall>j < 1024. \<forall>t. table_at (mem v) pd i = Some t \<longrightarrow> table_at (mem v) pd j = Some t \<longrightarrow> i = j))"

lemma index_bounds: "pd_index a < 1024" "pt_index a < 1024"
  using u32_unat_less [of a]
  by (auto simp: pd_index_def pt_index_def unat_div_distrib unat_mod_distrib less_mult_imp_div_less
      simp flip: div_mult2_eq)

lemma same_page_index: "same_page a b \<longleftrightarrow> pd_index a = pd_index b \<and> pt_index a = pt_index b"
proof -
  have "x div 1024 = y div 1024 \<and> x mod 1024 = y mod 1024 \<longleftrightarrow> x = y" for x y :: u32
    by (metis div_mult_mod_eq)
  then show ?thesis by (simp add: same_page_def pd_index_def pt_index_def word_unat_eq_iff [symmetric])
qed

lemma mask12: "(0xFFF :: u32) = mask 12"
  by (simp add: mask_eq_exp_minus_1)

lemma page_aligned_bits: "page_aligned t \<longleftrightarrow> (\<forall>n < 12. \<not> bit t n)"
proof -
  have "page_aligned t \<longleftrightarrow> take_bit 12 t = 0" by (simp add: page_aligned_def take_bit_eq_mod)
  also have "\<dots> \<longleftrightarrow> (\<forall>n < 12. \<not> bit t n)"
    by (auto simp: bit_eq_iff bit_take_bit_iff)
  finally show ?thesis .
qed

lemma page_aligned_and: "a AND 0xFFF \<noteq> 0 \<longleftrightarrow> \<not> page_aligned a"
  unfolding mask12 by (simp add: page_aligned_def take_bit_eq_mod flip: take_bit_eq_mask)

lemma frame_of_aligned [simp]: "page_aligned (frame_of e)"
  unfolding frame_of_def mask12 page_aligned_bits by (simp add: bit_simps)

lemma page_flags_mask: "page_flags u = mask 3 \<or> page_flags u = mask 2"
  by (simp add: page_flags_def mask_eq_exp_minus_1)

lemma frame_of_entry [simp]: "page_aligned t \<Longrightarrow> frame_of (t OR page_flags u) = t"
  unfolding frame_of_def mask12
  by (rule bit_word_eqI)
    (use page_flags_mask [of u] in \<open>auto simp: bit_simps page_aligned_bits\<close>)

lemma present_entry [simp]: "present (t OR page_flags u)"
proof -
  have "bit (t OR page_flags u) 0"
    using page_flags_mask [of u] by (auto simp: bit_simps simp del: bit_0)
  then show ?thesis by (simp add: present_def and_exp_eq_0_iff_not_bit [of _ 0, simplified])
qed

lemma present_zero [simp]: "\<not> present 0"
  by (simp add: present_def)

text \<open>The walk splits into the directory and the table.\<close>

lemma mmu_walk_table:
  "mmu_walk m pd a =
    (case table_at m pd (pd_index a) of
       None \<Rightarrow> None
     | Some t \<Rightarrow> let pte = load32 m (entry t (pt_index a)) in if present pte then Some pte else None)"
  by (simp add: mmu_walk_def table_at_def Let_def)

lemma table_at_aligned: "table_at m pd i = Some t \<Longrightarrow> page_aligned t"
  by (auto simp: table_at_def Let_def split: if_splits)

section \<open>The effect of mapping a page\<close>

lemma pagedir_outside:
  assumes "page_aligned ctx" "\<And>b. unat b div 4096 = unat ctx div 4096 \<Longrightarrow> m' b = m b"
  shows "pagedir m' ctx = pagedir m ctx"
  using load_page_cong [of ctx 0 m' m] assms by (simp add: pagedir_def entry_def)

lemma page_differs:
  "page_aligned s \<Longrightarrow> page_aligned t \<Longrightarrow> s \<noteq> t \<Longrightarrow> unat b div 4096 = unat s div 4096 \<Longrightarrow>
     unat b div 4096 \<noteq> unat t div 4096"
  using page_aligned_eqI by metis

text \<open>Writing an entry of a table of the context changes one translation and nothing else.\<close>

lemma context_okD:
  assumes "context_ok v ctx"
  shows "page_aligned ctx" "ctx \<noteq> 0" "page_aligned (pagedir (mem v) ctx)" "ctx \<noteq> pagedir (mem v) ctx"
    "page_used (pm v) ctx" "page_used (pm v) (pagedir (mem v) ctx)"
    "i < 1024 \<Longrightarrow> table_at (mem v) (pagedir (mem v) ctx) i = Some t \<Longrightarrow>
       t \<noteq> ctx \<and> t \<noteq> pagedir (mem v) ctx \<and> page_used (pm v) t"
    "i < 1024 \<Longrightarrow> j < 1024 \<Longrightarrow> table_at (mem v) (pagedir (mem v) ctx) i = Some t \<Longrightarrow>
       table_at (mem v) (pagedir (mem v) ctx) j = Some t \<Longrightarrow> i = j"
  using assms by (auto simp: context_ok_def Let_def)

lemma store_pte:
  assumes ok: "context_ok v ctx" and t: "table_at (mem v) (pagedir (mem v) ctx) (pd_index virt) = Some t"
    and pte: "present pte"
  defines "v' \<equiv> v\<lparr>mem := store32 (mem v) (entry t (pt_index virt)) pte\<rparr>"
  shows "context_ok v' ctx" "pagedir (mem v') ctx = pagedir (mem v) ctx"
    "walk_context v' ctx a = (if same_page a virt then Some pte else walk_context v ctx a)"
    "unat b div 4096 \<noteq> unat t div 4096 \<Longrightarrow> mem v' b = mem v b"
    "i < 1024 \<Longrightarrow> table_at (mem v') (pagedir (mem v) ctx) i = table_at (mem v) (pagedir (mem v) ctx) i"
proof -
  let ?pd = "pagedir (mem v) ctx"
  note pages = context_okD [OF ok] and tab = table_at_aligned [OF t]
  have t_page: "t \<noteq> ctx" "t \<noteq> ?pd" using pages(7) [OF index_bounds(1) t] by auto
  have out: "mem v' b = mem v b" if "unat b div 4096 \<noteq> unat t div 4096" for b
    unfolding v'_def using store_entry_outside [OF tab index_bounds(2) that] by simp
  then show "unat b div 4096 \<noteq> unat t div 4096 \<Longrightarrow> mem v' b = mem v b" .
  show pd: "pagedir (mem v') ctx = ?pd"
    using pagedir_outside out page_differs pages(1) tab t_page(1) by metis
  have dir: "table_at (mem v') ?pd i = table_at (mem v) ?pd i" if "i < 1024" for i
    using load_entry_store [OF tab pages(3) index_bounds(2) that] t_page
    by (simp add: v'_def table_at_def)
  then show "i < 1024 \<Longrightarrow> table_at (mem v') ?pd i = table_at (mem v) ?pd i" .
  show "context_ok v' ctx"
    unfolding context_ok_def pd Let_def using pages by (auto simp: dir) (simp_all add: v'_def)
  have "load32 (mem v') (entry s (pt_index a)) =
      (if s = t \<and> pt_index a = pt_index virt then pte else load32 (mem v) (entry s (pt_index a)))"
    if "page_aligned s" for s
    using load_entry_store [OF tab that index_bounds(2,2)] by (auto simp: v'_def)
  then show "walk_context v' ctx a = (if same_page a virt then Some pte else walk_context v ctx a)"
    using pte t pages(8) [OF index_bounds(1,1)] dir [OF index_bounds(1), of a] table_at_aligned
    unfolding walk_context_def pd mmu_walk_table same_page_index
    by (auto split: option.split)
qed

lemma not_same_page: "page_aligned s \<Longrightarrow> page_aligned t \<Longrightarrow> s \<noteq> t \<Longrightarrow> unat s div 4096 \<noteq> unat t div 4096"
  using page_aligned_eqI by metis

lemma same_page_unat: "same_page a b \<longleftrightarrow> unat a div 4096 = unat b div 4096"
  by (simp add: same_page_def word_unat_eq_iff unat_div_distrib)

text \<open>Entering a cleared page that was not in use as a new table.\<close>

definition add_table :: "u32 \<Rightarrow> nat \<Rightarrow> u32 \<Rightarrow> u32 \<Rightarrow> memory \<Rightarrow> memory" where
  "add_table ctx i t flags m =
     (let m1 = fill_table t (\<lambda>_ _. 0) 1024 m in store32 m1 (entry (pagedir m1 ctx) i) (t OR flags))"

lemma add_table:
  fixes v :: vmm and us :: u32
  assumes ok: "context_ok v ctx" and i: "i < 1024" and none: "table_at (mem v) (pagedir (mem v) ctx) i = None"
    and t: "page_aligned t" "\<not> page_used (pm v) t"
    and used: "\<And>b. page_used p' b \<longleftrightarrow> same_page t b \<or> page_used (pm v) b"
  defines "v' \<equiv> v\<lparr>pm := p', mem := add_table ctx i t (page_flags us) (mem v)\<rparr>"
  shows "context_ok v' ctx" "pagedir (mem v') ctx = pagedir (mem v) ctx"
    "table_at (mem v') (pagedir (mem v) ctx) i = Some t"
    "walk_context v' ctx a = walk_context v ctx a"
    "page_used (pm v) b \<Longrightarrow> \<not> same_page b (pagedir (mem v) ctx) \<Longrightarrow> mem v' b = mem v b"
    "j < 1024 \<Longrightarrow> table_at (mem v') (pagedir (mem v) ctx) j =
       (if j = i then Some t else table_at (mem v) (pagedir (mem v) ctx) j)"
proof -
  let ?m = "mem v" and ?pd = "pagedir (mem v) ctx"
  let ?m1 = "fill_table t (\<lambda>_ _. 0) 1024 ?m"
  note pages = context_okD [OF ok]
  have other: "ctx \<noteq> t" "?pd \<noteq> t" "\<And>j s. j < 1024 \<Longrightarrow> table_at ?m ?pd j = Some s \<Longrightarrow> s \<noteq> t"
    using pages(5,6,7) t(2) by auto
  have out1: "?m1 b = ?m b" if "unat b div 4096 \<noteq> unat t div 4096" for b
    using fill_table_outside [OF t(1) _ that] by simp
  have pd1: "pagedir ?m1 ctx = ?pd"
    by (rule pagedir_outside [OF pages(1)], rule out1, rule page_differs [OF pages(1) t(1) other(1)])
  have m': "mem v' = store32 ?m1 (entry ?pd i) (t OR page_flags us)"
    by (simp add: v'_def add_table_def pd1)
  have same1: "load32 ?m1 (entry s k) = load32 ?m (entry s k)"
    if "page_aligned s" "s \<noteq> t" "k < 1024" for s k
    by (rule load_page_cong [OF that(1,3)], rule out1, rule page_differs [OF that(1) t(1) that(2)])
  have zero1: "load32 ?m1 (entry t k) = 0" if "k < 1024" for k
    using fill_table_entry [OF t(1) le_refl that, of ?m "\<lambda>_ _. 0" "\<lambda>_. 0"] by simp
  have same': "load32 (mem v') (entry s k) = load32 ?m1 (entry s k)"
    if "page_aligned s" "s \<noteq> ?pd" "k < 1024" for s k
    using load_entry_store [OF pages(3) that(1) i that(3)] that(2) by (auto simp: m')
  show out': "mem v' b = mem v b" if "page_used (pm v) b" "\<not> same_page b ?pd" for b
  proof -
    have "\<not> same_page b t" using that(1) t(2) page_used_same by blast
    then have "?m1 b = ?m b" using out1 by (simp add: same_page_unat)
    moreover have "mem v' b = ?m1 b"
      using store_entry_outside [OF pages(3) i, of b] that(2) by (simp add: m' same_page_unat)
    ultimately show ?thesis by simp
  qed
  have "load32 (mem v') (entry ctx 0) = load32 ?m (entry ctx 0)"
    using same' [OF pages(1) pages(4)] same1 [OF pages(1) other(1)] by simp
  then show pd: "pagedir (mem v') ctx = ?pd" by (simp add: pagedir_def entry_def)
  have dir: "table_at (mem v') ?pd j = (if j = i then Some t else table_at ?m ?pd j)" if "j < 1024" for j
    using load_entry_store [OF pages(3,3) i that] same1 [OF pages(3) other(2) that] t(1)
    by (simp add: m' table_at_def)
  then show "table_at (mem v') ?pd i = Some t" using i by simp
  show "j < 1024 \<Longrightarrow> table_at (mem v') ?pd j = (if j = i then Some t else table_at ?m ?pd j)" by (rule dir)
  have "page_used (pm v') b \<longleftrightarrow> same_page t b \<or> page_used (pm v) b" for b
    using used by (simp add: v'_def)
  then show "context_ok v' ctx"
    unfolding context_ok_def pd Let_def using pages other
    by (auto simp: dir split: if_splits dest: other(3))
  show "walk_context v' ctx a = walk_context v ctx a"
  proof (cases "pd_index a = i")
    case True
    have "load32 (mem v') (entry t (pt_index a)) = 0"
      using same' [OF t(1) _ index_bounds(2)] other(2) zero1 [OF index_bounds(2)] by simp
    with True dir [OF i] none show ?thesis
      unfolding walk_context_def pd mmu_walk_table by simp
  next
    case False
    have "load32 (mem v') (entry s (pt_index a)) = load32 ?m (entry s (pt_index a))"
      if "table_at ?m ?pd (pd_index a) = Some s" for s
      using same' [OF _ _ index_bounds(2)] same1 [OF _ _ index_bounds(2)] table_at_aligned [OF that]
        pages(7) [OF index_bounds(1) that] other(3) [OF index_bounds(1) that] by metis
    with False dir [OF index_bounds(1)] show ?thesis
      unfolding walk_context_def pd mmu_walk_table by (auto split: option.split)
  qed
qed

lemma get_page_table_ok:
  assumes L: "layout_ok L" and ok: "context_ok v ctx" and i: "i < 1024"
    and get: "get_page_table L ctx i (page_flags us) v = Inr (t, v')"
  shows "context_ok v' ctx" "pagedir (mem v') ctx = pagedir (mem v) ctx"
    "table_at (mem v') (pagedir (mem v) ctx) i = Some t"
    "walk_context v' ctx a = walk_context v ctx a"
    "page_used (pm v) b \<Longrightarrow> page_used (pm v') b"
    "page_used (pm v) b \<Longrightarrow> \<not> same_page b (pagedir (mem v) ctx) \<Longrightarrow> mem v' b = mem v b"
    "page_used (pm v') b \<Longrightarrow> \<not> page_used (pm v) b \<Longrightarrow> PAGEPOOL_START L \<le> t \<and> t < PAGEPOOL_END L \<and> same_page t b"
    "kernel_context v' = kernel_context v"
proof -
  have "context_ok v' ctx \<and> pagedir (mem v') ctx = pagedir (mem v) ctx
    \<and> table_at (mem v') (pagedir (mem v) ctx) i = Some t
    \<and> (\<forall>a. walk_context v' ctx a = walk_context v ctx a)
    \<and> (\<forall>b. page_used (pm v) b \<longrightarrow> page_used (pm v') b)
    \<and> (\<forall>b. page_used (pm v) b \<longrightarrow> \<not> same_page b (pagedir (mem v) ctx) \<longrightarrow> mem v' b = mem v b)
    \<and> (\<forall>b. page_used (pm v') b \<longrightarrow> \<not> page_used (pm v) b \<longrightarrow>
          PAGEPOOL_START L \<le> t \<and> t < PAGEPOOL_END L \<and> same_page t b)
    \<and> kernel_context v' = kernel_context v"
  proof (cases "present (load32 (mem v) (entry (pagedir (mem v) ctx) i))")
    case True
    then show ?thesis using get ok by (auto simp: get_page_table_def table_at_def Let_def)
  next
    case False
    then have none: "table_at (mem v) (pagedir (mem v) ctx) i = None"
      by (simp add: table_at_def)
    from False get obtain p' where alloc: "pool_alloc L (pm v) = Inr (t, p')" "t \<noteq> 0"
      and v': "v' = v\<lparr>pm := p', mem := add_table ctx i t (page_flags us) (mem v)\<rparr>"
      by (auto simp: get_page_table_def pool_alloc_def add_table_def Let_def kernel_simps)
    have t: "in_pool L t" "\<not> page_used (pm v) t"
      using pool.alloc_page [OF L alloc] by auto
    have used: "page_used p' b \<longleftrightarrow> same_page t b \<or> page_used (pm v) b" for b
      using pool.alloc_used [OF L alloc] .
    have "page_aligned t" using t(1) by (simp add: in_pool_def)
    note add = add_table [OF ok i none this t(2) used, where us = us, folded v']
    have "page_used (pm v') b \<longleftrightarrow> same_page t b \<or> page_used (pm v) b" for b
      using used by (simp add: v')
    moreover have "kernel_context v' = kernel_context v" by (simp add: v')
    ultimately show ?thesis using add t(1) by (simp add: in_pool_def)
  qed
  then show "context_ok v' ctx" "pagedir (mem v') ctx = pagedir (mem v) ctx"
    "table_at (mem v') (pagedir (mem v) ctx) i = Some t"
    "walk_context v' ctx a = walk_context v ctx a"
    "page_used (pm v) b \<Longrightarrow> page_used (pm v') b"
    "page_used (pm v) b \<Longrightarrow> \<not> same_page b (pagedir (mem v) ctx) \<Longrightarrow> mem v' b = mem v b"
    "page_used (pm v') b \<Longrightarrow> \<not> page_used (pm v) b \<Longrightarrow> PAGEPOOL_START L \<le> t \<and> t < PAGEPOOL_END L \<and> same_page t b"
    "kernel_context v' = kernel_context v"
    by blast+
qed


lemma get_page_table_fresh:
  assumes "layout_ok L" "get_page_table L ctx i flags v = Inr (t, v')"
  shows "table_at (mem v) (pagedir (mem v) ctx) i = Some t \<or> \<not> page_used (pm v) t"
  using assms(2) pool.alloc_page [OF assms(1), of "pm v" t]
  by (auto simp: get_page_table_def table_at_def Let_def kernel_simps pool_alloc_def split: if_splits)

section \<open>Mapping one page\<close>

lemma virt_index: "unat (a div 0x1000 div 1024) = pd_index a" "unat (a div 0x1000 mod 1024) = pt_index a"
  by (simp_all add: pd_index_def pt_index_def)

lemma map_page_unfold:
  "map_page L ctx virt phys us v =
     bindE (assertE (page_aligned virt \<and> page_aligned phys) ''!((virt & 0xFFF) || (phys & 0xFFF))'') (\<lambda>_.
     bindE (derefE ctx) (\<lambda>_.
     bindE (get_page_table L ctx (pd_index virt) (page_flags us) v) (\<lambda>(t, v1).
     Inr (v1\<lparr>mem := store32 (mem v1) (entry t (pt_index virt)) (phys OR page_flags us)\<rparr>))))"
  by (simp only: map_page_def Let_def virt_index page_aligned_and de_Morgan_disj not_not)

lemma map_page_effect:
  assumes L: "layout_ok L" and ok: "context_ok v ctx" and run: "map_page L ctx virt phys us v = Inr v'"
  shows "page_aligned virt \<and> page_aligned phys \<and> context_ok v' ctx
    \<and> pagedir (mem v') ctx = pagedir (mem v) ctx \<and> kernel_context v' = kernel_context v
    \<and> (\<forall>a. walk_context v' ctx a =
            (if same_page a virt then Some (phys OR page_flags us) else walk_context v ctx a))
    \<and> (\<forall>b. page_used (pm v) b \<longrightarrow> page_used (pm v') b)
    \<and> (\<forall>b. page_used (pm v) b \<and> \<not> same_page b (pagedir (mem v) ctx)
          \<and> (\<forall>t. table_at (mem v) (pagedir (mem v) ctx) (pd_index virt) = Some t \<longrightarrow> \<not> same_page b t)
          \<longrightarrow> mem v' b = mem v b)"
proof -
  from run obtain t v1 where al: "page_aligned virt" "page_aligned phys"
      and get: "get_page_table L ctx (pd_index virt) (page_flags us) v = Inr (t, v1)"
      and v': "v' = v1\<lparr>mem := store32 (mem v1) (entry t (pt_index virt)) (phys OR page_flags us)\<rparr>"
    by (auto simp: map_page_unfold kernel_simps)
  note g = get_page_table_ok [OF L ok index_bounds(1) get]
  have tab: "table_at (mem v1) (pagedir (mem v1) ctx) (pd_index virt) = Some t" using g(2,3) by simp
  note s = store_pte [OF g(1) tab present_entry [of phys us], folded v']
  have keep: "mem v' b = mem v b"
    if b: "page_used (pm v) b" "\<not> same_page b (pagedir (mem v) ctx)"
      and nt: "\<forall>t. table_at (mem v) (pagedir (mem v) ctx) (pd_index virt) = Some t \<longrightarrow> \<not> same_page b t" for b
  proof -
    have "\<not> same_page b t"
    proof
      assume bt: "same_page b t"
      then have "table_at (mem v) (pagedir (mem v) ctx) (pd_index virt) \<noteq> Some t" using nt by blast
      with bt b(1) get_page_table_fresh [OF L get] show False
        using page_used_same same_page_sym by blast
    qed
    then show ?thesis using s(4) g(6) [OF b] by (simp add: same_page_unat)
  qed
  have "page_used (pm v) b \<longrightarrow> page_used (pm v') b" for b using g(5) by (simp add: v')
  moreover have "kernel_context v' = kernel_context v" using g(8) by (simp add: v')
  moreover have "walk_context v' ctx a =
      (if same_page a virt then Some (phys OR page_flags us) else walk_context v ctx a)" for a
    using s(3) g(4) by simp
  ultimately show ?thesis using al s(1,2) g(2) keep by simp
qed

text \<open>
  C11: Mapping a page in a well-formed context, when it returns, makes every address of that virtual
  page translate to the physical page with the flags asked for, leaves the translation of every other
  address of the context as it was, keeps the context well formed, gives back no page, and writes to no
  page in use other than the page directory and the table of the virtual address.
\<close>

theorem map_page_translates:
  assumes L: "layout_ok L" and ok: "context_ok v ctx" and run: "map_page L ctx virt phys us v = Inr v'"
  shows "page_aligned virt \<and> page_aligned phys \<and> context_ok v' ctx
    \<and> pagedir (mem v') ctx = pagedir (mem v) ctx \<and> kernel_context v' = kernel_context v
    \<and> (\<forall>a. walk_context v' ctx a =
            (if same_page a virt then Some (phys OR page_flags us) else walk_context v ctx a))
    \<and> (\<forall>b. page_used (pm v) b \<longrightarrow> page_used (pm v') b)
    \<and> (\<forall>b. page_used (pm v) b \<and> \<not> same_page b (pagedir (mem v) ctx)
          \<and> (\<forall>t. table_at (mem v) (pagedir (mem v) ctx) (pd_index virt) = Some t \<longrightarrow> \<not> same_page b t)
          \<longrightarrow> mem v' b = mem v b)"
  by (rule map_page_effect [OF assms])

text \<open>A context with an empty page directory.\<close>

definition example_vmm :: vmm where
  "example_vmm =
     \<lparr>pm = use 0x160000 (use 0x161000 empty_pmm), mem = store32 (\<lambda>_. 0) 0x160000 0x161000,
      kernel_context = 0x160000, current_context = 0x160000, cr0 = 0, cr3 = 0x161000\<rparr>"

lemma page_used_empty [simp]: "\<not> page_used empty_pmm a"
  by (simp add: page_used_bit empty_pmm_def split_beta)

lemma example_pagedir: "pagedir (mem example_vmm) 0x160000 = 0x161000"
  by (simp add: pagedir_def example_vmm_def)

lemma example_tables: "i < 1024 \<Longrightarrow> table_at (mem example_vmm) 0x161000 i = None"
  using load_entry_store [of "0x160000" "0x161000" 0 i "\<lambda>_. 0" "0x161000"]
  by (simp add: table_at_def example_vmm_def entry_def load32_def)

lemma example_context_ok: "context_ok example_vmm 0x160000"
  unfolding context_ok_def example_pagedir Let_def
  by (simp add: example_tables) (simp add: example_vmm_def)

lemma example_unused: "\<not> same_page a 0x160000 \<Longrightarrow> \<not> same_page a 0x161000 \<Longrightarrow> \<not> page_used (pm example_vmm) a"
  by (simp add: example_vmm_def same_page_sym)

lemma get_page_table_outcome:
  assumes L: "layout_ok L"
  shows "get_page_table L ctx i flags v =
     (if table_at (mem v) (pagedir (mem v) ctx) i = None \<and> (\<forall>a. in_pool L a \<longrightarrow> page_used (pm v) a)
      then Inl (Assert_Failed ''pageTable != NULL'') else get_page_table L ctx i flags v)"
    "table_at (mem v) (pagedir (mem v) ctx) i \<noteq> None \<or> (\<exists>a. in_pool L a \<and> \<not> page_used (pm v) a) \<Longrightarrow>
       \<exists>t v'. get_page_table L ctx i flags v = Inr (t, v')"
proof -
  obtain a p' where alloc: "pool_alloc L (pm v) = Inr (a, p')" using pool.alloc_total [OF L] by blast
  then have zero: "a = 0 \<longleftrightarrow> (\<forall>b. in_pool L b \<longrightarrow> page_used (pm v) b)" using pool.alloc_fails_iff [OF L] by blast
  have run: "pmm_alloc (PAGEPOOL_START L) (PAGEPOOL_END L) (pm v) = Inr (a, p')"
    using alloc by (simp add: pool_alloc_def)
  show "get_page_table L ctx i flags v =
     (if table_at (mem v) (pagedir (mem v) ctx) i = None \<and> (\<forall>a. in_pool L a \<longrightarrow> page_used (pm v) a)
      then Inl (Assert_Failed ''pageTable != NULL'') else get_page_table L ctx i flags v)"
    using run zero by (simp add: get_page_table_def table_at_def Let_def)
  show "\<exists>t v'. get_page_table L ctx i flags v = Inr (t, v')"
    if "table_at (mem v) (pagedir (mem v) ctx) i \<noteq> None \<or> (\<exists>a. in_pool L a \<and> \<not> page_used (pm v) a)"
    using that run zero by (cases "a = 0") (auto simp: get_page_table_def table_at_def Let_def split: if_splits)
qed

lemma map_page_returns:
  assumes "layout_ok L" "page_aligned virt" "page_aligned phys" "ctx \<noteq> 0"
    and "table_at (mem v) (pagedir (mem v) ctx) (pd_index virt) \<noteq> None \<or> (\<exists>a. in_pool L a \<and> \<not> page_used (pm v) a)"
  shows "\<exists>v'. map_page L ctx virt phys us v = Inr v'"
  using get_page_table_outcome(2) [OF assms(1,5), of "page_flags us"] assms(2,3,4)
  by (auto simp: map_page_unfold)

text \<open>
  \<open>map_page\<close> on every branch: it stops in its assertion on a misaligned virtual or physical
  address, dereferences a \<open>NULL\<close> context, stops in its second assertion exactly when the page table is
  missing and the page pool is used up, and returns otherwise.
\<close>

theorem map_page_outcome:
  assumes L: "layout_ok L"
  shows "if \<not> (page_aligned virt \<and> page_aligned phys)
         then map_page L ctx virt phys us v = Inl (Assert_Failed ''!((virt & 0xFFF) || (phys & 0xFFF))'')
         else if ctx = 0 then map_page L ctx virt phys us v = Inl Null_Deref
         else if table_at (mem v) (pagedir (mem v) ctx) (pd_index virt) = None
                 \<and> (\<forall>a. in_pool L a \<longrightarrow> page_used (pm v) a)
         then map_page L ctx virt phys us v = Inl (Assert_Failed ''pageTable != NULL'')
         else \<exists>v'. map_page L ctx virt phys us v = Inr v'"
  using map_page_returns [OF L] get_page_table_outcome(1) [OF L, of ctx "pd_index virt" "page_flags us" v]
  by (auto simp: map_page_unfold)

theorem map_page_outcome_witness:
  "map_page example_layout 0 0x1000 0x2000 0 example_vmm = Inl Null_Deref
   \<and> (\<exists>s. map_page example_layout 0 0x1234 0x2000 0 example_vmm = Inl (Assert_Failed s))"
  using map_page_outcome [OF example_layout_ok, where ctx = 0 and virt = "0x1000" and phys = "0x2000" and us = 0 and v = example_vmm]
    map_page_outcome [OF example_layout_ok, where ctx = 0 and virt = "0x1234" and phys = "0x2000" and us = 0 and v = example_vmm]
  by simp

theorem map_page_translates_witness:
  "\<exists>v'. map_page example_layout 0x160000 0x80001000 0x2000000 1 example_vmm = Inr v'
     \<and> walk_context v' 0x160000 0x80001234 = Some 0x2000007"
proof -
  have "in_pool example_layout 0x150000 \<and> \<not> page_used (pm example_vmm) 0x150000"
    by (simp add: in_pool_def example_unused same_page_def)
  then obtain v' where run: "map_page example_layout 0x160000 0x80001000 0x2000000 1 example_vmm = Inr v'"
    using map_page_returns [OF example_layout_ok, of "0x80001000" "0x2000000" "0x160000"] by force
  from map_page_translates [OF example_layout_ok example_context_ok run] run show ?thesis
    by (simp add: same_page_def page_flags_def)
qed

end
