(* ===== verification/Address_Space.thy ===== *)
theory Address_Space
  imports Vmm
begin

text \<open>
  Address spaces as a whole, over \<open>hal.x86/vmm.c\<close>: a fresh context translates nothing, a user context
  shares the kernel's translations, \<open>vmm_alloc\<close> backs a range with fresh frames, \<open>map_range\<close> maps its
  range, mappings of one context leave another alone, and what \<open>destroy_context\<close> reads.
\<close>

section \<open>Allocating memory for a range\<close>

lemma vmm_alloc_page_step:
  assumes L: "layout_ok L" and ok: "context_ok v ctx" and run: "vmm_alloc_page L ctx i v = Inr v'"
  obtains f where "page_aligned i" "above_heap L f" "\<not> page_used (pm v) f" "page_used (pm v') f"
    "context_ok v' ctx" "\<And>b. page_used (pm v) b \<Longrightarrow> page_used (pm v') b"
    "\<And>a. walk_context v' ctx a = (if same_page a i then Some (f OR 7) else walk_context v ctx a)"
proof -
  obtain f p where alloc: "pmm_alloc_start (HEAP_END L) (pm v) = (f, p)" by (cases "pmm_alloc_start (HEAP_END L) (pm v)")
  with run have f: "f \<noteq> 0" and map: "map_page L ctx i f 1 (v\<lparr>pm := p\<rparr>) = Inr v'"
    by (auto simp: vmm_alloc_page_def kernel_simps)
  have fr: "frame_alloc L (pm v) = Inr (f, p)" using alloc by (simp add: frame_alloc_def)
  note new = frames.alloc_page [OF L fr f] and used = frames.alloc_used [OF L fr f]
  have ok1: "context_ok (v\<lparr>pm := p\<rparr>) ctx"
    using ok used by (auto simp: context_ok_def Let_def)
  have same: "walk_context (v\<lparr>pm := p\<rparr>) ctx a = walk_context v ctx a" for a
    by (simp add: walk_context_def)
  note m = map_page_effect [OF L ok1 map]
  show ?thesis
    by (rule that [of f]) (use m new used same in \<open>auto simp: page_flags_def\<close>)
qed

lemma vmm_alloc_fold:
  assumes L: "layout_ok L" and "context_ok v ctx" "foldE (vmm_alloc_page L ctx) ps v = Inr v'"
    and "distinct (map (\<lambda>a. a div 4096) ps)"
  shows "context_ok v' ctx \<and> (\<forall>b. page_used (pm v) b \<longrightarrow> page_used (pm v') b)
    \<and> (\<forall>a. (\<forall>i \<in> set ps. \<not> same_page a i) \<longrightarrow> walk_context v' ctx a = walk_context v ctx a)
    \<and> (\<exists>fs. length fs = length ps \<and> distinct fs
         \<and> (\<forall>f \<in> set fs. above_heap L f \<and> \<not> page_used (pm v) f \<and> page_used (pm v') f)
         \<and> (\<forall>k < length ps. \<forall>a. same_page a (ps ! k) \<longrightarrow> walk_context v' ctx a = Some (fs ! k OR 7)))"
  using assms(2-4)
proof (induction ps arbitrary: v)
  case (Cons i ps)
  then obtain v1 where step: "vmm_alloc_page L ctx i v = Inr v1"
      and rest: "foldE (vmm_alloc_page L ctx) ps v1 = Inr v'"
    by (auto simp: kernel_simps)
  from vmm_alloc_page_step [OF L Cons.prems(1) step] obtain f where
    f: "above_heap L f" "\<not> page_used (pm v) f" "page_used (pm v1) f" and ok1: "context_ok v1 ctx"
    and mono: "\<And>b. page_used (pm v) b \<Longrightarrow> page_used (pm v1) b"
    and walk: "\<And>a. walk_context v1 ctx a = (if same_page a i then Some (f OR 7) else walk_context v ctx a)"
    by metis
  have i: "\<not> same_page i j" if "j \<in> set ps" for j
    using Cons.prems(3) that by (force simp: same_page_def)
  from Cons.IH [OF ok1 rest] Cons.prems(3) have ok': "context_ok v' ctx"
    and mono': "\<And>b. page_used (pm v1) b \<Longrightarrow> page_used (pm v') b"
    and out: "\<And>a. \<forall>j \<in> set ps. \<not> same_page a j \<Longrightarrow> walk_context v' ctx a = walk_context v1 ctx a"
    and "\<exists>fs. length fs = length ps \<and> distinct fs
         \<and> (\<forall>f \<in> set fs. above_heap L f \<and> \<not> page_used (pm v1) f \<and> page_used (pm v') f)
         \<and> (\<forall>k < length ps. \<forall>a. same_page a (ps ! k) \<longrightarrow> walk_context v' ctx a = Some (fs ! k OR 7))"
    by simp_all
  then obtain fs where fs: "length fs = length ps" "distinct fs"
      "\<And>g. g \<in> set fs \<Longrightarrow> above_heap L g \<and> \<not> page_used (pm v1) g \<and> page_used (pm v') g"
      "\<And>k a. k < length ps \<Longrightarrow> same_page a (ps ! k) \<Longrightarrow> walk_context v' ctx a = Some (fs ! k OR 7)"
    by blast
  have at_i: "walk_context v' ctx a = Some (f OR 7)" if "same_page a i" for a
    using out [of a] i that walk [of a] same_page_sym same_page_trans by metis
  have "walk_context v' ctx a = Some ((f # fs) ! k OR 7)"
    if "k < length (i # ps)" "same_page a ((i # ps) ! k)" for k a
    using that at_i fs(4) by (cases k) auto
  moreover have "distinct (f # fs)" using fs(2,3) f(3) by auto
  moreover have "\<forall>g \<in> set (f # fs). above_heap L g \<and> \<not> page_used (pm v) g \<and> page_used (pm v') g"
    using f fs(3) mono mono' by auto
  moreover have "length (f # fs) = length (i # ps)" using fs(1) by simp
  moreover have "walk_context v' ctx a = walk_context v ctx a" if "\<forall>j \<in> set (i # ps). \<not> same_page a j" for a
    using that out [of a] walk [of a] by simp
  ultimately show ?case using ok' mono mono' by blast
qed (auto intro: exI [of _ "[]"])

lemma distinct_pages_of: "distinct (map (\<lambda>a. a div 4096) (pages_of i e))"
proof -
  have "(i + 0x1000 * of_nat j) div 4096 \<noteq> (i + 0x1000 * of_nat k) div 4096"
    if "j < page_count i e" "k < page_count i e" "j \<noteq> k" for j k
    using unat_pages_of(1) [OF that(1)] unat_pages_of(1) [OF that(2)] that(3)
    by (simp add: word_unat_eq_iff unat_div_distrib)
  then have "inj_on (\<lambda>k. (i + 0x1000 * of_nat k) div 4096) {..<page_count i e}"
    by (intro inj_onI) auto
  then show ?thesis by (simp add: pages_of_def distinct_map comp_def atLeast0LessThan)
qed

text \<open>
  C27: \<open>vmm_alloc\<close>, when it returns, has mapped every page of the range to a frame of its own: the
  frames lie above the kernel heap, were not in use before, are in use now, are pairwise different, and
  are mapped present, writable and for user space; translations outside the range are as before, the
  context stays well formed and no page was given back.
\<close>

theorem vmm_alloc_backs_range:
  assumes "layout_ok L" "context_ok v ctx" "vaddr + sz \<le> 0xFFFFF000" "vmm_alloc L ctx vaddr sz v = Inr v'"
  shows "\<exists>fs. length fs = length (pages_of vaddr (vaddr + sz)) \<and> distinct fs
    \<and> (\<forall>f \<in> set fs. above_heap L f \<and> \<not> page_used (pm v) f \<and> page_used (pm v') f)
    \<and> (\<forall>k < length fs. \<forall>a. same_page a (pages_of vaddr (vaddr + sz) ! k) \<longrightarrow>
          walk_context v' ctx a = Some (fs ! k OR 7))
    \<and> (\<forall>a. (\<forall>i \<in> set (pages_of vaddr (vaddr + sz)). \<not> same_page a i) \<longrightarrow>
          walk_context v' ctx a = walk_context v ctx a)
    \<and> context_ok v' ctx \<and> (\<forall>b. page_used (pm v) b \<longrightarrow> page_used (pm v') b)"
proof -
  have "foldE (vmm_alloc_page L ctx) (pages_of vaddr (vaddr + sz)) v = Inr v'"
    using assms(4) by (simp add: vmm_alloc_def for_pages_foldE [OF assms(3)])
  from vmm_alloc_fold [OF assms(1,2) this distinct_pages_of] show ?thesis by metis
qed

lemma example_pool_free: "in_pool example_layout 0x150000 \<and> \<not> page_used (pm example_vmm) 0x150000"
  by (simp add: in_pool_def example_unused same_page_def)

lemma vmm_alloc_page_returns:
  assumes L: "layout_ok L" and "page_aligned i" "ctx \<noteq> 0"
    and pool: "in_pool L a" "\<not> page_used (pm v) a" and frame: "above_heap L f" "\<not> page_used (pm v) f"
  shows "\<exists>v'. vmm_alloc_page L ctx i v = Inr v'"
proof -
  obtain g p where alloc: "frame_alloc L (pm v) = Inr (g, p)" using frames.alloc_total [OF L] by blast
  have g: "g \<noteq> 0" using frames.alloc_fails_iff [OF L alloc] frame by blast
  note new = frames.alloc_page [OF L alloc g]
  have "in_pool L b \<Longrightarrow> \<not> same_page g b" for b
    using new layout_unat [OF L]
    by (auto simp: in_pool_def above_heap_def same_page_aligned word_le_nat_alt word_less_nat_alt)
  with pool have "\<exists>a. in_pool L a \<and> \<not> page_used (pm (v\<lparr>pm := p\<rparr>)) a"
    using frames.alloc_used [OF L alloc g] by auto
  then have "\<exists>v'. map_page L ctx i g 1 (v\<lparr>pm := p\<rparr>) = Inr v'"
    using map_page_returns [OF L assms(2) _ assms(3)] new by (simp add: above_heap_def)
  then show ?thesis using alloc g by (auto simp: vmm_alloc_page_def frame_alloc_def)
qed

theorem vmm_alloc_backs_range_witness:
  "\<exists>v' f. vmm_alloc example_layout 0x160000 0x80000000 0x1000 example_vmm = Inr v'
     \<and> HEAP_END example_layout \<le> f \<and> \<not> page_used (pm example_vmm) f
     \<and> walk_context v' 0x160000 0x80000123 = Some (f OR 7)"
proof -
  have range: "pages_of 0x80000000 0x80001000 = [0x80000000]"
    by (simp add: pages_of_def page_count_def upt_rec)
  have "\<exists>v'. vmm_alloc_page example_layout 0x160000 0x80000000 example_vmm = Inr v'"
    by (rule vmm_alloc_page_returns [OF example_layout_ok _ _ conjunct1 [OF example_pool_free]
          conjunct2 [OF example_pool_free], where f = "0x2000000"])
      (simp_all add: above_heap_def example_unused same_page_def)
  then obtain v' where run: "vmm_alloc example_layout 0x160000 0x80000000 0x1000 example_vmm = Inr v'"
    by (auto simp: vmm_alloc_def for_pages_foldE range)
  from vmm_alloc_backs_range [OF example_layout_ok example_context_ok _ run] obtain fs where
    "length fs = 1" "\<forall>f \<in> set fs. above_heap example_layout f \<and> \<not> page_used (pm example_vmm) f"
    "walk_context v' 0x160000 0x80000123 = Some (fs ! 0 OR 7)"
    by (auto simp: range same_page_def)
  with run show ?thesis by (intro exI [of _ v'] exI [of _ "fs ! 0"]) (auto simp: above_heap_def)
qed

section \<open>Mapping a range\<close>

lemma map_range_loop_fold:
  assumes "limit < 0xFFFFF000"
  shows "map_range_loop L ctx i limit phys us v =
    Some (foldE (\<lambda>k. map_page L ctx (i + 0x1000 * of_nat k) (phys + 0x1000 * of_nat k) us)
            [0..<page_count i (limit + 1)] v)"
proof (induction "page_count i (limit + 1)" arbitrary: i phys v)
  case 0
  have less: "i < limit + 1 \<longleftrightarrow> i \<le> limit" "limit + 1 \<le> 0xFFFFF000"
    using assms by (auto simp: word_less_nat_alt word_le_nat_alt unat_word_ariths)
  then have "\<not> i \<le> limit" using 0 page_count_step [of i "limit + 1"] by auto
  with less(1) show ?case by (simp add: map_range_loop.simps page_count_done)
next
  case (Suc n)
  have less: "i < limit + 1 \<longleftrightarrow> i \<le> limit" "limit + 1 \<le> 0xFFFFF000"
    using assms by (auto simp: word_less_nat_alt word_le_nat_alt unat_word_ariths)
  have i: "i < limit + 1" using Suc.hyps(2) page_count_done [of i "limit + 1"] by fastforce
  have step: "page_count i (limit + 1) = Suc (page_count (i + 0x1000) (limit + 1))"
    by (rule page_count_step [OF i less(2)])
  then have n: "n = page_count (i + 0x1000) (limit + 1)" using Suc.hyps(2) by simp
  let ?f = "\<lambda>i phys k. map_page L ctx (i + 0x1000 * of_nat k) (phys + 0x1000 * of_nat k) us"
  have shift: "foldE (?f i phys) (map Suc ks) w = foldE (?f (i + 0x1000) (phys + 0x1000)) ks w" for ks w
    by (simp add: foldE_map algebra_simps)
  have "[0..<page_count i (limit + 1)] = 0 # map Suc [0..<page_count (i + 0x1000) (limit + 1)]"
    using step by (simp add: upt_conv_Cons map_Suc_upt del: upt_Suc)
  then have "foldE (?f i phys) [0..<page_count i (limit + 1)] v = bindE (map_page L ctx i phys us v)
      (foldE (?f (i + 0x1000) (phys + 0x1000)) [0..<page_count (i + 0x1000) (limit + 1)])"
    by (simp add: shift [abs_def])
  then show ?case
    using Suc.hyps(1) [OF n] i less(1)
    by (simp add: map_range_loop.simps [of L ctx i] split: sum.splits)
qed

lemma map_range_fold:
  assumes "unat start_virt + unat sz < 0xFFFFF000" "page_aligned sz"
  shows "map_range L ctx start_virt start_phys sz us v =
    foldE (\<lambda>k. map_page L ctx (start_virt + 0x1000 * of_nat k) (start_phys + 0x1000 * of_nat k) us)
      [0..<Suc (unat sz div 4096)] v"
proof -
  have sum: "unat (start_virt + sz) = unat start_virt + unat sz"
    "unat (start_virt + sz + 1) = unat start_virt + unat sz + 1"
    using assms(1) by (simp_all add: unat_word_ariths)
  then have "start_virt + sz < 0xFFFFF000" using assms(1) by (simp add: word_less_nat_alt)
  moreover have "page_count start_virt (start_virt + sz + 1) = Suc (unat sz div 4096)"
    using assms(2) unfolding page_count_def sum by (elim page_alignedE) simp
  ultimately show ?thesis
    using map_range_loop_fold [of "start_virt + sz" L ctx start_virt start_phys us v]
    by (simp add: map_range_def)
qed

text \<open>
  C29: \<open>map_range\<close> maps one page more than the range asked for: where the range does not wrap and its
  size is a multiple of the page size, it maps, in order, the \<open>size / 4096\<close> pages of the range and the
  page after them, each to the physical page at the same distance from \<open>start_phys\<close>.
\<close>

theorem map_range_maps_one_more:
  assumes "unat start_virt + unat sz < 0xFFFFF000" "page_aligned sz"
  shows "map_range L ctx start_virt start_phys sz us v =
    foldE (\<lambda>k. map_page L ctx (start_virt + 0x1000 * of_nat k) (start_phys + 0x1000 * of_nat k) us)
      [0..<Suc (unat sz div 4096)] v"
  by (rule map_range_fold [OF assms])

theorem map_range_maps_one_more_witness:
  "map_range example_layout 0x160000 0x1000 0x5000 0x1000 1 example_vmm =
     bindE (map_page example_layout 0x160000 0x1000 0x5000 1 example_vmm)
       (map_page example_layout 0x160000 0x2000 0x6000 1)"
  using map_range_maps_one_more [of "0x1000" "0x1000" example_layout "0x160000" "0x5000" 1 example_vmm]
  by (simp add: upt_rec)

section \<open>Fresh contexts\<close>

lemma fold_pagedir:
  assumes "page_aligned ctx" "page_aligned pd" "ctx \<noteq> pd" "pagedir m ctx = pd" "n \<le> 1024"
  shows "fold (\<lambda>i m. store32 m (entry (pagedir m ctx) i) (f m i)) [0..<n] m = fill_table pd f n m"
  using assms(5)
proof (induction n)
  case (Suc n)
  have "pagedir (fill_table pd f n m) ctx = pd"
    using assms(4) Suc.prems fill_table_outside [OF assms(2), of n _ f m]
      page_differs [OF assms(1,2,3)] pagedir_outside [OF assms(1), of "fill_table pd f n m" m] by auto
  with Suc show ?case by (simp add: fill_table_Suc)
qed (simp add: fill_table_def)

lemma create_context_effect:
  assumes L: "layout_ok L" and run: "create_context L v = Inr (ctx, v')"
  obtains pd where "mem v' = fill_table pd (\<lambda>_ _. 0) 1024 (store32 (mem v) ctx pd)"
    "in_pool L ctx" "in_pool L pd" "ctx \<noteq> pd" "\<not> page_used (pm v) ctx" "\<not> page_used (pm v) pd"
    "\<And>b. page_used (pm v') b \<longleftrightarrow> same_page ctx b \<or> same_page pd b \<or> page_used (pm v) b"
    "kernel_context v' = kernel_context v" "pagedir (mem v') ctx = pd"
proof -
  from run obtain p1 pd p where c: "pool_alloc L (pm v) = Inr (ctx, p1)" "ctx \<noteq> 0"
      and d: "pool_alloc L p1 = Inr (pd, p)" "pd \<noteq> 0"
      and v': "v' = v\<lparr>pm := p, mem := clear_pagedir ctx (store32 (mem v) ctx pd)\<rparr>"
    by (auto simp: create_context_def kernel_simps pool_alloc_def pagedir_def)
  note c' = pool.alloc_page [OF L c] pool.alloc_used [OF L c]
  note d' = pool.alloc_page [OF L d] pool.alloc_used [OF L d]
  have al: "page_aligned ctx" "page_aligned pd" using c'(1) d'(1) by (auto simp: in_pool_def)
  have ne: "ctx \<noteq> pd" using c'(2) d'(1) same_page_refl by blast
  have pd: "pagedir (store32 (mem v) ctx pd) ctx = pd" by (simp add: pagedir_def)
  have m': "mem v' = fill_table pd (\<lambda>_ _. 0) 1024 (store32 (mem v) ctx pd)"
    using fold_pagedir [OF al ne pd le_refl, of "\<lambda>_ _. 0"] by (simp add: v' clear_pagedir_def)
  have "pagedir (mem v') ctx = pd"
    unfolding m' using pd
    by (subst pagedir_outside [OF al(1), where m = "store32 (mem v) ctx pd"])
      (auto intro!: fill_table_outside [OF al(2) le_refl] page_differs [OF al ne])
  with m' show ?thesis
    by (intro that [of pd]) (use c' d' ne in \<open>auto simp: v'\<close>)
qed

lemma create_context_memory:
  assumes L: "layout_ok L" and run: "create_context L v = Inr (ctx, v')"
  shows "context_ok v' ctx" "walk_context v' ctx a = None" "page_used (pm v) b \<Longrightarrow> mem v' b = mem v b"
    "i < 1024 \<Longrightarrow> table_at (mem v') (pagedir (mem v') ctx) i = None"
proof -
  obtain pd where m': "mem v' = fill_table pd (\<lambda>_ _. 0) 1024 (store32 (mem v) ctx pd)"
    and pool: "in_pool L ctx" "in_pool L pd" and ne: "ctx \<noteq> pd"
    and fresh: "\<not> page_used (pm v) ctx" "\<not> page_used (pm v) pd"
    and used: "\<And>b. page_used (pm v') b \<longleftrightarrow> same_page ctx b \<or> same_page pd b \<or> page_used (pm v) b"
    and "kernel_context v' = kernel_context v" and pd: "pagedir (mem v') ctx = pd"
    by (rule create_context_effect [OF assms]) (rule that)
  have al: "page_aligned ctx" "page_aligned pd" "ctx \<noteq> 0"
    using pool.pool_page [OF L] pool by auto
  have none: "table_at (mem v') pd i = None" if "i < 1024" for i
    using fill_table_entry [OF al(2) le_refl that, where f = "\<lambda>_ _. 0" and g = "\<lambda>_. 0"]
    by (simp add: m' table_at_def)
  then show "i < 1024 \<Longrightarrow> table_at (mem v') (pagedir (mem v') ctx) i = None" by (simp add: pd)
  show "context_ok v' ctx"
    unfolding context_ok_def Let_def pd using al ne used none by simp
  show "walk_context v' ctx a = None"
    using none [OF index_bounds(1)] by (simp add: walk_context_def mmu_walk_table pd)
  show "mem v' b = mem v b" if "page_used (pm v) b"
  proof -
    have "\<not> same_page b ctx" "\<not> same_page b pd" using that fresh page_used_same by blast+
    then have "unat b div 4096 \<noteq> unat ctx div 4096" "unat b div 4096 \<noteq> unat pd div 4096"
      by (simp_all add: same_page_unat)
    then show ?thesis
      using fill_table_outside [OF al(2) le_refl] store_entry_outside [OF al(1), of 0 b "mem v" pd]
      by (simp add: m' entry_def)
  qed
qed

text \<open>
  \<open>create_context\<close>, when it returns, returns a well-formed context on two pages of the page pool
  that were not in use, in which nothing is mapped; it marks these two pages and no other, and changes
  no byte of a page that was in use.
\<close>

theorem create_context_empty:
  assumes "layout_ok L" "create_context L v = Inr (ctx, v')"
  shows "context_ok v' ctx \<and> in_pool L ctx \<and> in_pool L (pagedir (mem v') ctx)
    \<and> \<not> page_used (pm v) ctx \<and> \<not> page_used (pm v) (pagedir (mem v') ctx)
    \<and> (\<forall>a. walk_context v' ctx a = None)
    \<and> (\<forall>b. page_used (pm v') b \<longleftrightarrow>
            same_page ctx b \<or> same_page (pagedir (mem v') ctx) b \<or> page_used (pm v) b)
    \<and> (\<forall>b. page_used (pm v) b \<longrightarrow> mem v' b = mem v b)"
  using create_context_memory [OF assms] by (rule_tac create_context_effect [OF assms]) simp

lemma two_pool_pages:
  assumes L: "layout_ok L" and free: "in_pool L a" "in_pool L b" "a \<noteq> b" "\<not> page_used (pm v) a" "\<not> page_used (pm v) b"
  shows "\<exists>ctx v'. create_context L v = Inr (ctx, v')"
proof -
  obtain c p1 where c: "pool_alloc L (pm v) = Inr (c, p1)" using pool.alloc_total [OF L] by blast
  have c0: "c \<noteq> 0" using pool.alloc_fails_iff [OF L c] free by blast
  obtain d p2 where d: "pool_alloc L p1 = Inr (d, p2)" using pool.alloc_total [OF L] by blast
  have "\<not> same_page a b" using free same_page_aligned by (auto simp: in_pool_def)
  then have "\<not> page_used p1 a \<or> \<not> page_used p1 b"
    using pool.alloc_used [OF L c c0] free same_page_trans same_page_sym by blast
  then have "d \<noteq> 0" using pool.alloc_fails_iff [OF L d] free by blast
  with c c0 d show ?thesis by (simp add: create_context_def pool_alloc_def pagedir_def)
qed

lemma example_create_context: "\<exists>ctx v'. create_context example_layout example_vmm = Inr (ctx, v')"
  by (rule two_pool_pages [OF example_layout_ok, where a = "0x150000" and b = "0x151000"])
    (simp_all add: in_pool_def example_unused same_page_def)

theorem create_context_empty_witness:
  "\<exists>ctx v'. create_context example_layout example_vmm = Inr (ctx, v')
     \<and> context_ok v' ctx \<and> walk_context v' ctx 0x1234 = None"
proof -
  obtain ctx v' where run: "create_context example_layout example_vmm = Inr (ctx, v')"
    using example_create_context by blast
  with create_context_empty [OF example_layout_ok run] show ?thesis by blast
qed

section \<open>User contexts\<close>

lemma copy_pagedir_effect:
  assumes "page_aligned ctx" "page_aligned pd" "ctx \<noteq> pd" "pagedir m ctx = pd"
    and "page_aligned kctx" "kctx \<noteq> pd" "page_aligned (pagedir m kctx)" "pagedir m kctx \<noteq> pd"
  shows "i < 1024 \<Longrightarrow> load32 (copy_pagedir ctx kctx m) (entry pd i) = load32 m (entry (pagedir m kctx) i)"
    and "unat b div 4096 \<noteq> unat pd div 4096 \<Longrightarrow> copy_pagedir ctx kctx m b = m b"
proof -
  let ?f = "\<lambda>m i. load32 m (entry (pagedir m kctx) i)"
  have copy: "copy_pagedir ctx kctx m = fill_table pd ?f 1024 m"
    unfolding copy_pagedir_def by (rule fold_pagedir [OF assms(1-4) le_refl])
  show "unat b div 4096 \<noteq> unat pd div 4096 \<Longrightarrow> copy_pagedir ctx kctx m b = m b"
    unfolding copy by (rule fill_table_outside [OF assms(2) le_refl])
  show "load32 (copy_pagedir ctx kctx m) (entry pd i) = ?f m i" if "i < 1024"
    unfolding copy
  proof (rule fill_table_entry [OF assms(2) le_refl that])
    fix k :: nat and m' :: memory assume k: "k < 1024" and same: "\<And>b. unat b div 4096 \<noteq> unat pd div 4096 \<Longrightarrow> m' b = m b"
    have "pagedir m' kctx = pagedir m kctx"
      by (rule pagedir_outside [OF assms(5)], rule same, rule page_differs [OF assms(5,2,6)])
    moreover have "load32 m' (entry (pagedir m kctx) k) = load32 m (entry (pagedir m kctx) k)"
      by (rule load_page_cong [OF assms(7) k], rule same, rule page_differs [OF assms(7,2,8)])
    ultimately show "?f m' k = ?f m k" by simp
  qed
qed

text \<open>The pages that hold a context: its own page, its directory, and its tables.\<close>

definition context_page :: "vmm \<Rightarrow> u32 \<Rightarrow> u32 \<Rightarrow> bool" where
  "context_page v ctx t \<longleftrightarrow> t = ctx \<or> t = pagedir (mem v) ctx
     \<or> (\<exists>i < 1024. table_at (mem v) (pagedir (mem v) ctx) i = Some t)"

lemma context_page_aligned: "context_ok v ctx \<Longrightarrow> context_page v ctx t \<Longrightarrow> page_aligned t"
  by (auto simp: context_page_def context_okD dest: table_at_aligned)

lemma context_page_used: "context_ok v ctx \<Longrightarrow> context_page v ctx t \<Longrightarrow> page_used (pm v) t"
  by (auto simp: context_page_def context_okD)

text \<open>A context whose pages keep their bytes and stay in use keeps its translations.\<close>

lemma context_frame:
  assumes ok: "context_ok v ctx"
    and same: "\<forall>t b. context_page v ctx t \<and> same_page b t \<longrightarrow> mem v' b = mem v b"
    and mono: "\<forall>b. page_used (pm v) b \<longrightarrow> page_used (pm v') b"
  shows "pagedir (mem v') ctx = pagedir (mem v) ctx"
    and "i < 1024 \<Longrightarrow> table_at (mem v') (pagedir (mem v) ctx) i = table_at (mem v) (pagedir (mem v) ctx) i"
    and "walk_context v' ctx a = walk_context v ctx a" and "context_ok v' ctx"
    and "context_page v' ctx t \<longleftrightarrow> context_page v ctx t"
    and "context_page v ctx t \<Longrightarrow> j < 1024 \<Longrightarrow> load32 (mem v') (entry t j) = load32 (mem v) (entry t j)"
proof -
  note pages = context_okD [OF ok]
  let ?pd = "pagedir (mem v) ctx"
  show load: "load32 (mem v') (entry t j) = load32 (mem v) (entry t j)" if "context_page v ctx t" "j < 1024" for t j
    by (rule load_page_cong [OF context_page_aligned [OF ok that(1)] that(2)])
      (use same that(1) in \<open>auto simp: same_page_unat\<close>)
  show pd: "pagedir (mem v') ctx = ?pd"
    using load [of ctx 0] by (simp add: pagedir_def entry_def context_page_def)
  show dir: "table_at (mem v') ?pd i = table_at (mem v) ?pd i" if "i < 1024" for i
    using load [of ?pd i] that by (simp add: table_at_def context_page_def)
  show "walk_context v' ctx a = walk_context v ctx a"
  proof (cases "table_at (mem v) ?pd (pd_index a)")
    case None
    then show ?thesis using dir [OF index_bounds(1)] by (simp add: walk_context_def pd mmu_walk_table)
  next
    case (Some t)
    then have "context_page v ctx t" using index_bounds(1) by (auto simp: context_page_def)
    with Some load [OF _ index_bounds(2)] dir [OF index_bounds(1)] show ?thesis
      by (simp add: walk_context_def pd mmu_walk_table)
  qed
  show "context_ok v' ctx"
    unfolding context_ok_def pd Let_def using pages mono by (simp add: dir)
  show "context_page v' ctx t \<longleftrightarrow> context_page v ctx t"
    unfolding context_page_def pd by (auto simp: dir)
qed

lemma create_context_kernel_frame:
  assumes L: "layout_ok L" and ok: "context_ok v kctx" and run: "create_context L v = Inr (ctx, v')"
  shows "context_ok v' kctx" "walk_context v' kctx a = walk_context v kctx a"
    "context_page v' kctx t \<longleftrightarrow> context_page v kctx t"
proof -
  have same: "\<forall>t b. context_page v kctx t \<and> same_page b t \<longrightarrow> mem v' b = mem v b"
    using create_context_memory(3) [OF L run] context_page_used [OF ok] page_used_same by blast
  have mono: "\<forall>b. page_used (pm v) b \<longrightarrow> page_used (pm v') b"
    by (rule create_context_effect [OF L run]) simp
  show "context_ok v' kctx" "walk_context v' kctx a = walk_context v kctx a"
    "context_page v' kctx t \<longleftrightarrow> context_page v kctx t"
    using context_frame [OF ok same mono] by blast+
qed

lemma usermode_context_effect:
  assumes L: "layout_ok L" and ok: "context_ok v (kernel_context v)"
    and run: "CreateUsermodeContext L w v = Inr (ctx, v')"
  defines "k \<equiv> kernel_context v"
  shows "i < 1024 \<Longrightarrow>
      load32 (mem v') (entry (pagedir (mem v') ctx) i) = load32 (mem v') (entry (pagedir (mem v') k) i)"
    "page_used (pm v') b \<longleftrightarrow> same_page ctx b \<or> same_page (pagedir (mem v') ctx) b \<or> page_used (pm v) b"
    "\<not> page_used (pm v) (pagedir (mem v') ctx)" "kernel_context v' = k" "k \<noteq> 0" "k \<noteq> ctx"
    and "context_ok v' ctx" "walk_context v' ctx a = walk_context v k a" "context_ok v' k"
    "walk_context v' k a = walk_context v k a" "\<not> page_used (pm v) ctx"
    "i < 1024 \<Longrightarrow> table_at (mem v') (pagedir (mem v') ctx) i = table_at (mem v') (pagedir (mem v') k) i"
    "context_page v' k t \<longleftrightarrow> context_page v k t"
    "(\<And>t. in_pool L t \<Longrightarrow> \<not> same_page b t) \<Longrightarrow> mem v' b = mem v b"
    "in_pool L ctx" "in_pool L (pagedir (mem v') ctx)" "page_used (pm v) b \<Longrightarrow> mem v' b = mem v b"
proof -
  from run obtain v1 where create: "create_context L v = Inr (ctx, v1)"
      and "v' = v1\<lparr>mem := copy_pagedir ctx (kernel_context v1) (mem v1)\<rparr>"
    by (auto simp: CreateUsermodeContext_def kernel_simps)
  moreover obtain pd where m1: "mem v1 = fill_table pd (\<lambda>_ _. 0) 1024 (store32 (mem v) ctx pd)"
    and pool: "in_pool L ctx" "in_pool L pd" and ne: "ctx \<noteq> pd"
    and fresh: "\<not> page_used (pm v) ctx" "\<not> page_used (pm v) pd"
    and used: "\<And>b. page_used (pm v1) b \<longleftrightarrow> same_page ctx b \<or> same_page pd b \<or> page_used (pm v) b"
    and kc: "kernel_context v1 = kernel_context v" and pd: "pagedir (mem v1) ctx = pd"
    by (rule create_context_effect [OF L create]) (rule that)
  ultimately have v': "v' = v1\<lparr>mem := copy_pagedir ctx k (mem v1)\<rparr>" by (simp add: k_def)
  show "\<not> page_used (pm v) ctx" by (rule fresh)
  note frame1 = create_context_kernel_frame [OF L ok create, folded k_def]
  note okk = ok [folded k_def]
  note kd = context_okD [OF frame1(1)]
  have al: "page_aligned ctx" "page_aligned pd" "ctx \<noteq> 0" using pool pool.pool_page [OF L] by auto
  have kpage: "t \<noteq> pd \<and> t \<noteq> ctx" if "context_page v k t" for t
    using context_page_used [OF okk that] fresh by auto
  have kpage1: "t \<noteq> pd \<and> t \<noteq> ctx \<and> page_used (pm v1) t \<and> page_aligned t" if "context_page v1 k t" for t
    using that frame1(3) kpage context_page_used [OF frame1(1)] context_page_aligned [OF frame1(1)] by blast
  have "context_page v1 k k" "context_page v1 k (pagedir (mem v1) k)" by (simp_all add: context_page_def)
  then have "k \<noteq> pd" "pagedir (mem v1) k \<noteq> pd" using kpage1 by blast+
  note copy = copy_pagedir_effect [OF al(1,2) ne pd kd(1) \<open>k \<noteq> pd\<close> kd(3) \<open>pagedir (mem v1) k \<noteq> pd\<close>]
  have same': "\<forall>t b. context_page v1 k t \<and> same_page b t \<longrightarrow> mem v' b = mem v1 b"
  proof (intro allI impI)
    fix t b assume "context_page v1 k t \<and> same_page b t"
    then have "unat b div 4096 \<noteq> unat pd div 4096"
      using kpage1 [of t] page_differs [OF _ al(2), of t b] by (simp add: same_page_unat)
    then show "mem v' b = mem v1 b" using copy(2) by (simp add: v')
  qed
  have mono': "\<forall>b. page_used (pm v1) b \<longrightarrow> page_used (pm v') b" by (simp add: v')
  note frame2 = context_frame [OF frame1(1) same' mono']
  show "context_ok v' k" "walk_context v' k a = walk_context v k a" using frame1(2) frame2(3,4) by auto
  show "context_page v' k t \<longleftrightarrow> context_page v k t" using frame1(3) frame2(5) by blast
  show "mem v' b = mem v b" if "page_used (pm v) b" for b
  proof -
    have "\<not> same_page b pd" using that fresh(2) page_used_same by blast
    then have "unat b div 4096 \<noteq> unat pd div 4096" by (simp add: same_page_unat)
    then show ?thesis using copy(2) create_context_memory(3) [OF L create that] by (simp add: v')
  qed
  show "mem v' b = mem v b" if out: "\<And>t. in_pool L t \<Longrightarrow> \<not> same_page b t" for b
  proof -
    have "unat b div 4096 \<noteq> unat pd div 4096" "unat b div 4096 \<noteq> unat ctx div 4096"
      using out [OF pool(1)] out [OF pool(2)] by (simp_all add: same_page_unat)
    then show ?thesis
      using copy(2) fill_table_outside [OF al(2) le_refl, of b] store_entry_outside [OF al(1), of 0 b "mem v" pd]
      by (simp add: v' m1 entry_def)
  qed
  have pd': "pagedir (mem v') ctx = pd"
    using pd pagedir_outside [OF al(1), of "mem v'" "mem v1"] copy(2) page_differs [OF al(1,2) ne]
    by (auto simp: v')
  show "in_pool L ctx" "in_pool L (pagedir (mem v') ctx)" using pool by (simp_all add: pd')
  have tab: "table_at (mem v') pd i = table_at (mem v') (pagedir (mem v') k) i" if "i < 1024" for i
    using copy(1) [OF that] frame2(1) frame2(2) [OF that] by (simp add: v' table_at_def)
  have raw: "load32 (mem v') (entry pd i) = load32 (mem v') (entry (pagedir (mem v') k) i)" if "i < 1024" for i
  proof -
    have "load32 (mem v') (entry pd i) = load32 (mem v1) (entry (pagedir (mem v1) k) i)"
      using copy(1) [OF that] by (simp add: v')
    also have "\<dots> = load32 (mem v') (entry (pagedir (mem v1) k) i)"
      using frame2(6) [of "pagedir (mem v1) k", OF _ that] by (simp add: context_page_def)
    finally show ?thesis using frame2(1) by simp
  qed
  then show "i < 1024 \<Longrightarrow>
      load32 (mem v') (entry (pagedir (mem v') ctx) i) = load32 (mem v') (entry (pagedir (mem v') k) i)"
    by (simp add: pd')
  show "page_used (pm v') b \<longleftrightarrow> same_page ctx b \<or> same_page (pagedir (mem v') ctx) b \<or> page_used (pm v) b"
    using used by (simp add: pd') (simp add: v')
  show "\<not> page_used (pm v) (pagedir (mem v') ctx)" using fresh(2) by (simp add: pd')
  show "kernel_context v' = k" using kc by (simp add: v' k_def)
  show "k \<noteq> 0" "k \<noteq> ctx" using kd(2) kpage1 [of k] by (simp_all add: context_page_def)
  show "i < 1024 \<Longrightarrow> table_at (mem v') (pagedir (mem v') ctx) i = table_at (mem v') (pagedir (mem v') k) i"
    using tab by (simp add: pd')
  have "walk_context v' ctx a = walk_context v' k a"
    unfolding walk_context_def pd' mmu_walk_table tab [OF index_bounds(1)] by simp
  then show "walk_context v' ctx a = walk_context v k a" using frame1(2) frame2(3) by simp
  have "t \<noteq> ctx \<and> t \<noteq> pd \<and> page_used (pm v') t" if "i < 1024" "table_at (mem v') pd i = Some t" for i t
  proof -
    have "context_page v1 k t"
      using that tab [OF that(1)] frame2(1) frame2(2) [OF that(1)] by (auto simp: context_page_def)
    then show ?thesis using kpage1 by (simp add: v')
  qed
  moreover have "i = j" if "i < 1024" "j < 1024" "table_at (mem v') pd i = Some t" "table_at (mem v') pd j = Some t" for i j t
    using that tab context_okD(8) [OF frame2(4), of i j t] by simp
  moreover have "page_used (pm v') ctx" "page_used (pm v') pd" using used by (simp_all add: v')
  ultimately show "context_ok v' ctx"
    unfolding context_ok_def Let_def pd' using al ne by blast
qed

text \<open>
  \<open>CreateUsermodeContext\<close>, when it returns, returns a new well-formed context in which every
  address translates as in the kernel context; its directory holds the kernel's own page tables, not
  copies of them; the kernel context stays well formed with its translations.
\<close>

theorem CreateUsermodeContext_shares_kernel:
  assumes "layout_ok L" "context_ok v (kernel_context v)" "CreateUsermodeContext L w v = Inr (ctx, v')"
  shows "context_ok v' ctx \<and> context_ok v' (kernel_context v) \<and> \<not> page_used (pm v) ctx
    \<and> (\<forall>a. walk_context v' ctx a = walk_context v (kernel_context v) a)
    \<and> (\<forall>a. walk_context v' (kernel_context v) a = walk_context v (kernel_context v) a)
    \<and> (\<forall>i < 1024. table_at (mem v') (pagedir (mem v') ctx) i =
                   table_at (mem v') (pagedir (mem v') (kernel_context v)) i)"
  using usermode_context_effect [OF assms] by blast

theorem CreateUsermodeContext_shares_kernel_witness:
  "\<exists>ctx v'. CreateUsermodeContext example_layout 1 example_vmm = Inr (ctx, v')
     \<and> context_ok v' ctx \<and> walk_context v' ctx 0x150123 = walk_context example_vmm 0x160000 0x150123"
proof -
  have k: "kernel_context example_vmm = 0x160000" by (simp add: example_vmm_def)
  obtain ctx v1 where create: "create_context example_layout example_vmm = Inr (ctx, v1)"
    using example_create_context by blast
  have "kernel_context v1 = 0x160000"
    by (rule create_context_effect [OF example_layout_ok create]) (simp add: k)
  with create obtain v' where run: "CreateUsermodeContext example_layout 1 example_vmm = Inr (ctx, v')"
    by (simp add: CreateUsermodeContext_def)
  from CreateUsermodeContext_shares_kernel [OF example_layout_ok _ run] run show ?thesis
    by (auto simp: k example_context_ok)
qed

lemma map_page_apart:
  assumes L: "layout_ok L" and ok: "context_ok v ctx" and okk: "context_ok v k"
    and dir: "\<not> context_page v k (pagedir (mem v) ctx)"
    and sep: "\<forall>t. table_at (mem v) (pagedir (mem v) ctx) (pd_index virt) = Some t \<longrightarrow> \<not> context_page v k t"
    and run: "map_page L ctx virt phys us v = Inr v'"
  shows "context_ok v' k" "walk_context v' k a = walk_context v k a" "context_page v' k t \<longleftrightarrow> context_page v k t"
    "pagedir (mem v') k = pagedir (mem v) k"
    "i < 1024 \<Longrightarrow> table_at (mem v') (pagedir (mem v) k) i = table_at (mem v) (pagedir (mem v) k) i"
proof -
  note m = map_page_effect [OF L ok run]
  have not_page: "\<not> same_page b s" if "context_page v k t" "same_page b t" "\<not> context_page v k s" "page_aligned s" for b s t
    using that same_page_aligned context_page_aligned [OF okk that(1)] same_page_sym same_page_trans by metis
  have same: "\<forall>t b. context_page v k t \<and> same_page b t \<longrightarrow> mem v' b = mem v b"
  proof (intro allI impI)
    fix t b assume t: "context_page v k t \<and> same_page b t"
    have "page_used (pm v) b" using t context_page_used [OF okk] page_used_same by blast
    moreover have "\<not> same_page b (pagedir (mem v) ctx)"
      using t dir not_page context_okD(3) [OF ok] by blast
    moreover have "\<not> same_page b s"
      if "table_at (mem v) (pagedir (mem v) ctx) (pd_index virt) = Some s" for s
      using t sep that not_page table_at_aligned by blast
    ultimately show "mem v' b = mem v b" using m by blast
  qed
  have mono: "\<forall>b. page_used (pm v) b \<longrightarrow> page_used (pm v') b" using m by blast
  show "context_ok v' k" "walk_context v' k a = walk_context v k a" "context_page v' k t \<longleftrightarrow> context_page v k t"
    "pagedir (mem v') k = pagedir (mem v) k"
    "i < 1024 \<Longrightarrow> table_at (mem v') (pagedir (mem v) k) i = table_at (mem v) (pagedir (mem v) k) i"
    using context_frame [OF okk same mono] by blast+
qed

text \<open>
  A page mapped in one context is seen by another exactly through a shared page table: where the
  other context does not use the table of that virtual address, all its translations stay as they were;
  where both directories hold the same table there, the page is mapped in the other context as well.
\<close>

theorem map_page_in_other_context:
  assumes L: "layout_ok L" and ok: "context_ok v ctx" and okk: "context_ok v k"
    and dir: "\<not> context_page v k (pagedir (mem v) ctx)"
    and run: "map_page L ctx virt phys us v = Inr v'"
  shows "((\<forall>t. table_at (mem v) (pagedir (mem v) ctx) (pd_index virt) = Some t \<longrightarrow> \<not> context_page v k t) \<longrightarrow>
            context_ok v' k \<and> (\<forall>a. walk_context v' k a = walk_context v k a))
    \<and> (\<forall>t. table_at (mem v) (pagedir (mem v) ctx) (pd_index virt) = Some t
          \<and> table_at (mem v) (pagedir (mem v) k) (pd_index virt) = Some t \<longrightarrow>
            (\<forall>a. walk_context v' k a =
              (if same_page a virt then Some (phys OR page_flags us) else walk_context v k a)))"
proof (intro conjI allI impI)
  assume sep: "\<forall>t. table_at (mem v) (pagedir (mem v) ctx) (pd_index virt) = Some t \<longrightarrow> \<not> context_page v k t"
  note frame = map_page_apart [OF L ok okk dir sep run]
  show "context_ok v' k" by (rule frame(1))
  show "walk_context v' k a = walk_context v k a" for a by (rule frame(2))
next
  fix t a
  assume tab: "table_at (mem v) (pagedir (mem v) ctx) (pd_index virt) = Some t
    \<and> table_at (mem v) (pagedir (mem v) k) (pd_index virt) = Some t"
  then have "get_page_table L ctx (pd_index virt) (page_flags us) v = Inr (t, v)"
    by (auto simp: get_page_table_def table_at_def Let_def split: if_splits)
  with run have "v' = v\<lparr>mem := store32 (mem v) (entry t (pt_index virt)) (phys OR page_flags us)\<rparr>"
    by (auto simp: map_page_unfold kernel_simps)
  then show "walk_context v' k a = (if same_page a virt then Some (phys OR page_flags us) else walk_context v k a)"
    using store_pte(3) [OF okk conjunct2 [OF tab] present_entry] by simp
qed

lemma example_context_page: "context_page example_vmm 0x160000 t \<Longrightarrow> t = 0x160000 \<or> t = 0x161000"
  by (auto simp: context_page_def example_pagedir example_tables)

theorem map_page_in_other_context_witness:
  "\<exists>ctx v1 v'. create_context example_layout example_vmm = Inr (ctx, v1)
     \<and> map_page example_layout ctx 0x80001000 0x2000000 1 v1 = Inr v'
     \<and> walk_context v' ctx 0x80001000 = Some 0x2000007
     \<and> walk_context v' 0x160000 0x80001000 = walk_context example_vmm 0x160000 0x80001000"
proof -
  obtain ctx v1 where create: "create_context example_layout example_vmm = Inr (ctx, v1)"
    using example_create_context by blast
  note c = create_context_memory [OF example_layout_ok create]
    and k = create_context_kernel_frame [OF example_layout_ok example_context_ok create]
  obtain pd where pool: "in_pool example_layout ctx" "in_pool example_layout pd"
    and fresh: "\<not> page_used (pm example_vmm) ctx" "\<not> page_used (pm example_vmm) pd"
    and used: "\<And>b. page_used (pm v1) b \<longleftrightarrow> same_page ctx b \<or> same_page pd b \<or> page_used (pm example_vmm) b"
    and pd: "pagedir (mem v1) ctx = pd"
    by (rule create_context_effect [OF example_layout_ok create]) (rule that)
  have al: "page_aligned ctx" "page_aligned pd" "ctx \<noteq> 0"
    using pool pool.pool_page [OF example_layout_ok] by auto
  have "\<exists>a \<in> {0x150000, 0x151000, 0x152000}. ctx \<noteq> a \<and> pd \<noteq> a" by auto
  then obtain a where a: "a \<in> {0x150000, 0x151000, 0x152000}" "ctx \<noteq> a" "pd \<noteq> a" by blast
  then have "in_pool example_layout a" "\<not> page_used (pm example_vmm) a" "page_aligned a"
    by (auto simp: in_pool_def example_unused same_page_def)
  then have "in_pool example_layout a \<and> \<not> page_used (pm v1) a"
    using a al used by (simp add: same_page_aligned)
  then obtain v' where run: "map_page example_layout ctx 0x80001000 0x2000000 1 v1 = Inr v'"
    using map_page_returns [OF example_layout_ok, of "0x80001000" "0x2000000" ctx] al(3) by force
  have other: "\<not> context_page v1 0x160000 (pagedir (mem v1) ctx)"
    using k(3) fresh(2) context_page_used [OF example_context_ok] pd by blast
  have "table_at (mem v1) (pagedir (mem v1) ctx) (pd_index 0x80001000) = None"
    by (rule c(4) [OF index_bounds(1)])
  from map_page_in_other_context [OF example_layout_ok c(1) k(1) other run] this
    map_page_effect [OF example_layout_ok c(1) run] c(2) k(2) create run
  show ?thesis by (intro exI [of _ ctx] exI [of _ v1] exI [of _ v']) (simp add: same_page_def page_flags_def)
qed

section \<open>Destroying a context\<close>

text \<open>
  The specification of what \<open>destroy_context\<close> gives back. \<open>own_entry v ctx i t\<close>: entry \<open>i\<close> of the directory
  of \<open>ctx\<close> holds the table \<open>t\<close>, mapped for user space, and the kernel's directory holds something else there.
  \<open>shifted_word m t j\<close> is made of the top byte of entry \<open>j + 1\<close> and the low three bytes of entry \<open>j + 2\<close> of \<open>t\<close>.
\<close>

definition own_entry :: "vmm \<Rightarrow> u32 \<Rightarrow> nat \<Rightarrow> u32 \<Rightarrow> bool" where
  "own_entry v ctx i t \<longleftrightarrow> i < 1024 \<and> page_aligned t
     \<and> load32 (mem v) (entry (pagedir (mem v) ctx) i) = t OR 7
     \<and> load32 (mem v) (entry (pagedir (mem v) (kernel_context v)) i) \<noteq> t OR 7"

definition shifted_word :: "memory \<Rightarrow> u32 \<Rightarrow> nat \<Rightarrow> u32" where
  "shifted_word m t j = (drop_bit 24 (load32 m (entry t (j + 1))) OR push_bit 8 (load32 m (entry t (j + 2))))"

definition own_entries :: "vmm \<Rightarrow> u32 \<Rightarrow> bool" where
  "own_entries v ctx \<longleftrightarrow> (\<forall>i < 1024. load32 (mem v) (entry (pagedir (mem v) ctx) i) = 0
     \<or> load32 (mem v) (entry (pagedir (mem v) ctx) i) = load32 (mem v) (entry (pagedir (mem v) (kernel_context v)) i)
     \<or> (\<exists>t. own_entry v ctx i t))"

definition given_back :: "layout \<Rightarrow> vmm \<Rightarrow> u32 \<Rightarrow> u32 \<Rightarrow> bool" where
  "given_back L v ctx b \<longleftrightarrow> same_page b ctx \<or> same_page b (pagedir (mem v) ctx)
     \<or> (\<exists>i t. own_entry v ctx i t \<and> (same_page b t
          \<or> (\<exists>j < 1024. HEAP_END L < shifted_word (mem v) t j \<and> same_page b (shifted_word (mem v) t j))))"

lemma same_page_of_frame [simp]:
  "same_page b (frame_of w) \<longleftrightarrow> same_page b w" "same_page (frame_of w) b \<longleftrightarrow> same_page w b"
proof -
  have mask: "(0xFFF :: u32) = mask 12" by (simp add: mask_eq_exp_minus_1)
  have "bit (drop_bit 12 (frame_of w)) n \<longleftrightarrow> bit (drop_bit 12 w) n" if "n < 32" for n
    using that bit_imp_le_length [of w "12 + n"] by (auto simp: frame_of_def mask bit_simps)
  then have "drop_bit 12 (frame_of w) = drop_bit 12 w" by (intro bit_word_eqI) simp
  then have "frame_of w div 4096 = w div 4096" by (simp add: drop_bit_eq_div)
  then show "same_page b (frame_of w) \<longleftrightarrow> same_page b w" "same_page (frame_of w) b \<longleftrightarrow> same_page w b"
    by (simp_all add: same_page_def)
qed

lemma or_7_nonzero [simp]: "(t :: u32) OR 7 \<noteq> 0"
  by (simp add: or_eq_0_iff)

lemma table_of_entry: "page_aligned t \<Longrightarrow> (t OR 7) AND 0xFFFFFF00 = t"
proof -
  assume t: "page_aligned t"
  have mask: "(0xFFFFFF00 :: u32) = NOT (mask 8)" "(7 :: u32) = mask 3" by (simp_all add: mask_eq_exp_minus_1)
  show ?thesis
    unfolding mask by (rule bit_word_eqI) (use t in \<open>auto simp: bit_simps page_aligned_bits\<close>)
qed

lemma page_used_free_entries:
  "page_used (fold (free_table_entry L m e) js p) b \<longleftrightarrow>
     page_used p b \<and> \<not> (\<exists>j \<in> set js. HEAP_END L < load32 m (entry e j) \<and> same_page b (load32 m (entry e j)))"
proof (induction js arbitrary: p)
  case (Cons j js)
  have "HEAP_END L < w \<Longrightarrow> w \<noteq> 0" for w :: u32 by auto
  then have "page_used (free_table_entry L m e j p) b \<longleftrightarrow>
      page_used p b \<and> \<not> (HEAP_END L < load32 m (entry e j) \<and> same_page b (load32 m (entry e j)))"
    by (auto simp: free_table_entry_def Let_def same_page_sym [of b])
  then show ?case by (auto simp: Cons.IH)
qed simp

lemma page_or_7:
  assumes "page_aligned t"
  shows "t OR 7 = t + 7"
proof -
  have seven: "(7 :: u32) = mask 3" by (simp add: mask_eq_exp_minus_1)
  have "t AND 7 = 0"
    unfolding seven take_bit_eq_mask [symmetric]
    using assms by (intro bit_eqI) (simp add: bit_take_bit_iff page_aligned_bits)
  then show ?thesis using word_plus_and_or [of t 7] by simp
qed

lemma u8_bit_high: "8 \<le> n \<Longrightarrow> \<not> bit (w :: u8) n"
  using bit_imp_le_length [of w n] by auto

lemma u32_bit_high: "32 \<le> n \<Longrightarrow> \<not> bit (w :: u32) n"
  using bit_imp_le_length [of w n] by auto

lemma load32_byte:
  assumes "n < 8"
  shows "bit (load32 m a) n = bit (m a) n" "bit (load32 m a) (8 + n) = bit (m (a + 1)) n"
    "bit (load32 m a) (16 + n) = bit (m (a + 2)) n" "bit (load32 m a) (24 + n) = bit (m (a + 3)) n"
  using assms by (simp_all add: load32_def bit_simps u8_bit_high)

text \<open>A word read three bytes into an aligned word holds its last byte and the first three of the next.\<close>

lemma load32_shifted: "load32 m (a + 3) = (drop_bit 24 (load32 m a) OR push_bit 8 (load32 m (a + 4)))"
proof (rule bit_word_eqI)
  fix n assume "n < LENGTH(32)"
  define k where "k = n mod 8"
  have k: "k < 8" "n = n div 8 * 8 + k" by (simp_all add: k_def)
  have "n div 8 = 0 \<or> n div 8 = 1 \<or> n div 8 = 2 \<or> n div 8 = 3" using \<open>n < LENGTH(32)\<close> by auto
  with k have n: "n = k \<or> n = 8 + k \<or> n = 16 + k \<or> n = 24 + k" by auto
  note lo = load32_byte [OF k(1), of m "a + 3"] load32_byte [OF k(1), of m "a + 4"] load32_byte [OF k(1), of m a]
  show "bit (load32 m (a + 3)) n = bit (drop_bit 24 (load32 m a) OR push_bit 8 (load32 m (a + 4))) n"
    using n k(1) by (elim disjE) (simp_all add: bit_simps lo u32_bit_high, simp add: add.commute)
qed

lemma load32_table_word:
  assumes "page_aligned t"
  shows "load32 m (entry (t OR 7) j) = shifted_word m t j"
proof -
  have "entry (t OR 7) j = entry t (j + 1) + 3" "entry t (j + 2) = entry t (j + 1) + 4"
    by (simp_all add: entry_def page_or_7 [OF assms])
  then show ?thesis by (simp add: load32_shifted shifted_word_def)
qed

lemma free_directory_entry_own:
  assumes "own_entry v ctx i t" "kernel_context v \<noteq> 0"
  shows "\<exists>p'. free_directory_entry L (mem v) ctx (kernel_context v) i p = Inr p'
    \<and> (\<forall>b. page_used p' b \<longleftrightarrow> page_used p b \<and> \<not> same_page b t
        \<and> \<not> (\<exists>j < 1024. HEAP_END L < shifted_word (mem v) t j \<and> same_page b (shifted_word (mem v) t j)))"
proof -
  have t: "page_aligned t" and e: "load32 (mem v) (entry (pagedir (mem v) ctx) i) = t OR 7"
    "load32 (mem v) (entry (pagedir (mem v) (kernel_context v)) i) \<noteq> t OR 7"
    using assms(1) by (simp_all add: own_entry_def)
  have "free_directory_entry L (mem v) ctx (kernel_context v) i p =
      Inr (pmm_free t (fold (free_table_entry L (mem v) (t OR 7)) [0..<1024] p))"
    using e assms(2) by (auto simp: free_directory_entry_def Let_def table_of_entry [OF t])
  then show ?thesis
    by (auto simp: page_used_free_entries load32_table_word [OF t] same_page_sym [of t])
qed

lemma free_directory_entry_shared:
  assumes "load32 m (entry (pagedir m ctx) i) = 0
      \<or> load32 m (entry (pagedir m ctx) i) = load32 m (entry (pagedir m k) i) \<and> k \<noteq> 0"
  shows "free_directory_entry L m ctx k i p = Inr p"
  using assms by (auto simp: free_directory_entry_def Let_def)

lemma free_directory_entries:
  assumes own: "own_entries v ctx" and k: "kernel_context v \<noteq> 0" and ks: "\<forall>i \<in> set ks. i < 1024"
  shows "\<exists>p'. foldE (free_directory_entry L (mem v) ctx (kernel_context v)) ks p = Inr p'
    \<and> (\<forall>b. page_used p' b \<longleftrightarrow> page_used p b \<and> \<not> (\<exists>i \<in> set ks. \<exists>t. own_entry v ctx i t \<and> (same_page b t
          \<or> (\<exists>j < 1024. HEAP_END L < shifted_word (mem v) t j \<and> same_page b (shifted_word (mem v) t j)))))"
  using ks
proof (induction ks arbitrary: p)
  case (Cons i ks)
  show ?case
  proof (cases "\<exists>t. own_entry v ctx i t")
    case True
    then obtain t where t: "own_entry v ctx i t" by blast
    have uniq: "own_entry v ctx i s \<longleftrightarrow> s = t" for s
      using t table_of_entry unfolding own_entry_def by metis
    obtain p1 where p1: "free_directory_entry L (mem v) ctx (kernel_context v) i p = Inr p1"
      "\<And>b. page_used p1 b \<longleftrightarrow> page_used p b \<and> \<not> same_page b t
        \<and> \<not> (\<exists>j < 1024. HEAP_END L < shifted_word (mem v) t j \<and> same_page b (shifted_word (mem v) t j))"
      using free_directory_entry_own [OF t k] by blast
    from Cons.IH [of p1] Cons.prems p1 show ?thesis by (fastforce simp: uniq)
  next
    case False
    then have "free_directory_entry L (mem v) ctx (kernel_context v) i p = Inr p" for p
      using own Cons.prems k by (intro free_directory_entry_shared) (auto simp: own_entries_def)
    with Cons.IH [of p] Cons.prems False show ?thesis by auto
  qed
qed simp

lemma destroy_context_frees:
  assumes "own_entries v ctx" "ctx \<noteq> 0" "ctx \<noteq> kernel_context v" "kernel_context v \<noteq> 0"
  shows "\<exists>p'. destroy_context L ctx v = Inr (v\<lparr>pm := p'\<rparr>)
    \<and> (\<forall>b. page_used p' b \<longleftrightarrow> page_used (pm v) b \<and> \<not> given_back L v ctx b)"
proof -
  obtain p1 where p1: "foldE (free_directory_entry L (mem v) ctx (kernel_context v)) [0..<1024] (pm v) = Inr p1"
    "\<And>b. page_used p1 b \<longleftrightarrow> page_used (pm v) b \<and> \<not> (\<exists>i \<in> set [0..<1024]. \<exists>t. own_entry v ctx i t \<and> (same_page b t
          \<or> (\<exists>j < 1024. HEAP_END L < shifted_word (mem v) t j \<and> same_page b (shifted_word (mem v) t j))))"
    using free_directory_entries [OF assms(1,4), of "[0..<1024]" L "pm v"] by auto
  have index: "own_entry v ctx i t \<Longrightarrow> i \<in> set [0..<1024]" for i t by (simp add: own_entry_def)
  let ?p = "pmm_free ctx (pmm_free (pagedir (mem v) ctx) p1)"
  have "page_used ?p b \<longleftrightarrow> page_used (pm v) b \<and> \<not> given_back L v ctx b" for b
    unfolding given_back_def page_used_free p1(2) same_page_sym [of ctx b] same_page_sym [of "pagedir (mem v) ctx" b]
    using index by blast
  moreover have "destroy_context L ctx v = Inr (v\<lparr>pm := ?p\<rparr>)"
    using p1(1) assms(2,3) by (simp add: destroy_context_def del: upt_Suc set_upt)
  ultimately show ?thesis by blast
qed

lemma destroy_shared_tables:
  assumes "\<And>i. i < 1024 \<Longrightarrow>
      load32 (mem v) (entry (pagedir (mem v) ctx) i) = load32 (mem v) (entry (pagedir (mem v) (kernel_context v)) i)"
    and "ctx \<noteq> 0" "ctx \<noteq> kernel_context v" "kernel_context v \<noteq> 0"
  shows "\<exists>p'. destroy_context L ctx v = Inr (v\<lparr>pm := p'\<rparr>)
    \<and> (\<forall>b. page_used p' b \<longleftrightarrow> page_used (pm v) b \<and> \<not> same_page b ctx \<and> \<not> same_page b (pagedir (mem v) ctx))"
proof -
  have "own_entries v ctx" using assms(1) by (simp add: own_entries_def)
  moreover have "\<not> own_entry v ctx i t" for i t using assms(1) [of i] by (auto simp: own_entry_def)
  ultimately show ?thesis using destroy_context_frees [of v ctx L] assms(2-4) by (auto simp: given_back_def)
qed

text \<open>
  Destroying a user context that has had nothing mapped gives back exactly what creating it took:
  afterwards the same pages are in use as before \<open>CreateUsermodeContext\<close>, and the kernel's
  translations are untouched.
\<close>

theorem usermode_context_roundtrip:
  assumes "layout_ok L" "context_ok v (kernel_context v)" "CreateUsermodeContext L w v = Inr (ctx, v1)"
  shows "\<exists>v'. destroy_context L ctx v1 = Inr v' \<and> (\<forall>b. page_used (pm v') b \<longleftrightarrow> page_used (pm v) b)
    \<and> (\<forall>a. walk_context v' (kernel_context v) a = walk_context v (kernel_context v) a)"
proof -
  note u = usermode_context_effect [OF assms]
  have "ctx \<noteq> 0" using context_okD(2) [OF u(7)] .
  then obtain p' where destroy: "destroy_context L ctx v1 = Inr (v1\<lparr>pm := p'\<rparr>)"
      "\<And>b. page_used p' b \<longleftrightarrow> page_used (pm v1) b \<and> \<not> same_page b ctx \<and> \<not> same_page b (pagedir (mem v1) ctx)"
    using u(1,4-6) destroy_shared_tables [of v1 ctx L] by auto
  have fresh: "\<not> page_used (pm v) b" if "same_page ctx b \<or> same_page (pagedir (mem v1) ctx) b" for b
    using that u(3,11) page_used_same by blast
  show ?thesis
    using destroy u(2,10) fresh by (auto simp: walk_context_def same_page_sym [of ctx] same_page_sym [of "pagedir (mem v1) ctx"])
qed

lemma example_usermode_context:
  "\<exists>ctx v'. CreateUsermodeContext example_layout 1 example_vmm = Inr (ctx, v')"
proof -
  obtain ctx v1 where create: "create_context example_layout example_vmm = Inr (ctx, v1)"
    using example_create_context by blast
  have "kernel_context v1 = 0x160000"
    by (rule create_context_effect [OF example_layout_ok create]) (simp add: example_vmm_def)
  with create show ?thesis by (simp add: CreateUsermodeContext_def)
qed

theorem usermode_context_roundtrip_witness:
  "\<exists>ctx v1 v'. CreateUsermodeContext example_layout 1 example_vmm = Inr (ctx, v1)
     \<and> destroy_context example_layout ctx v1 = Inr v' \<and> \<not> page_used (pm v') 0x150000"
proof -
  have k: "context_ok example_vmm (kernel_context example_vmm)"
    using example_context_ok by (simp add: example_vmm_def)
  obtain ctx v1 where "CreateUsermodeContext example_layout 1 example_vmm = Inr (ctx, v1)"
    using example_usermode_context by blast
  with usermode_context_roundtrip [OF example_layout_ok k this] example_pool_free show ?thesis by auto
qed

text \<open>
  C30: Destroying a context returns, changes nothing but the bitmap of pages, and gives back exactly this: the
  context, its directory, each page table of its own, and, for each of these tables \<open>t\<close> and each of 1024
  positions, the page named by a word above the heap's end that straddles two of its entries: the top byte of
  entry \<open>j + 1\<close> and the low three bytes of entry \<open>j + 2\<close>. The directory entry \<open>t OR 7\<close> is taken for the address
  of the table, flag bits included, so the frames that the table maps are not what is freed.
\<close>

theorem destroy_context_reads_shifted:
  assumes "own_entries v ctx" "ctx \<noteq> 0" "ctx \<noteq> kernel_context v" "kernel_context v \<noteq> 0"
  shows "\<exists>p'. destroy_context L ctx v = Inr (v\<lparr>pm := p'\<rparr>)
    \<and> (\<forall>b. page_used p' b \<longleftrightarrow> page_used (pm v) b \<and> \<not> given_back L v ctx b)"
  by (rule destroy_context_frees [OF assms])

text \<open>
  A process whose table maps frame \<open>0x2345000\<close> is destroyed: the frame stays in use, and page \<open>0x34500000\<close>
  is freed.
\<close>

definition example_mapped :: vmm where
  "example_mapped = example_vmm\<lparr>pm := use 0x34500000 (use 0x2345000 (pm example_vmm)),
     mem := store32 (store32 (store32 (store32 (\<lambda>_. 0) (entry 0x160000 0) 0x161000) (entry 0x170000 0) 0x171000)
       (entry 0x171000 512) 0x172007) (entry 0x172000 2) 0x2345007\<rparr>"

lemma example_mapped_words:
  assumes "page_aligned t" "i < 1024"
  shows "load32 (mem example_mapped) (entry t i) =
    (if t = 0x172000 \<and> i = 2 then 0x2345007 else if t = 0x171000 \<and> i = 512 then 0x172007
     else if t = 0x170000 \<and> i = 0 then 0x171000 else if t = 0x160000 \<and> i = 0 then 0x161000 else 0)"
  using assms by (auto simp: example_mapped_def load_entry_store) (auto simp: load32_def)

theorem destroy_context_reads_shifted_witness:
  "\<exists>v'. destroy_context example_layout 0x170000 example_mapped = Inr v'
     \<and> page_used (pm example_mapped) 0x34500000 \<and> page_used (pm v') 0x2345000 \<and> \<not> page_used (pm v') 0x34500000"
proof -
  note word = example_mapped_words [unfolded One_nat_def]
  have pd: "pagedir (mem example_mapped) 0x170000 = 0x171000" "pagedir (mem example_mapped) 0x160000 = 0x161000"
    "kernel_context example_mapped = 0x160000"
    using word [of "0x170000" 0] word [of "0x160000" 0]
    by (simp_all add: pagedir_def entry_def example_mapped_def example_vmm_def)
  have own: "own_entry example_mapped 0x170000 i t \<longleftrightarrow> i = 512 \<and> t = 0x172000" for i t
  proof
    assume e: "own_entry example_mapped 0x170000 i t"
    then have "i = 512" "t OR 7 = 0x172007" unfolding own_entry_def pd by (auto simp: word split: if_splits)
    moreover have "page_aligned t" using e by (simp add: own_entry_def)
    ultimately show "i = 512 \<and> t = 0x172000" using table_of_entry [of t] by simp
  qed (simp add: own_entry_def pd word)
  have entries: "own_entries example_mapped 0x170000" unfolding own_entries_def own pd by (simp add: word)
  have table: "load32 (mem example_mapped) (entry 0x172000 i) = (if i = 2 then 0x2345007 else 0)" if "i < 1026" for i
  proof (cases "i < 1024")
    case False
    with that have "i = 1024 \<or> i = 1025" by auto
    then have "entry 0x172000 i = entry 0x173000 (i - 1024)" by (auto simp: entry_def)
    with False that show ?thesis using word [of "0x173000" "i - 1024"] by simp
  qed (simp add: word)
  have shifted: "shifted_word (mem example_mapped) 0x172000 j = (if j = 0 then 0x34500700 else if j = 1 then 2 else 0)"
    if "j < 1024" for j
    using that table [of "j + 1"] table [of "j + 2"] by (simp add: shifted_word_def)
  have word_freed: "(\<exists>j < 1024. 0x1750000 < shifted_word (mem example_mapped) 0x172000 j
      \<and> same_page b (shifted_word (mem example_mapped) 0x172000 j)) \<longleftrightarrow> same_page b 0x34500700" for b
    using shifted [of 0] by (auto simp: shifted split: if_splits intro!: exI [of _ 0])
  have freed: "given_back example_layout example_mapped 0x170000 b \<longleftrightarrow> same_page b 0x170000
      \<or> same_page b 0x171000 \<or> same_page b 0x172000 \<or> same_page b 0x34500700" for b
    using word_freed by (auto simp: given_back_def own pd)
  from destroy_context_reads_shifted [OF entries, of example_layout] obtain p' where
    "destroy_context example_layout 0x170000 example_mapped = Inr (example_mapped\<lparr>pm := p'\<rparr>)"
    "\<And>b. page_used p' b \<longleftrightarrow> page_used (pm example_mapped) b \<and> \<not> given_back example_layout example_mapped 0x170000 b"
    unfolding pd by auto
  moreover have "page_used (pm example_mapped) 0x2345000" "page_used (pm example_mapped) 0x34500000"
    by (simp_all add: example_mapped_def)
  ultimately show ?thesis
    by (intro exI [of _ "example_mapped\<lparr>pm := p'\<rparr>"]) (simp add: freed same_page_def)
qed

end
