(* ===== verification/Kheap.thy ===== *)
theory Kheap
  imports Layout
begin

text \<open>
  The kernel heap, \<open>hal.x86/heap.c\<close>: a first-fit allocator over a singly linked list of blocks, each
  with a 16-byte header. The block list as its abstraction, the invariant that the blocks lie next to
  each other, the functional behaviour of \<open>kmalloc\<close> and \<open>kfree\<close> over the block list, and the contract
  other components rely on.
\<close>

section \<open>State and operations\<close>

text \<open>
  A header is a \<open>node_t\<close>. The heap's memory is seen through the addresses of its headers: \<open>nodes h a\<close>
  is the header the bytes at \<open>a\<close> hold, for every \<open>a\<close>, valid or not.
\<close>

record node_t =
  nd_magic :: u32
  nd_free :: u32
  nd_size :: u32
  nd_next :: u32

record kheap =
  nodes :: "u32 \<Rightarrow> node_t"

abbreviation HEADERSIZE :: u32 where "HEADERSIZE \<equiv> 16"
abbreviation MAGIC :: u32 where "MAGIC \<equiv> 0xCAFEBABE"

definition HEADER_START :: "u32 \<Rightarrow> u32" where
  "HEADER_START x = x - HEADERSIZE"

definition BLOCK_START :: "u32 \<Rightarrow> u32" where
  "BLOCK_START x = x + HEADERSIZE"

definition NEXT_BLOCK :: "kheap \<Rightarrow> u32 \<Rightarrow> u32" where
  "NEXT_BLOCK h x = BLOCK_START x + nd_size (nodes h x)"

definition upd_node :: "u32 \<Rightarrow> (node_t \<Rightarrow> node_t) \<Rightarrow> kheap \<Rightarrow> kheap" where
  "upd_node a f h = h\<lparr>nodes := (nodes h)(a := f (nodes h a))\<rparr>"

text \<open>
  \<open>kcreateBlock\<close> returns \<open>NULL\<close> for a null parent or a size of 0. Otherwise it links a new header
  behind the parent's block; only the new header's address is checked against the end of the heap.
\<close>

definition kcreateBlock :: "layout \<Rightarrow> u32 \<Rightarrow> u32 \<Rightarrow> kheap \<Rightarrow> kerror + u32 \<times> kheap" where
  "kcreateBlock L parent sz h =
     (if parent = 0 \<or> sz = 0 then Inr (0, h)
      else
        let nx = NEXT_BLOCK h parent; h1 = upd_node parent (nd_next_update (\<lambda>_. nx)) h in
        bindE (assertE (nx < HEAP_END L) ''(uintptr_t) parent->next < HEAP_END'') (\<lambda>_.
        bindE (derefE nx) (\<lambda>_.
        Inr (nx, upd_node nx (\<lambda>n. n\<lparr>nd_size := sz, nd_next := 0, nd_free := 1, nd_magic := MAGIC\<rparr>) h1))))"

text \<open>
  The loop of \<open>kmalloc\<close>: it stops at the first free block that is large enough, or hands back the
  last block it saw. A chain of headers with a cycle keeps it going for ever.
\<close>

datatype walk_result = Fits u32 | Past_Last u32

partial_function (option) kmalloc_walk ::
  "layout \<Rightarrow> kheap \<Rightarrow> u32 \<Rightarrow> u32 \<Rightarrow> u32 \<Rightarrow> (kerror + walk_result) option" where
  "kmalloc_walk L h sz node prev =
     (if node = 0 then Some (Inr (Past_Last prev))
      else if \<not> node < HEAP_END L then Some (Inl (Assert_Failed ''(uintptr_t) node < HEAP_END''))
      else if nd_magic (nodes h node) \<noteq> MAGIC then Some (Inl (Assert_Failed ''node->magic == MAGIC''))
      else if sz \<le> nd_size (nodes h node) \<and> nd_free (nodes h node) = 1 then Some (Inr (Fits node))
      else kmalloc_walk L h sz (nd_next (nodes h node)) node)"

definition kmalloc :: "layout \<Rightarrow> u32 \<Rightarrow> kheap \<Rightarrow> kerror + u32 \<times> kheap" where
  "kmalloc L sz h =
     (let root = HEAP_START L in
      bindE (returned (kmalloc_walk L h sz root root)) (\<lambda>r.
      case r of
        Fits node \<Rightarrow> Inr (BLOCK_START node, upd_node node (nd_free_update (\<lambda>_. 0)) h)
      | Past_Last prev \<Rightarrow>
          bindE (kcreateBlock L prev sz h) (\<lambda>(node, h').
          bindE (derefE node) (\<lambda>_.
          Inr (BLOCK_START node, upd_node node (nd_free_update (\<lambda>_. 0)) h')))))"

definition kfree :: "layout \<Rightarrow> u32 \<Rightarrow> kheap \<Rightarrow> kerror + kheap" where
  "kfree L addr h =
     (if addr = 0 then Inr h
      else
        bindE (assertE (addr < HEAP_END L) ''(uintptr_t) addr < HEAP_END'') (\<lambda>_.
        let node = HEADER_START addr in
        bindE (derefE node) (\<lambda>_.
        bindE (assertE (nd_magic (nodes h node) = MAGIC) ''node->magic == MAGIC'') (\<lambda>_.
        Inr (upd_node node (nd_free_update (\<lambda>_. 1)) h)))))"

definition kinit_heap :: "layout \<Rightarrow> kheap \<Rightarrow> kheap" where
  "kinit_heap L h =
     upd_node (HEAP_START L) (\<lambda>n. n\<lparr>nd_size := 0, nd_next := 0, nd_free := 1, nd_magic := MAGIC\<rparr>) h"

text \<open>The boot-time self test of \<open>init.c\<close>; the result is the C function's, 0 for success.\<close>

definition selfTest :: "layout \<Rightarrow> kheap \<Rightarrow> kerror + u32 \<times> kheap" where
  "selfTest L h =
     bindE (kmalloc L 15 h) (\<lambda>(p1, h).
     bindE (kmalloc L 12 h) (\<lambda>(p2, h).
     bindE (kfree L p1 h) (\<lambda>h.
     bindE (kfree L p2 h) (\<lambda>h.
     bindE (kmalloc L 15 h) (\<lambda>(p3, h).
     bindE (kmalloc L 12 h) (\<lambda>(p4, h).
     if p3 \<noteq> p1 \<or> p2 \<noteq> p4 then Inr (1, h)
     else
       bindE (kfree L p1 h) (\<lambda>h.
       bindE (kfree L p2 h) (\<lambda>h.
       Inr (0, h)))))))))"

section \<open>The chain of blocks\<close>

fun chain :: "kheap \<Rightarrow> u32 \<Rightarrow> u32 list \<Rightarrow> bool" where
  "chain h a [] \<longleftrightarrow> a = 0"
| "chain h a (n # ns) \<longleftrightarrow> a = n \<and> n \<noteq> 0 \<and> chain h (nd_next (nodes h n)) ns"

definition block_end :: "kheap \<Rightarrow> u32 \<Rightarrow> nat" where
  "block_end h n = unat n + 16 + unat (nd_size (nodes h n))"

definition good_node :: "layout \<Rightarrow> kheap \<Rightarrow> u32 \<Rightarrow> bool" where
  "good_node L h n \<longleftrightarrow> HEAP_START L \<le> n \<and> n < HEAP_END L \<and> nd_magic (nodes h n) = MAGIC
     \<and> (nd_free (nodes h n) = 0 \<or> nd_free (nodes h n) = 1) \<and> block_end h n < 4294967296"

definition heap_inv :: "layout \<Rightarrow> kheap \<Rightarrow> u32 list \<Rightarrow> bool" where
  "heap_inv L h ns \<longleftrightarrow> layout_ok L \<and> ns \<noteq> [] \<and> chain h (HEAP_START L) ns
     \<and> successively (\<lambda>m n. block_end h m = unat n) ns \<and> (\<forall>n \<in> set ns. good_node L h n)"

text \<open>
  Requests above 2 GB are outside the invariant: \<open>kmalloc\<close> accepts them, and the block's end then
  leaves the address space.
\<close>

definition request_ok :: "u32 \<Rightarrow> bool" where
  "request_ok sz \<longleftrightarrow> sz \<le> 0x80000000"

definition fits :: "kheap \<Rightarrow> u32 \<Rightarrow> u32 \<Rightarrow> bool" where
  "fits h sz n \<longleftrightarrow> sz \<le> nd_size (nodes h n) \<and> nd_free (nodes h n) = 1"

lemma heap_invD:
  assumes "heap_inv L h ns"
  shows "layout_ok L" "ns \<noteq> []" "chain h (HEAP_START L) ns" "n \<in> set ns \<Longrightarrow> good_node L h n"
    "successively (\<lambda>m n. block_end h m = unat n) ns"
  using assms by (auto simp: heap_inv_def)

lemma chain_nonzero: "chain h a ns \<Longrightarrow> n \<in> set ns \<Longrightarrow> n \<noteq> 0"
  by (induction ns arbitrary: a) auto

lemma chain_hd: "chain h a ns \<Longrightarrow> ns \<noteq> [] \<Longrightarrow> hd ns = a"
  by (cases ns) auto

lemma chain_upd:
  "\<lbrakk>\<And>x. nd_next (f x) = nd_next x\<rbrakk> \<Longrightarrow> chain (upd_node m f h) a ns \<longleftrightarrow> chain h a ns"
  by (induction ns arbitrary: a) (auto simp: upd_node_def)

lemma chain_upd_other: "m \<notin> set ns \<Longrightarrow> chain (upd_node m f h) a ns \<longleftrightarrow> chain h a ns"
  by (induction ns arbitrary: a) (auto simp: upd_node_def)

lemma chain_snoc:
  assumes "chain h a ns" "ns \<noteq> []" "distinct ns" "nx \<noteq> 0" "nx \<notin> set ns" "nd_next nn = 0"
  shows "chain (upd_node nx (\<lambda>_. nn) (upd_node (last ns) (nd_next_update (\<lambda>_. nx)) h)) a (ns @ [nx])"
  using assms
proof (induction ns arbitrary: a)
  case (Cons n ns)
  then show ?case by (cases "ns = []") (auto simp: upd_node_def)
qed simp

lemma block_end_gt: "unat n < block_end h n"
  by (simp add: block_end_def)

lemma heap_ordered:
  assumes "heap_inv L h ns"
  shows "sorted_wrt (\<lambda>m n. block_end h m \<le> unat n) ns"
proof -
  have "transp (\<lambda>m n. block_end h m \<le> unat n)"
    by (rule transpI) (use block_end_gt [of _ h] in \<open>meson le_trans less_imp_le\<close>)
  moreover have "successively (\<lambda>m n. block_end h m \<le> unat n) ns"
    using heap_invD(5) [OF assms] by (rule successively_mono) simp
  ultimately show ?thesis by (simp add: successively_conv_sorted_wrt)
qed

lemma heap_distinct:
  assumes "heap_inv L h ns"
  shows "distinct ns"
proof -
  have "sorted_wrt (\<lambda>m n. m \<noteq> n) ns"
    using heap_ordered [OF assms]
    by (rule sorted_wrt_mono_rel [rotated]) (use block_end_gt [of _ h] leD in blast)
  then show ?thesis by (induction ns) auto
qed

lemma kmalloc_walk_chain:
  assumes "chain h a ns" "\<forall>n \<in> set ns. good_node L h n"
  shows "kmalloc_walk L h sz a prev =
    Some (Inr (case find (fits h sz) ns of Some n \<Rightarrow> Fits n | None \<Rightarrow> Past_Last (last (prev # ns))))"
  using assms
proof (induction ns arbitrary: a prev)
  case Nil
  then show ?case by (simp add: kmalloc_walk.simps)
next
  case (Cons n ns)
  then have "a = n" "n \<noteq> 0" "good_node L h n" by auto
  with Cons show ?case
    by (auto simp: kmalloc_walk.simps [of L h sz n] fits_def good_node_def split: option.split)
qed

section \<open>Behaviour of the operations\<close>

lemma find_in_set: "find P xs = Some x \<Longrightarrow> x \<in> set xs \<and> P x"
  by (auto simp: find_Some_iff)

lemma heap_last:
  assumes "heap_inv L h ns"
  shows "good_node L h (last ns)" "last ns \<noteq> 0" "unat (NEXT_BLOCK h (last ns)) = block_end h (last ns)"
    "\<forall>n \<in> set ns. unat n < block_end h (last ns)"
proof -
  have last: "last ns \<in> set ns" using heap_invD(2) [OF assms] by simp
  then show good: "good_node L h (last ns)" and "last ns \<noteq> 0"
    using heap_invD(4) [OF assms] chain_nonzero heap_invD(3) [OF assms] by blast+
  then show "unat (NEXT_BLOCK h (last ns)) = block_end h (last ns)"
    by (simp add: NEXT_BLOCK_def BLOCK_START_def good_node_def block_end_def unat_word_ariths)
  have split: "ns = butlast ns @ [last ns]" using heap_invD(2) [OF assms] by simp
  then have before: "\<forall>m \<in> set (butlast ns). block_end h m \<le> unat (last ns)"
    using heap_ordered [OF assms] sorted_wrt_append [of _ "butlast ns" "[last ns]"] by simp
  have "unat n \<le> unat (last ns)" if "n \<in> set ns" for n
  proof (cases "n = last ns")
    case False
    have "n \<in> set (butlast ns @ [last ns])" using that split by simp
    with False before block_end_gt [of n h] show ?thesis by (auto dest: bspec)
  qed simp
  then show "\<forall>n \<in> set ns. unat n < block_end h (last ns)"
    using block_end_gt le_less_trans by blast
qed

text \<open>The whole behaviour of \<open>kmalloc\<close> on a well-formed heap.\<close>

definition appended :: "u32 \<Rightarrow> u32 \<Rightarrow> u32 \<Rightarrow> kheap \<Rightarrow> kheap" where
  "appended prev nx sz h =
     upd_node nx (\<lambda>_. \<lparr>nd_magic = MAGIC, nd_free = 0, nd_size = sz, nd_next = 0\<rparr>)
       (upd_node prev (nd_next_update (\<lambda>_. nx)) h)"

lemma fresh_node:
  "(n :: node_t)\<lparr>nd_size := sz, nd_next := 0, nd_magic := m, nd_free := f\<rparr>
     = \<lparr>nd_magic = m, nd_free = f, nd_size = sz, nd_next = 0\<rparr>"
  by (cases n) simp

lemma kmalloc_eq:
  assumes "heap_inv L h ns"
  shows "kmalloc L sz h =
    (case find (fits h sz) ns of
       Some n \<Rightarrow> Inr (BLOCK_START n, upd_node n (nd_free_update (\<lambda>_. 0)) h)
     | None \<Rightarrow>
         if sz = 0 then Inl Null_Deref
         else if NEXT_BLOCK h (last ns) < HEAP_END L
         then Inr (BLOCK_START (NEXT_BLOCK h (last ns)), appended (last ns) (NEXT_BLOCK h (last ns)) sz h)
         else Inl (Assert_Failed ''(uintptr_t) parent->next < HEAP_END''))"
proof -
  have walk: "kmalloc_walk L h sz (HEAP_START L) (HEAP_START L) =
      Some (Inr (case find (fits h sz) ns of Some n \<Rightarrow> Fits n | None \<Rightarrow> Past_Last (last ns)))"
    using kmalloc_walk_chain [of h "HEAP_START L" ns L sz] heap_invD [OF assms]
    by (auto split: option.split)
  have nx: "NEXT_BLOCK h (last ns) \<noteq> 0"
    using heap_last(3) [OF assms] block_end_gt [of "last ns" h] by auto
  show ?thesis
  proof (cases "find (fits h sz) ns")
    case None
    with walk nx heap_last(2) [OF assms] show ?thesis
      by (auto simp: kmalloc_def kcreateBlock_def Let_def appended_def upd_node_def fresh_node)
  next
    case (Some n)
    with walk show ?thesis by (simp add: kmalloc_def)
  qed
qed

lemma heap_inv_upd_free:
  assumes "heap_inv L h ns" "v = 0 \<or> v = 1"
  shows "heap_inv L (upd_node n (nd_free_update (\<lambda>_. v)) h) ns"
proof -
  let ?h = "upd_node n (nd_free_update (\<lambda>_. v)) h"
  have "block_end ?h = block_end h" by (rule ext) (simp add: block_end_def upd_node_def)
  moreover have "good_node L ?h m" if "good_node L h m" for m
    using that assms(2) by (auto simp: good_node_def block_end_def upd_node_def)
  ultimately show ?thesis using assms by (simp add: heap_inv_def chain_upd)
qed

lemma heap_inv_appended:
  assumes "heap_inv L h ns" "NEXT_BLOCK h (last ns) < HEAP_END L" "request_ok sz"
  shows "heap_inv L (appended (last ns) (NEXT_BLOCK h (last ns)) sz h) (ns @ [NEXT_BLOCK h (last ns)])"
proof -
  let ?nx = "NEXT_BLOCK h (last ns)"
  let ?h = "appended (last ns) ?nx sz h"
  note last = heap_last [OF assms(1)]
  note layout = layout_unat [OF heap_invD(1) [OF assms(1)]]
  have fresh: "?nx \<notin> set ns" "?nx \<noteq> 0"
    using last(3,4) block_end_gt [of "last ns" h] by auto
  have ends: "block_end ?h m = block_end h m" if "m \<in> set ns" for m
    using that fresh by (auto simp: block_end_def appended_def upd_node_def)
  have good: "good_node L ?h m" if "m \<in> set ns" for m
  proof -
    have "m \<noteq> ?nx" using that fresh by auto
    moreover have "good_node L h m" using that heap_invD(4) [OF assms(1)] by blast
    ultimately show ?thesis
      by (auto simp: good_node_def block_end_def appended_def upd_node_def)
  qed
  have "unat sz \<le> 0x80000000" using assms(3) by (simp add: request_ok_def word_le_nat_alt)
  moreover have "unat ?nx < unat (HEAP_END L)" using assms(2) by (simp add: word_less_nat_alt)
  ultimately have "block_end ?h ?nx < 4294967296"
    using layout by (simp add: block_end_def appended_def upd_node_def)
  moreover have "HEAP_START L \<le> ?nx"
    using last(1,3) block_end_gt [of "last ns" h] by (simp add: good_node_def word_le_nat_alt)
  ultimately have good_nx: "good_node L ?h ?nx"
    using assms(2) by (simp add: good_node_def appended_def upd_node_def)
  have "successively (\<lambda>m n. block_end ?h m = unat n) ns \<longleftrightarrow> successively (\<lambda>m n. block_end h m = unat n) ns"
    using fresh ends by (intro successively_cong refl) auto
  then have adj: "successively (\<lambda>m n. block_end ?h m = unat n) (ns @ [?nx])"
    using heap_invD(2,5) [OF assms(1)] last(3) fresh ends
    by (auto simp: successively_append_iff)
  have "chain ?h (HEAP_START L) (ns @ [?nx])"
    unfolding appended_def
    using chain_snoc heap_invD [OF assms(1)] heap_distinct [OF assms(1)] fresh by simp
  with adj good good_nx heap_invD(1) [OF assms(1)] show ?thesis by (simp add: heap_inv_def)
qed

lemma heap_inv_kmalloc:
  assumes "heap_inv L h ns" "request_ok sz" "kmalloc L sz h = Inr (p, h')"
  obtains (reused) n where "find (fits h sz) ns = Some n" "p = BLOCK_START n"
      "h' = upd_node n (nd_free_update (\<lambda>_. 0)) h" "heap_inv L h' ns"
  | (grown) nx where "find (fits h sz) ns = None" "sz \<noteq> 0" "nx = NEXT_BLOCK h (last ns)"
      "nx < HEAP_END L" "p = BLOCK_START nx" "h' = appended (last ns) nx sz h" "heap_inv L h' (ns @ [nx])"
proof (cases "find (fits h sz) ns")
  case None
  then show ?thesis
    using assms heap_inv_appended grown by (auto simp: kmalloc_eq [OF assms(1)] split: if_splits)
next
  case (Some n)
  then show ?thesis
    using assms heap_inv_upd_free reused by (auto simp: kmalloc_eq [OF assms(1)])
qed

lemma unat_BLOCK_START:
  assumes "good_node L h n"
  shows "unat (BLOCK_START n) = unat n + 16"
  using assms by (simp add: good_node_def BLOCK_START_def block_end_def unat_word_ariths)

lemma BLOCK_START_nonzero: "good_node L h n \<Longrightarrow> BLOCK_START n \<noteq> 0"
  using unat_BLOCK_START by fastforce

lemma HEADER_BLOCK [simp]: "HEADER_START (BLOCK_START n) = n"
  by (simp add: HEADER_START_def BLOCK_START_def)

section \<open>The abstract heap: a list of blocks\<close>

text \<open>A block is the address of its data, its size and whether it is free.\<close>

type_synonym block = "nat \<times> nat \<times> bool"

definition block_of :: "kheap \<Rightarrow> u32 \<Rightarrow> block" where
  "block_of h n = (unat n + 16, unat (nd_size (nodes h n)), nd_free (nodes h n) = 1)"

definition blocks :: "kheap \<Rightarrow> u32 list \<Rightarrow> block list" where
  "blocks h ns = map (block_of h) ns"

lemma blocks_simps [simp]:
  "blocks h [] = []" "blocks h (n # ns) = block_of h n # blocks h ns"
  "blocks h (ns @ ms) = blocks h ns @ blocks h ms"
  by (simp_all add: blocks_def)

lemma block_of_upd_other: "m \<noteq> n \<Longrightarrow> block_of (upd_node n f h) m = block_of h m"
  by (simp add: block_of_def upd_node_def)

lemma block_of_upd_free:
  "block_of (upd_node n (nd_free_update (\<lambda>_. v)) h) n = (unat n + 16, unat (nd_size (nodes h n)), v = 1)"
  by (simp add: block_of_def upd_node_def)

lemma blocks_upd_other: "n \<notin> set ns \<Longrightarrow> blocks (upd_node n f h) ns = blocks h ns"
  by (auto simp: blocks_def intro!: block_of_upd_other)

fun first_fit :: "nat \<Rightarrow> block list \<Rightarrow> (nat \<times> block list) option" where
  "first_fit sz [] = None"
| "first_fit sz ((a, s, free) # bs) =
     (if sz \<le> s \<and> free then Some (a, (a, s, False) # bs)
      else map_option (\<lambda>(b, bs'). (b, (a, s, free) # bs')) (first_fit sz bs))"

definition spec_malloc :: "nat \<Rightarrow> nat \<Rightarrow> block list \<Rightarrow> (nat \<times> block list) option" where
  "spec_malloc limit sz bs =
     (case first_fit sz bs of
        Some r \<Rightarrow> Some r
      | None \<Rightarrow>
          let (a, s, _) = last bs
          in if 0 < sz \<and> a + s < limit then Some (a + s + 16, bs @ [(a + s + 16, sz, False)]) else None)"

definition spec_free :: "nat \<Rightarrow> block list \<Rightarrow> block list" where
  "spec_free p bs = map (\<lambda>(a, s, free). (a, s, free \<or> a = p)) bs"

lemma first_fit_blocks:
  assumes "distinct ns"
  shows "first_fit (unat sz) (blocks h ns) =
    map_option (\<lambda>n. (unat n + 16, blocks (upd_node n (nd_free_update (\<lambda>_. 0)) h) ns)) (find (fits h sz) ns)"
  using assms
proof (induction ns)
  case (Cons n ns)
  show ?case
  proof (cases "fits h sz n")
    case True
    then have "first_fit (unat sz) (blocks h (n # ns)) =
        Some (unat n + 16, (unat n + 16, unat (nd_size (nodes h n)), False) # blocks h ns)"
      by (simp add: block_of_def fits_def word_le_nat_alt)
    with True Cons.prems show ?thesis by (simp add: blocks_upd_other block_of_upd_free)
  next
    case False
    then have "first_fit (unat sz) (blocks h (n # ns)) =
        map_option (\<lambda>(b, bs'). (b, block_of h n # bs')) (first_fit (unat sz) (blocks h ns))"
      by (auto simp: block_of_def fits_def word_le_nat_alt)
    moreover have "find (fits h sz) ns = Some m \<Longrightarrow> m \<noteq> n" for m
      using Cons.prems find_in_set by fastforce
    ultimately show ?thesis
      using False Cons by (cases "find (fits h sz) ns") (auto simp: block_of_upd_other)
  qed
qed simp

text \<open>
  C12: On a well-formed heap \<open>kmalloc\<close> is the first-fit allocator of the block list: it succeeds
  exactly where the specification does (a free block fits, or the new block's header starts below the
  end of the heap and the size is not 0), with the same address and the block list of the
  specification, and it leaves a well-formed heap. In particular its walk always ends.
\<close>

theorem kmalloc_refines:
  assumes "heap_inv L h ns" "request_ok sz"
  shows "case kmalloc L sz h of
      Inl e \<Rightarrow> e \<noteq> Diverges \<and> spec_malloc (unat (HEAP_END L)) (unat sz) (blocks h ns) = None
    | Inr (p, h') \<Rightarrow> \<exists>ns'. heap_inv L h' ns' \<and>
        spec_malloc (unat (HEAP_END L)) (unat sz) (blocks h ns) = Some (unat p, blocks h' ns')"
proof -
  note inv = assms(1)
  have last_block: "last (blocks h ns) = (unat (last ns) + 16, unat (nd_size (nodes h (last ns))),
      nd_free (nodes h (last ns)) = 1)"
    using heap_invD(2) [OF inv] by (simp add: blocks_def block_of_def last_map)
  have nx: "unat (NEXT_BLOCK h (last ns)) = unat (last ns) + 16 + unat (nd_size (nodes h (last ns)))"
    using heap_last(3) [OF inv] by (simp add: block_end_def)
  note ff = first_fit_blocks [OF heap_distinct [OF inv], of sz h]
  show ?thesis
  proof (cases "kmalloc L sz h")
    case (Inl e)
    then show ?thesis
      using ff last_block nx
      by (auto simp: kmalloc_eq [OF inv] spec_malloc_def word_less_nat_alt unat_gt_0
          split: option.splits if_splits)
  next
    case (Inr r)
    then obtain p h' where r: "kmalloc L sz h = Inr (p, h')" by (cases r) auto
    from inv assms(2) r show ?thesis
    proof (cases rule: heap_inv_kmalloc)
      case (reused n)
      then have "good_node L h n" using heap_invD(4) [OF inv] find_in_set by metis
      then have "spec_malloc (unat (HEAP_END L)) (unat sz) (blocks h ns) = Some (unat p, blocks h' ns)"
        using reused ff by (simp add: spec_malloc_def unat_BLOCK_START)
      then show ?thesis using reused r by auto
    next
      case (grown nx')
      have "unat p = unat nx' + 16"
        using grown heap_invD(4) [OF grown(7), of nx'] by (simp add: unat_BLOCK_START)
      moreover have "blocks h' (ns @ [nx']) = blocks h ns @ [(unat nx' + 16, unat sz, False)]"
        using grown heap_last(3,4) [OF inv] by (auto simp: blocks_def block_of_def appended_def upd_node_def)
      moreover have "0 < unat sz" using grown by (simp add: unat_gt_0)
      ultimately have "spec_malloc (unat (HEAP_END L)) (unat sz) (blocks h ns) = Some (unat p, blocks h' (ns @ [nx']))"
        using grown ff last_block nx by (simp add: spec_malloc_def word_less_nat_alt)
      then show ?thesis using grown r by auto
    qed
  qed
qed

definition fresh_heap :: kheap where
  "fresh_heap = kinit_heap example_layout \<lparr>nodes = \<lambda>_. \<lparr>nd_magic = 0, nd_free = 0, nd_size = 0, nd_next = 0\<rparr>\<rparr>"

lemma heap_inv_kinit:
  assumes "layout_ok L"
  shows "heap_inv L (kinit_heap L h) [HEAP_START L]"
  using assms layout_unat [OF assms]
  by (auto simp: heap_inv_def kinit_heap_def upd_node_def good_node_def block_end_def
      word_less_nat_alt unat_gt_0 simp flip: word_neq_0_conv)

lemma heap_inv_fresh: "heap_inv example_layout fresh_heap [HEAP_START example_layout]"
  unfolding fresh_heap_def by (rule heap_inv_kinit [OF example_layout_ok])

theorem kmalloc_refines_witness:
  "\<exists>p h' ns'. kmalloc example_layout 100 fresh_heap = Inr (p, h') \<and> heap_inv example_layout h' ns'
     \<and> blocks h' ns' = [(0x350010, 0, True), (0x350020, 100, False)]"
proof -
  have "kmalloc example_layout 100 fresh_heap \<noteq> Inl e" for e
    unfolding kmalloc_eq [OF heap_inv_fresh]
    by (simp add: fresh_heap_def kinit_heap_def upd_node_def fits_def NEXT_BLOCK_def BLOCK_START_def)
  moreover have "blocks fresh_heap [HEAP_START example_layout] = [(0x350010, 0, True)]"
    by (simp add: block_of_def fresh_heap_def kinit_heap_def upd_node_def)
  ultimately show ?thesis
    using kmalloc_refines [OF heap_inv_fresh, of 100]
    by (auto simp: request_ok_def spec_malloc_def split: sum.splits)
qed

section \<open>Live blocks\<close>

lemma chain_unique: "chain h a ns \<Longrightarrow> chain h a ms \<Longrightarrow> ns = ms"
proof (induction ns arbitrary: a ms)
  case Nil
  then show ?case by (cases ms) auto
next
  case (Cons n ns)
  then show ?case by (cases ms) auto
qed

lemma heap_inv_unique: "heap_inv L h ns \<Longrightarrow> heap_inv L h ms \<Longrightarrow> ns = ms"
  using chain_unique by (auto simp: heap_inv_def)

definition heap_ok :: "layout \<Rightarrow> kheap \<Rightarrow> bool" where
  "heap_ok L h \<longleftrightarrow> (\<exists>ns. heap_inv L h ns)"

definition live_block :: "layout \<Rightarrow> kheap \<Rightarrow> u32 \<Rightarrow> bool" where
  "live_block L h p \<longleftrightarrow>
     (\<exists>ns n. heap_inv L h ns \<and> n \<in> set ns \<and> p = BLOCK_START n \<and> nd_free (nodes h n) = 0)"

definition extent :: "kheap \<Rightarrow> u32 \<Rightarrow> nat" where
  "extent h p = unat (nd_size (nodes h (HEADER_START p)))"

lemma BLOCK_START_eq_iff [simp]: "BLOCK_START m = BLOCK_START n \<longleftrightarrow> m = n"
  by (simp add: BLOCK_START_def)

lemma live_block_iff:
  "heap_inv L h ns \<Longrightarrow> live_block L h p \<longleftrightarrow> (\<exists>n \<in> set ns. p = BLOCK_START n \<and> nd_free (nodes h n) = 0)"
  by (auto simp: live_block_def dest: heap_inv_unique)

lemma set_free_same: "nd_free (x :: node_t) = v \<Longrightarrow> x\<lparr>nd_free := v\<rparr> = x"
  by (cases x) simp

text \<open>
  What a successful allocation does, in one place: the block \<open>n\<close> it takes is the first that fits, is
  either one of the old blocks or appended behind them, and no other block changes.
\<close>

definition takes_block ::
  "layout \<Rightarrow> kheap \<Rightarrow> u32 list \<Rightarrow> u32 \<Rightarrow> u32 \<Rightarrow> kheap \<Rightarrow> u32 \<Rightarrow> u32 list \<Rightarrow> u32 list \<Rightarrow> bool" where
  "takes_block L h ns sz p h' n us vs \<longleftrightarrow>
     p = BLOCK_START n \<and> heap_inv L h' (us @ n # vs) \<and> (\<forall>u \<in> set us. \<not> fits h sz u)
   \<and> sz \<le> nd_size (nodes h' n) \<and> nd_free (nodes h' n) = 0
   \<and> (\<forall>m \<in> set ns. nd_size (nodes h' m) = nd_size (nodes h m))
   \<and> (\<forall>m \<in> set ns. m \<noteq> n \<longrightarrow> nd_free (nodes h' m) = nd_free (nodes h m))
   \<and> (us @ n # vs = ns \<and> fits h sz n
        \<and> h'\<lparr>nodes := (nodes h')(n := (nodes h' n)\<lparr>nd_free := 1\<rparr>)\<rparr> = h
      \<or> us = ns \<and> vs = [] \<and> n \<notin> set ns)"

lemma kmalloc_effect:
  assumes "heap_inv L h ns" "request_ok sz" "kmalloc L sz h = Inr (p, h')"
  shows "\<exists>n us vs. takes_block L h ns sz p h' n us vs"
  using assms
proof (cases rule: heap_inv_kmalloc)
  case (reused n)
  then obtain us vs where ns: "ns = us @ n # vs" "\<forall>u \<in> set us. \<not> fits h sz u" "fits h sz n"
    using find_split by metis
  have "h'\<lparr>nodes := (nodes h')(n := (nodes h' n)\<lparr>nd_free := 1\<rparr>)\<rparr> = h"
    using reused(3) ns(3) by (simp add: upd_node_def fits_def set_free_same fun_upd_idem)
  with reused ns have "takes_block L h ns sz p h' n us vs"
    by (auto simp: takes_block_def upd_node_def fits_def)
  then show ?thesis by blast
next
  case (grown nx)
  have none: "\<forall>u \<in> set ns. \<not> fits h sz u" using grown(1) by (auto simp: find_None_iff)
  have "nx \<notin> set ns" using heap_last(3,4) [OF assms(1)] grown(3) by auto
  with grown none have "takes_block L h ns sz p h' nx ns []"
    by (auto simp: takes_block_def appended_def upd_node_def)
  then show ?thesis by blast
qed

lemma takes_block_cases:
  assumes "takes_block L h ns sz p h' n us vs"
  obtains (old) "ns = us @ n # vs" "fits h sz n" | (new) "us = ns" "vs = []" "n \<notin> set ns"
  using assms unfolding takes_block_def by metis

lemma takes_block_set:
  "takes_block L h ns sz p h' n us vs \<Longrightarrow> set (us @ n # vs) = insert n (set ns)"
  by (erule takes_block_cases) auto

lemma takes_block_was_free:
  "takes_block L h ns sz p h' n us vs \<Longrightarrow> n \<in> set ns \<Longrightarrow> fits h sz n"
  by (erule takes_block_cases) auto

lemma takes_blockD:
  assumes "takes_block L h ns sz p h' n us vs"
  shows "p = BLOCK_START n" "heap_inv L h' (us @ n # vs)" "u \<in> set us \<Longrightarrow> \<not> fits h sz u"
    "sz \<le> nd_size (nodes h' n)" "nd_free (nodes h' n) = 0"
    "m \<in> set ns \<Longrightarrow> nd_size (nodes h' m) = nd_size (nodes h m)"
    "m \<in> set ns \<Longrightarrow> m \<noteq> n \<Longrightarrow> nd_free (nodes h' m) = nd_free (nodes h m)"
    "u \<in> set us \<Longrightarrow> u \<in> set ns \<and> u \<noteq> n"
proof -
  note t = assms [unfolded takes_block_def]
  show "p = BLOCK_START n" "heap_inv L h' (us @ n # vs)" "u \<in> set us \<Longrightarrow> \<not> fits h sz u"
    "sz \<le> nd_size (nodes h' n)" "nd_free (nodes h' n) = 0"
    "m \<in> set ns \<Longrightarrow> nd_size (nodes h' m) = nd_size (nodes h m)"
    "m \<in> set ns \<Longrightarrow> m \<noteq> n \<Longrightarrow> nd_free (nodes h' m) = nd_free (nodes h m)"
    using t by blast+
  then have "distinct (us @ n # vs)" using heap_distinct by blast
  then show "u \<in> set us \<Longrightarrow> u \<in> set ns \<and> u \<noteq> n"
    using takes_block_set [OF assms] by auto
qed

lemma heap_separate:
  assumes "heap_inv L h ns" "m \<in> set ns" "n \<in> set ns" "m \<noteq> n"
  shows "block_end h m \<le> unat n \<or> block_end h n \<le> unat m"
proof -
  from assms(2,3) obtain i j where ij: "i < length ns" "j < length ns" "ns ! i = m" "ns ! j = n"
    by (auto simp: in_set_conv_nth)
  then have "i < j \<or> j < i" using assms(4) by (metis nat_neq_iff)
  then show ?thesis
    using sorted_wrt_nth_less [OF heap_ordered [OF assms(1)]] ij by blast
qed

lemma live_extent_end: "HEADER_START (BLOCK_START n) = n \<and> extent h (BLOCK_START n) = unat (nd_size (nodes h n))"
  by (simp add: extent_def)

lemma kmalloc_new_block:
  assumes "heap_ok L h" "request_ok sz" "kmalloc L sz h = Inr (p, h')"
  shows "heap_ok L h' \<and> \<not> live_block L h p \<and> p \<noteq> 0 \<and> unat sz \<le> extent h' p
    \<and> (\<forall>q. live_block L h' q \<longleftrightarrow> q = p \<or> live_block L h q)
    \<and> (\<forall>q. live_block L h q \<longrightarrow> extent h' q = extent h q \<and>
         (unat q + extent h q + 16 \<le> unat p \<or> unat p + extent h' p + 16 \<le> unat q))"
proof -
  from assms(1) obtain ns where inv: "heap_inv L h ns" by (auto simp: heap_ok_def)
  from kmalloc_effect [OF inv assms(2,3)] obtain n us vs
    where took: "takes_block L h ns sz p h' n us vs" by blast
  note p = takes_blockD(1) [OF took] and inv' = takes_blockD(2) [OF took]
    and same = takes_blockD(6,7) [OF took] and n = takes_blockD(4,5) [OF took]
  note set_eq = takes_block_set [OF took]
  have not_live: "nd_free (nodes h n) \<noteq> 0" if "n \<in> set ns"
    using takes_block_was_free [OF took that] by (simp add: fits_def)
  have good: "good_node L h' m" if "m \<in> insert n (set ns)" for m
    using that heap_invD(4) [OF inv', of m] unfolding set_eq by blast
  note live = live_block_iff [OF inv] live_block_iff [OF inv', unfolded set_eq]
  have sep: "unat q + extent h q + 16 \<le> unat p \<or> unat p + extent h' p + 16 \<le> unat q"
    if q: "live_block L h q" for q
  proof -
    from q obtain m where m: "m \<in> set ns" "q = BLOCK_START m" "nd_free (nodes h m) = 0"
      using live(1) by blast
    then have "m \<noteq> n" using not_live by auto
    then have "block_end h' m \<le> unat n \<or> block_end h' n \<le> unat m"
      using heap_separate [OF inv', of m n] m(1) unfolding set_eq by blast
    then show ?thesis
      using m p same unat_BLOCK_START [OF good [of m]] unat_BLOCK_START [OF good [of n]]
      by (auto simp: extent_def block_end_def)
  qed
  have "p \<noteq> 0" using unat_BLOCK_START [OF good [of n]] p by auto
  moreover have "unat sz \<le> extent h' p" using n p by (simp add: extent_def word_le_nat_alt)
  moreover have "heap_ok L h'" using inv' by (auto simp: heap_ok_def)
  moreover have "\<forall>q. live_block L h' q \<longleftrightarrow> q = p \<or> live_block L h q"
    using n(2) same(2) not_live p unfolding live by (metis insert_iff)
  moreover have "\<forall>q. live_block L h q \<longrightarrow> extent h' q = extent h q"
    using same(1) unfolding live by (auto simp: extent_def)
  moreover have "\<not> live_block L h p" using not_live p unfolding live by auto
  ultimately show ?thesis using sep by blast
qed

section \<open>Freeing\<close>

lemma kfree_block:
  assumes "heap_inv L h ns" "n \<in> set ns" "BLOCK_START n < HEAP_END L"
  shows "kfree L (BLOCK_START n) h = Inr (upd_node n (nd_free_update (\<lambda>_. 1)) h)"
proof -
  have "good_node L h n" "n \<noteq> 0"
    using heap_invD [OF assms(1)] chain_nonzero assms(2) by blast+
  moreover from this(1) have "BLOCK_START n \<noteq> 0" using unat_BLOCK_START by fastforce
  ultimately show ?thesis using assms(3) by (simp add: kfree_def good_node_def)
qed

lemma kfree_Inr:
  assumes "kfree L p g = Inr h'" "p = BLOCK_START n" "heap_inv L h ns" "n \<in> set ns"
  shows "h' = upd_node n (nd_free_update (\<lambda>_. 1)) g"
  using assms(1,2) BLOCK_START_nonzero [OF heap_invD(4) [OF assms(3,4)]]
  by (auto simp: kfree_def kernel_simps)

text \<open>
  C13: \<open>kfree\<close> of a block of the heap that starts below the end of the heap always returns; it marks
  exactly that block free in the block list and keeps the heap well formed. Freeing it a second time is
  accepted and changes nothing.
\<close>

theorem kfree_refines:
  assumes "heap_inv L h ns" "n \<in> set ns" "BLOCK_START n < HEAP_END L"
  shows "\<exists>h'. kfree L (BLOCK_START n) h = Inr h' \<and> heap_inv L h' ns
    \<and> blocks h' ns = spec_free (unat (BLOCK_START n)) (blocks h ns)
    \<and> kfree L (BLOCK_START n) h' = Inr h'"
proof -
  let ?h = "upd_node n (nd_free_update (\<lambda>_. 1)) h"
  have inv: "heap_inv L ?h ns" using heap_inv_upd_free [OF assms(1)] by simp
  have "block_of ?h m = (case block_of h m of (a, s, f) \<Rightarrow> (a, s, f \<or> a = unat (BLOCK_START n)))" for m
  proof (cases "m = n")
    case True
    then show ?thesis
      using unat_BLOCK_START [OF heap_invD(4) [OF assms(1,2)]]
      by (simp add: block_of_upd_free) (simp add: block_of_def)
  next
    case False
    then have "unat m \<noteq> unat n" by (simp add: word_unat_eq_iff)
    with False show ?thesis
      using unat_BLOCK_START [OF heap_invD(4) [OF assms(1,2)]]
      by (simp add: block_of_upd_other) (simp add: block_of_def)
  qed
  then have "blocks ?h ns = spec_free (unat (BLOCK_START n)) (blocks h ns)"
    by (simp add: blocks_def spec_free_def)
  moreover have "upd_node n (nd_free_update (\<lambda>_. 1)) ?h = ?h"
    by (simp add: upd_node_def)
  ultimately show ?thesis
    using kfree_block [OF assms] kfree_block [OF inv assms(2,3)] inv by auto
qed

theorem kfree_refines_witness:
  "\<exists>h'. kfree example_layout 0x350010 fresh_heap = Inr h' \<and> heap_inv example_layout h' [0x350000]"
  using kfree_refines [OF heap_inv_fresh, of "0x350000"] by (auto simp: BLOCK_START_def)

text \<open>
  Freeing the block just allocated makes the same request return the same address again, and the
  heap is then exactly what it was after the first allocation.
\<close>

theorem kmalloc_kfree_kmalloc:
  assumes "heap_ok L h" "request_ok sz" "kmalloc L sz h = Inr (p, h1)" "kfree L p h1 = Inr h2"
  shows "kmalloc L sz h2 = Inr (p, h1)"
proof -
  from assms(1) obtain ns where inv: "heap_inv L h ns" by (auto simp: heap_ok_def)
  from kmalloc_effect [OF inv assms(2,3)] obtain n us vs
    where took: "takes_block L h ns sz p h1 n us vs" by blast
  note n = takes_blockD [OF took]
  have h2: "h2 = upd_node n (nd_free_update (\<lambda>_. 1)) h1"
    using kfree_Inr [OF assms(4) n(1,2)] by simp
  have "\<not> fits h2 sz u" if "u \<in> set us" for u
    using n(3) [OF that] n(8) [OF that] n(6,7) [of u] by (simp add: h2 fits_def upd_node_def)
  moreover have "fits h2 sz n" using n(4) by (simp add: h2 fits_def upd_node_def)
  ultimately have "find (fits h2 sz) (us @ n # vs) = Some n" by (intro find_splitI) auto
  moreover have "heap_inv L h2 (us @ n # vs)" using n(2) heap_inv_upd_free by (simp add: h2)
  moreover have "upd_node n (nd_free_update (\<lambda>_. 0)) h2 = h1"
    using n(5) by (simp add: h2 upd_node_def set_free_same fun_upd_idem)
  ultimately show ?thesis by (simp add: kmalloc_eq n(1))
qed

theorem kmalloc_kfree_kmalloc_witness:
  "\<exists>h1 h2. kmalloc example_layout 100 fresh_heap = Inr (0x350020, h1)
     \<and> kfree example_layout 0x350020 h1 = Inr h2 \<and> kmalloc example_layout 100 h2 = Inr (0x350020, h1)"
proof -
  have ok: "heap_ok example_layout fresh_heap" using heap_inv_fresh by (auto simp: heap_ok_def)
  obtain h1 where h1: "kmalloc example_layout 100 fresh_heap = Inr (0x350020, h1)"
      "nd_magic (nodes h1 0x350010) = MAGIC"
    unfolding kmalloc_eq [OF heap_inv_fresh]
    by (simp add: fresh_heap_def kinit_heap_def upd_node_def fits_def NEXT_BLOCK_def BLOCK_START_def
        appended_def)
  obtain h2 where h2: "kfree example_layout 0x350020 h1 = Inr h2"
    using h1(2) by (simp add: kfree_def HEADER_START_def)
  from kmalloc_kfree_kmalloc [OF ok _ h1(1) h2] h1(1) h2 show ?thesis by (auto simp: request_ok_def)
qed

lemma self_test_second_round:
  assumes inv: "heap_inv L h ns" and k1: "kmalloc L 15 h = Inr (p1, h1)"
    and k2: "kmalloc L 12 h1 = Inr (p2, h2)"
    and f1: "kfree L p1 h2 = Inr h3" and f2: "kfree L p2 h3 = Inr h4"
  shows "\<exists>h5 h6. kmalloc L 15 h4 = Inr (p1, h5) \<and> kmalloc L 12 h5 = Inr (p2, h6)"
proof -
  obtain n1 us1 vs1 where took1: "takes_block L h ns 15 p1 h1 n1 us1 vs1"
    using kmalloc_effect [OF inv _ k1] by (auto simp: request_ok_def)
  note n1 = takes_blockD [OF took1]
  let ?ns1 = "us1 @ n1 # vs1"
  obtain n2 us2 vs2 where took2: "takes_block L h1 ?ns1 12 p2 h2 n2 us2 vs2"
    using kmalloc_effect [OF n1(2) _ k2] by (auto simp: request_ok_def)
  note n2 = takes_blockD [OF took2]
  let ?ns2 = "us2 @ n2 # vs2"
  have neq: "n2 \<noteq> n1" using takes_block_was_free [OF took2] n1(5) by (auto simp: fits_def)
  have h3: "h3 = upd_node n1 (nd_free_update (\<lambda>_. 1)) h2"
    and h4: "h4 = upd_node n2 (nd_free_update (\<lambda>_. 1)) h3"
    using kfree_Inr [OF f1 n1(1,2)] kfree_Inr [OF f2 n2(1,2)] by simp_all
  have inv4: "heap_inv L h4 ?ns2" using n2(2) heap_inv_upd_free by (simp add: h3 h4)
  have size: "nd_size (nodes h4 m) = nd_size (nodes h2 m)" for m by (simp add: h3 h4 upd_node_def)
  have free: "nd_free (nodes h4 m) = (if m = n1 \<or> m = n2 then 1 else nd_free (nodes h2 m))" for m
    by (simp add: h3 h4 upd_node_def)
  have no1: "\<not> fits h4 15 u" if u: "u \<in> set us1" for u
  proof -
    have u': "u \<in> set ?ns1" "u \<in> set ns" "u \<noteq> n1" using u n1(8) by auto
    then have same: "nd_size (nodes h4 u) = nd_size (nodes h u)"
        "nd_free (nodes h1 u) = nd_free (nodes h u)"
      using n2(6) [of u] n1(6,7) [of u] by (simp_all add: size)
    show ?thesis
    proof (cases "u = n2")
      case True
      then have "nd_free (nodes h1 u) = 1"
        using takes_block_was_free [OF took2] u'(1) by (auto simp: fits_def)
      then show ?thesis using n1(3) [OF u] same by (simp add: fits_def)
    next
      case False
      then show ?thesis using n1(3) [OF u] same n2(7) [OF u'(1)] u'(3) by (simp add: fits_def free)
    qed
  qed
  have "15 \<le> nd_size (nodes h4 n1)" using n1(4) n2(6) [of n1] by (simp add: size)
  then have fit1: "fits h4 15 n1" by (simp add: fits_def free)
  obtain ws where ns2: "?ns2 = us1 @ n1 # ws"
    using took2 by (rule takes_block_cases) (metis append.assoc append_Cons)+
  let ?h5 = "upd_node n1 (nd_free_update (\<lambda>_. 0)) h4"
  have "find (fits h4 15) ?ns2 = Some n1"
    unfolding ns2 using no1 fit1 by (intro find_splitI) auto
  then have k3: "kmalloc L 15 h4 = Inr (p1, ?h5)" using kmalloc_eq [OF inv4, of 15] n1(1) by simp
  have inv5: "heap_inv L ?h5 ?ns2" using inv4 heap_inv_upd_free by simp
  have no2: "\<not> fits ?h5 12 u" if u: "u \<in> set us2" for u
    using n2(3) [OF u] n2(8) [OF u] n2(6,7) [of u] by (simp add: fits_def upd_node_def size free)
  have fit2: "fits ?h5 12 n2" using n2(4) neq by (simp add: fits_def upd_node_def size free)
  have "find (fits ?h5 12) ?ns2 = Some n2" using no2 fit2 by (intro find_splitI) auto
  then show ?thesis using k3 kmalloc_eq [OF inv5, of 12] n2(1) by simp
qed

text \<open>
  The self test of \<open>init.c\<close> never reports a failure: on every well-formed heap, if its allocations
  succeed, freeing both blocks and asking again returns the same two addresses.
\<close>

theorem selfTest_passes:
  assumes "heap_ok L h" "selfTest L h = Inr (r, h')"
  shows "r = 0"
proof -
  from assms(1) obtain ns where inv: "heap_inv L h ns" by (auto simp: heap_ok_def)
  from assms(2) obtain p1 h1 p2 h2 h3 h4 where run: "kmalloc L 15 h = Inr (p1, h1)"
      "kmalloc L 12 h1 = Inr (p2, h2)" "kfree L p1 h2 = Inr h3" "kfree L p2 h3 = Inr h4"
    by (auto simp: selfTest_def kernel_simps)
  from self_test_second_round [OF inv this] obtain h5 h6
    where "kmalloc L 15 h4 = Inr (p1, h5)" "kmalloc L 12 h5 = Inr (p2, h6)" by blast
  with run assms(2) show ?thesis by (auto simp: selfTest_def kernel_simps)
qed

theorem selfTest_passes_witness: "\<exists>h'. selfTest example_layout fresh_heap = Inr (0, h')"
proof -
  have ok: "heap_ok example_layout fresh_heap" using heap_inv_fresh by (auto simp: heap_ok_def)
  obtain r h' where "selfTest example_layout fresh_heap = Inr (r, h')"
    by (simp add: selfTest_def kmalloc_def kmalloc_walk.simps kcreateBlock_def kfree_def Let_def
        fresh_heap_def kinit_heap_def upd_node_def NEXT_BLOCK_def BLOCK_START_def HEADER_START_def)
  with selfTest_passes [OF ok this] show ?thesis by auto
qed

section \<open>Failures\<close>

text \<open>
  \<open>kmalloc\<close> on a well-formed heap fails in exactly two ways, both only when no free block fits:
  a request of size 0 makes it dereference the null pointer \<open>kcreateBlock\<close> returns, and a full heap
  fails the assertion on the new header's address.
\<close>

theorem kmalloc_failures:
  assumes "heap_inv L h ns"
  shows "kmalloc L sz h = Inl e \<longleftrightarrow>
    (\<forall>n \<in> set ns. \<not> (sz \<le> nd_size (nodes h n) \<and> nd_free (nodes h n) = 1)) \<and>
    (if sz = 0 then e = Null_Deref
     else unat (HEAP_END L) \<le> block_end h (last ns)
        \<and> e = Assert_Failed ''(uintptr_t) parent->next < HEAP_END'')"
proof (cases "find (fits h sz) ns")
  case None
  then have "\<forall>n \<in> set ns. \<not> (sz \<le> nd_size (nodes h n) \<and> nd_free (nodes h n) = 1)"
    by (simp add: find_None_iff fits_def)
  moreover have "NEXT_BLOCK h (last ns) < HEAP_END L \<longleftrightarrow> \<not> unat (HEAP_END L) \<le> block_end h (last ns)"
    using heap_last(3) [OF assms] by (simp add: word_less_nat_alt not_le)
  ultimately show ?thesis using None by (auto simp: kmalloc_eq [OF assms])
next
  case (Some n)
  then show ?thesis using find_in_set [OF Some] by (auto simp: kmalloc_eq [OF assms] fits_def)
qed

theorem kmalloc_failures_witness:
  "\<exists>h. kmalloc example_layout 0 fresh_heap = Inr (0x350010, h) \<and> kmalloc example_layout 0 h = Inl Null_Deref"
proof -
  let ?h = "upd_node 0x350000 (nd_free_update (\<lambda>_. 0)) fresh_heap"
  have inv: "heap_inv example_layout ?h [0x350000]"
    using heap_inv_upd_free [OF heap_inv_fresh] by simp
  have "kmalloc example_layout 0 fresh_heap = Inr (0x350010, ?h)"
    unfolding kmalloc_eq [OF heap_inv_fresh]
    by (simp add: fresh_heap_def kinit_heap_def upd_node_def fits_def BLOCK_START_def)
  moreover have "kmalloc example_layout 0 ?h = Inl Null_Deref"
    using kmalloc_failures [OF inv, of 0 Null_Deref] by (simp add: upd_node_def)
  ultimately show ?thesis by blast
qed

text \<open>
  The assertion in \<open>kcreateBlock\<close> looks at the new header only, not at the end of the block. On a
  freshly initialised heap a request as large as the whole heap (or larger) succeeds, and the returned
  block runs past \<open>HEAP_END\<close>.
\<close>

theorem kmalloc_past_heap_end:
  assumes "layout_ok L" "HEAP_SIZE \<le> sz"
  shows "\<exists>p h'. kmalloc L sz (kinit_heap L h) = Inr (p, h') \<and> HEAP_START L < p \<and> p < HEAP_END L
    \<and> extent h' p = unat sz \<and> unat (HEAP_END L) < unat p + extent h' p"
proof -
  note layout = layout_unat [OF assms(1)]
  let ?h = "kinit_heap L h" and ?n = "HEAP_START L"
  let ?nx = "NEXT_BLOCK ?h ?n"
  have sz: "unat sz \<ge> 0x1400000" using assms(2) by (simp add: HEAP_SIZE_def word_le_nat_alt)
  have "sz \<noteq> 0" "\<not> fits ?h sz ?n"
    using assms(2) by (auto simp: fits_def kinit_heap_def upd_node_def HEAP_SIZE_def)
  moreover have nx: "unat ?nx = unat ?n + 16"
    using layout by (simp add: NEXT_BLOCK_def BLOCK_START_def kinit_heap_def upd_node_def unat_word_ariths)
  moreover have p: "unat (BLOCK_START ?nx) = unat ?n + 32"
    using layout nx by (simp add: BLOCK_START_def unat_word_ariths)
  ultimately have run: "kmalloc L sz ?h = Inr (BLOCK_START ?nx, appended ?n ?nx sz ?h)"
    using layout by (simp add: kmalloc_eq [OF heap_inv_kinit [OF assms(1)]] word_less_nat_alt)
  moreover have "extent (appended ?n ?nx sz ?h) (BLOCK_START ?nx) = unat sz"
    by (simp add: extent_def appended_def upd_node_def)
  ultimately show ?thesis using layout p sz by (simp add: word_less_nat_alt)
qed

theorem kmalloc_past_heap_end_witness:
  "\<exists>p h'. kmalloc example_layout 0x2000000 fresh_heap = Inr (p, h') \<and> 0x1750000 < unat p + extent h' p"
  using kmalloc_past_heap_end [OF example_layout_ok, of "0x2000000"
      "\<lparr>nodes = \<lambda>_. \<lparr>nd_magic = 0, nd_free = 0, nd_size = 0, nd_next = 0\<rparr>\<rparr>"]
  by (auto simp: HEAP_SIZE_def fresh_heap_def)

section \<open>The contract of the heap\<close>

text \<open>
  What the components that allocate rely on. \<open>request\<close> bounds the sizes asked for, \<open>room\<close> the
  addresses that may be given back.
\<close>

locale block_allocator =
  fixes malloc :: "u32 \<Rightarrow> 'h \<Rightarrow> kerror + u32 \<times> 'h"
    and mfree :: "u32 \<Rightarrow> 'h \<Rightarrow> kerror + 'h"
    and live :: "'h \<Rightarrow> u32 \<Rightarrow> bool"
    and bytes :: "'h \<Rightarrow> u32 \<Rightarrow> nat"
    and inv :: "'h \<Rightarrow> bool"
    and request :: "u32 \<Rightarrow> bool"
    and room :: "u32 \<Rightarrow> bool"
  assumes malloc_inv: "inv h \<Longrightarrow> request sz \<Longrightarrow> malloc sz h = Inr (p, h') \<Longrightarrow> inv h'"
    and malloc_new: "inv h \<Longrightarrow> request sz \<Longrightarrow> malloc sz h = Inr (p, h') \<Longrightarrow>
      p \<noteq> 0 \<and> \<not> live h p \<and> unat sz \<le> bytes h' p"
    and malloc_live: "inv h \<Longrightarrow> request sz \<Longrightarrow> malloc sz h = Inr (p, h') \<Longrightarrow>
      live h' q \<longleftrightarrow> q = p \<or> live h q"
    and malloc_apart: "inv h \<Longrightarrow> request sz \<Longrightarrow> malloc sz h = Inr (p, h') \<Longrightarrow> live h q \<Longrightarrow>
      bytes h' q = bytes h q \<and> (unat q + bytes h q \<le> unat p \<or> unat p + bytes h' p \<le> unat q)"
    and mfree_live: "inv h \<Longrightarrow> live h p \<Longrightarrow> room p \<Longrightarrow>
      \<exists>h'. mfree p h = Inr h' \<and> inv h' \<and> (\<forall>q. live h' q \<longleftrightarrow> q \<noteq> p \<and> live h q)"
    and mfree_null: "mfree 0 h = Inr h"
begin

lemma malloc_twice:
  assumes "inv h" "request a" "request b" "malloc a h = Inr (p, h1)" "malloc b h1 = Inr (q, h2)"
  shows "p \<noteq> q" "live h2 p" "live h2 q" "inv h2"
    "unat p + bytes h2 p \<le> unat q \<or> unat q + bytes h2 q \<le> unat p"
proof -
  have inv1: "inv h1" and p: "live h1 p" using malloc_inv malloc_live assms(1,2,4) by blast+
  note second = malloc_new [OF inv1 assms(3,5)] malloc_live [OF inv1 assms(3,5)]
    malloc_apart [OF inv1 assms(3,5) p] malloc_inv [OF inv1 assms(3,5)]
  show "p \<noteq> q" "live h2 p" "live h2 q" "inv h2"
    "unat p + bytes h2 p \<le> unat q \<or> unat q + bytes h2 q \<le> unat p"
    using second p by auto
qed

lemma malloc_free_live:
  assumes "inv h" "request a" "malloc a h = Inr (p, h1)" "room p"
  shows "\<exists>h2. mfree p h1 = Inr h2 \<and> inv h2 \<and> (\<forall>q. live h2 q \<longleftrightarrow> live h q)"
  using mfree_live [OF malloc_inv [OF assms(1-3)], of p] malloc_live [OF assms(1-3)]
    malloc_new [OF assms(1-3)] assms(4) by auto

end

interpretation kheap: block_allocator "kmalloc L" "kfree L" "live_block L" extent "heap_ok L"
    request_ok "\<lambda>p. p < HEAP_END L" for L
proof
  fix h sz p h' q
  assume k: "heap_ok L h" "request_ok sz" "kmalloc L sz h = Inr (p, h')"
  note d = kmalloc_new_block [OF this]
  show "heap_ok L h'" "p \<noteq> 0 \<and> \<not> live_block L h p \<and> unat sz \<le> extent h' p"
    "live_block L h' q \<longleftrightarrow> q = p \<or> live_block L h q"
    using d by auto
  show "extent h' q = extent h q \<and> (unat q + extent h q \<le> unat p \<or> unat p + extent h' p \<le> unat q)"
    if "live_block L h q"
    using d that by fastforce
next
  fix h p
  assume "heap_ok L h" "live_block L h p" "p < HEAP_END L"
  then obtain ns n where n: "heap_inv L h ns" "n \<in> set ns" "p = BLOCK_START n"
    by (auto simp: live_block_def)
  let ?h = "upd_node n (nd_free_update (\<lambda>_. 1)) h"
  have inv: "heap_inv L ?h ns" using heap_inv_upd_free n by simp
  have "live_block L ?h q \<longleftrightarrow> q \<noteq> p \<and> live_block L h q" for q
    unfolding live_block_iff [OF inv] live_block_iff [OF n(1)] n(3) by (auto simp: upd_node_def)
  then show "\<exists>h'. kfree L p h = Inr h' \<and> heap_ok L h' \<and> (\<forall>q. live_block L h' q \<longleftrightarrow> q \<noteq> p \<and> live_block L h q)"
    using kfree_block [OF n(1,2)] n(3) \<open>p < HEAP_END L\<close> inv by (auto simp: heap_ok_def)
qed (simp add: kfree_def)

text \<open>
  A block \<open>kmalloc\<close> returns is at least as large as requested, was not handed out before, and
  shares no byte with any block still handed out; those keep their place and size.
\<close>

theorem kmalloc_disjoint:
  assumes "heap_ok L h" "request_ok sz" "kmalloc L sz h = Inr (p, h')"
  shows "heap_ok L h' \<and> \<not> live_block L h p \<and> p \<noteq> 0 \<and> unat sz \<le> extent h' p
    \<and> (\<forall>q. live_block L h' q \<longleftrightarrow> q = p \<or> live_block L h q)
    \<and> (\<forall>q. live_block L h q \<longrightarrow> extent h' q = extent h q \<and>
         (unat q + extent h q \<le> unat p \<or> unat p + extent h' p \<le> unat q))"
  using kheap.malloc_inv [OF assms] kheap.malloc_new [OF assms] kheap.malloc_live [OF assms]
    kheap.malloc_apart [OF assms] by blast

theorem kmalloc_disjoint_witness:
  "heap_ok example_layout fresh_heap \<and>
   (\<exists>h'. kmalloc example_layout 100 fresh_heap = Inr (0x350020, h') \<and> 100 \<le> extent h' 0x350020)"
proof -
  have ok: "heap_ok example_layout fresh_heap" using heap_inv_fresh by (auto simp: heap_ok_def)
  obtain h' where h': "kmalloc example_layout 100 fresh_heap = Inr (0x350020, h')"
    unfolding kmalloc_eq [OF heap_inv_fresh]
    by (simp add: fresh_heap_def kinit_heap_def upd_node_def fits_def NEXT_BLOCK_def BLOCK_START_def)
  from kmalloc_disjoint [OF ok _ this] ok h' show ?thesis by (simp add: request_ok_def)
qed

text \<open>There are fewer blocks than addresses below the end of the heap.\<close>

lemma live_block_bounds:
  assumes "live_block L h p"
  shows "HEAP_START L < p" "unat p < unat (HEAP_END L) + 16"
proof -
  from assms obtain ns n where n: "heap_inv L h ns" "n \<in> set ns" "p = BLOCK_START n"
    by (auto simp: live_block_def)
  then have "good_node L h n" using heap_invD(4) by blast
  then show "HEAP_START L < p" "unat p < unat (HEAP_END L) + 16"
    using unat_BLOCK_START n(3)
    by (auto simp: good_node_def word_less_nat_alt word_le_nat_alt)
qed

lemma live_blocks_few:
  assumes "heap_ok L h" "distinct ps" "\<forall>p \<in> set ps. live_block L h p"
  shows "length ps < 0x80000000"
proof -
  have "layout_ok L" using assms(1) heap_invD(1) by (auto simp: heap_ok_def)
  then have "unat (HEAP_END L) \<le> 0x40000000" using layout_unat by fastforce
  then have "unat ` set ps \<subseteq> {..<0x40000010}"
    using assms(3) live_block_bounds(2) by fastforce
  then have "card (unat ` set ps) \<le> 0x40000010"
    using card_mono [of "{..<0x40000010::nat}"] by simp
  moreover have "card (unat ` set ps) = length ps"
    using assms(2) by (simp add: card_image inj_on_def word_unat_eq_iff distinct_card)
  ultimately show ?thesis by simp
qed

lemma live_zero [simp]: "\<not> live_block L h 0"
  using live_block_bounds(1) [of L h 0] by auto

text \<open>Freeing backwards: what a call that returned has done.\<close>

lemma kfree_returned:
  assumes "heap_ok L h" "b = 0 \<or> live_block L h b" "kfree L b h = Inr h'"
  shows "heap_ok L h'" "live_block L h' q \<longleftrightarrow> (b = 0 \<or> q \<noteq> b) \<and> live_block L h q"
proof -
  have "heap_ok L h' \<and> (live_block L h' q \<longleftrightarrow> (b = 0 \<or> q \<noteq> b) \<and> live_block L h q)"
  proof (cases "b = 0")
    case True
    with assms show ?thesis by (simp add: kheap.mfree_null)
  next
    case False
    then have "b < HEAP_END L" using assms(3) by (auto simp: kfree_def kernel_simps)
    from kheap.mfree_live [OF assms(1) _ this] False assms(2,3) show ?thesis by auto
  qed
  then show "heap_ok L h'" "live_block L h' q \<longleftrightarrow> (b = 0 \<or> q \<noteq> b) \<and> live_block L h q" by simp_all
qed

text \<open>Live blocks of one heap are apart; an address inside one is the start of none.\<close>

lemma live_apart:
  assumes "live_block L h p" "live_block L h q" "p \<noteq> q"
  shows "unat p + extent h p \<le> unat q \<or> unat q + extent h q \<le> unat p"
proof -
  from assms(1) obtain ns m where m: "heap_inv L h ns" "m \<in> set ns" "p = BLOCK_START m"
    by (auto simp: live_block_def)
  obtain n where n: "n \<in> set ns" "q = BLOCK_START n" using assms(2) live_block_iff [OF m(1)] by blast
  have "good_node L h m" "good_node L h n" using heap_invD(4) [OF m(1)] m(2) n(1) by blast+
  moreover have "block_end h m \<le> unat n \<or> block_end h n \<le> unat m"
    using heap_separate [OF m(1), of m n] m(2,3) n assms(3) by auto
  ultimately show ?thesis using m(3) n(2) unat_BLOCK_START by (auto simp: extent_def block_end_def)
qed

definition inside_block :: "layout \<Rightarrow> kheap \<Rightarrow> u32 \<Rightarrow> bool" where
  "inside_block L h a \<longleftrightarrow> (\<exists>q. live_block L h q \<and> q < a \<and> unat a < unat q + extent h q)"

lemma inside_not_live: "inside_block L h a \<Longrightarrow> \<not> live_block L h a"
  using live_apart by (fastforce simp: inside_block_def word_less_nat_alt)

lemma inside_not_new:
  assumes "inside_block L h a" "heap_ok L h" "request_ok sz" "kmalloc L sz h = Inr (p, h')"
  shows "a \<noteq> p"
proof -
  obtain q where q: "live_block L h q" "q < a" "unat a < unat q + extent h q"
    using assms(1) by (auto simp: inside_block_def)
  then have "unat q + extent h q + 16 \<le> unat p \<or> unat p + extent h' p + 16 \<le> unat q"
    using kmalloc_new_block [OF assms(2-4)] by blast
  then show ?thesis using q by (auto simp: word_less_nat_alt)
qed

end
