(* ===== verification/Kernel_State.thy ===== *)
theory Kernel_State
  imports Address_Space Kheap
begin

text \<open>
  The state the kernel's process and message code works on: the structures of
  \<open>hal.x86/include/multitasking.h\<close>, \<open>kmessage.h\<close> and \<open>cpu.h\<close>, each kind in a store of its own
  indexed by address, beside the heap, the virtual memory manager and the globals of
  \<open>hal.x86/multitasking.c\<close>. Blocks handed out by the heap do not overlap (\<open>kmalloc_disjoint\<close>), so
  objects of different kinds in different blocks do not alias.
\<close>

section \<open>Structures\<close>

text \<open>\<open>message_t\<close>. \<open>body\<close> is the 512-byte array \<open>message\<close>; \<open>m_link\<close> is its unused field \<open>next\<close>.\<close>

record message =
  sender :: u32
  receiver :: u32
  msize :: u32
  signal :: u32
  body :: "u8 list"
  m_link :: u32

abbreviation (input) MESSAGE_STRING_SIZE :: nat where "MESSAGE_STRING_SIZE \<equiv> 512"
abbreviation (input) MESSAGE_ERR_SEND :: u32 where "MESSAGE_ERR_SEND \<equiv> 1"
abbreviation (input) MESSAGE_SENT :: u32 where "MESSAGE_SENT \<equiv> 0"
abbreviation (input) MESSAGE_RECEIVED :: u32 where "MESSAGE_RECEIVED \<equiv> 0"
abbreviation (input) MESSAGE_ERR_RECEIVE :: u32 where "MESSAGE_ERR_RECEIVE \<equiv> 2"
abbreviation (input) MESSAGE_ANY :: u32 where "MESSAGE_ANY \<equiv> -1"

text \<open>\<open>struct MESSAGE_LIST\<close>, the queue head in a process.\<close>

record message_list =
  ml_first :: u32
  ml_last :: u32
  num_messages :: u32

text \<open>\<open>struct cpu\<close>, the frame an interrupt pushes.\<close>

record cpu =
  r_ds :: u32
  r_es :: u32
  r_fs :: u32
  r_gs :: u32
  eax :: u32
  ebx :: u32
  ecx :: u32
  edx :: u32
  esi :: u32
  edi :: u32
  ebp :: u32
  intr :: u32
  r_error :: u32
  eip :: u32
  r_cs :: u32
  eflags :: u32
  esp :: u32
  r_ss :: u32

text \<open>\<open>process_t\<close>.\<close>

record process =
  p_state :: u32
  p_context :: u32
  pid :: u32
  messages :: message_list
  sbrk_state :: u32
  stack :: u32
  user_stack :: u32
  sleep_timer :: u32
  status :: u8
  uid :: u32
  p_next :: u32

abbreviation (input) PROCESS_RUNNABLE :: u8 where "PROCESS_RUNNABLE \<equiv> 0"
abbreviation (input) PROCESS_RUNNING :: u8 where "PROCESS_RUNNING \<equiv> 1"
abbreviation (input) PROCESS_SLEEPING :: u8 where "PROCESS_SLEEPING \<equiv> 2"
abbreviation (input) PROCESS_PAUSED :: u8 where "PROCESS_PAUSED \<equiv> 3"
abbreviation (input) ROOT_UID :: u32 where "ROOT_UID \<equiv> 0"

text \<open>The sizes in bytes the kernel asks its heap for.\<close>

abbreviation (input) sizeof_MESSAGE_NODE :: u32 where "sizeof_MESSAGE_NODE \<equiv> 540"
abbreviation (input) sizeof_process :: u32 where "sizeof_process \<equiv> 52"
abbreviation (input) sizeof_cpu :: u32 where "sizeof_cpu \<equiv> 72"

section \<open>The kernel's state\<close>

text \<open>
  A \<open>struct MESSAGE_NODE\<close> starts with its message, so \<open>msg_at\<close> holds the messages of nodes as well
  as those callers pass; \<open>node_next\<close> and \<open>node_prev\<close> are its two links. \<open>ticks\<close> is the counter
  \<open>getTickCount\<close> reads.
\<close>

record kernel =
  vm :: vmm
  heap :: kheap
  msg_at :: "u32 \<Rightarrow> message"
  node_next :: "u32 \<Rightarrow> u32"
  node_prev :: "u32 \<Rightarrow> u32"
  proc_at :: "u32 \<Rightarrow> process"
  cpu_at :: "u32 \<Rightarrow> cpu"
  first_process :: u32
  current_process :: u32
  idle_process :: u32
  num_proc :: u32
  ticks :: u32

text \<open>Writing one field of one object.\<close>

definition upd_msg :: "u32 \<Rightarrow> (message \<Rightarrow> message) \<Rightarrow> kernel \<Rightarrow> kernel" where
  "upd_msg a f s = s\<lparr>msg_at := (msg_at s)(a := f (msg_at s a))\<rparr>"

definition set_node_next :: "u32 \<Rightarrow> u32 \<Rightarrow> kernel \<Rightarrow> kernel" where
  "set_node_next a x s = s\<lparr>node_next := (node_next s)(a := x)\<rparr>"

definition set_node_prev :: "u32 \<Rightarrow> u32 \<Rightarrow> kernel \<Rightarrow> kernel" where
  "set_node_prev a x s = s\<lparr>node_prev := (node_prev s)(a := x)\<rparr>"

definition upd_proc :: "u32 \<Rightarrow> (process \<Rightarrow> process) \<Rightarrow> kernel \<Rightarrow> kernel" where
  "upd_proc a f s = s\<lparr>proc_at := (proc_at s)(a := f (proc_at s a))\<rparr>"

definition upd_messages :: "u32 \<Rightarrow> (message_list \<Rightarrow> message_list) \<Rightarrow> kernel \<Rightarrow> kernel" where
  "upd_messages a f = upd_proc a (\<lambda>p. p\<lparr>messages := f (messages p)\<rparr>)"

lemmas upd_defs = upd_msg_def set_node_next_def set_node_prev_def upd_proc_def upd_messages_def

text \<open>Heap operations on the whole state.\<close>

definition k_malloc :: "layout \<Rightarrow> u32 \<Rightarrow> kernel \<Rightarrow> kerror + u32 \<times> kernel" where
  "k_malloc L sz s = bindE (kmalloc L sz (heap s)) (\<lambda>(p, h). Inr (p, s\<lparr>heap := h\<rparr>))"

definition k_free :: "layout \<Rightarrow> u32 \<Rightarrow> kernel \<Rightarrow> kerror + kernel" where
  "k_free L p s = bindE (kfree L p (heap s)) (\<lambda>h. Inr (s\<lparr>heap := h\<rparr>))"

end
