(* ===== verification/Debug.thy ===== *)
theory Debug
  imports Video Kernel_State "HOL-Library.Stream"
begin

text \<open>
  The debug output of \<open>hal.x86/debug.c\<close>: bytes and formatted text on the serial port, the stack trace, and
  the ends \<open>kassert\<close>, \<open>kpanic\<close> and \<open>kpanic_cpu\<close> of a kernel that cannot go on. The port's line status is
  read by busy waiting, so whether output ends depends on the device; the theorems say how.
\<close>

section \<open>State\<close>

text \<open>
  \<open>line_status\<close> are the bytes that the coming reads of the line status register at \<open>COM1 + 5\<close> will give,
  \<open>serial_out\<close> the calls of \<open>outb\<close>, the last first.
\<close>

record serial =
  line_status :: "u8 stream"
  serial_out :: "(u16 \<times> u8) list"

abbreviation (input) COM1 :: u16 where "COM1 \<equiv> 0x3f8"

section \<open>Operations\<close>

subsection \<open>Bytes\<close>

definition IsTransmitEmpty :: "serial \<Rightarrow> u8 \<times> serial" where
  "IsTransmitEmpty s = (shd (line_status s) AND 0x20, s\<lparr>line_status := stl (line_status s)\<rparr>)"

text \<open>The loop \<open>while(!IsTransmitEmpty());\<close>.\<close>

partial_function (option) transmit_wait :: "serial \<Rightarrow> (kerror + serial) option" where
  "transmit_wait s =
     (if fst (IsTransmitEmpty s) \<noteq> 0 then Some (Inr (snd (IsTransmitEmpty s)))
      else transmit_wait (snd (IsTransmitEmpty s)))"

definition SerialCharOut :: "u8 \<Rightarrow> serial \<Rightarrow> kerror + serial" where
  "SerialCharOut c s =
     bindE (returned (transmit_wait s)) (\<lambda>s1. Inr (s1\<lparr>serial_out := (COM1, c) # serial_out s1\<rparr>))"

definition DebugPuts :: "u8 list \<Rightarrow> serial \<Rightarrow> kerror + serial" where
  "DebugPuts = foldE SerialCharOut"

definition DebugLog :: "u8 list \<Rightarrow> serial \<Rightarrow> kerror + serial" where
  "DebugLog msg s = bindE (DebugPuts msg s) (SerialCharOut 10)"

subsection \<open>Formatted text\<close>

text \<open>
  The loop of \<open>dbgputn\<close>, with its own copy of the table of digits: it divides until nothing is left and writes
  backwards into a buffer with room for 64 digits.
\<close>

definition dbg_digits :: "u8 list" where
  "dbg_digits = bytes ''0123456789ABCDEFGHIJKLMNOPQRSTUVWXYZ''"

partial_function (option) dbgputn_loop :: "u32 \<Rightarrow> u32 \<Rightarrow> u8 list \<Rightarrow> (kerror + u8 list) option" where
  "dbgputn_loop x base p =
     (if base = 0 then Some (Inl (Halted ''division by zero''))
      else if \<not> unat (x mod base) < length dbg_digits \<or> 64 \<le> length p then Some (Inl Out_Of_Bounds)
      else
        let p' = dbg_digits ! unat (x mod base) # p
        in if x div base \<noteq> 0 then dbgputn_loop (x div base) base p' else Some (Inr p'))"

definition dbgputn :: "u32 \<Rightarrow> u32 \<Rightarrow> serial \<Rightarrow> kerror + serial" where
  "dbgputn x base s =
     (if 36 <s base then Inr s else bindE (returned (dbgputn_loop x base [])) (\<lambda>p. DebugPuts p s))"

text \<open>
  The cases of the switch in \<open>DebugPrintf\<close>: \<open>d\<close> is the character after the per cent sign, \<open>rest\<close> the format
  after it; the result is what is left of the arguments and of the format.
\<close>

fun debug_conversion ::
  "u8 \<Rightarrow> u8 list \<Rightarrow> varg list \<Rightarrow> serial \<Rightarrow> kerror + serial \<times> varg list \<times> u8 list" where
  "debug_conversion d rest as s =
     (if d = 115 then bindE (str_arg as) (\<lambda>(str, as). bindE (DebugPuts str s) (\<lambda>s. Inr (s, as, rest)))
      else if d = 99 then bindE (num_arg as) (\<lambda>(n, as). bindE (SerialCharOut (ucast n) s) (\<lambda>s. Inr (s, as, rest)))
      else if d = 100 \<or> d = 117
      then bindE (num_arg as) (\<lambda>(n, as). bindE (dbgputn n 10 s) (\<lambda>s. Inr (s, as, rest)))
      else if d = 120 \<or> d = 112
      then bindE (num_arg as) (\<lambda>(n, as). bindE (dbgputn n 16 s) (\<lambda>s. Inr (s, as, rest)))
      else if d = 108
      then (if rest \<noteq> [] \<and> hd rest = 100
            then bindE (num_arg as) (\<lambda>(n, as). bindE (dbgputn n 10 s) (\<lambda>s. Inr (s, as, tl rest)))
            else Inr (s, as, rest))
      else if d = 37 then bindE (SerialCharOut 37 s) (\<lambda>s. Inr (s, as, rest))
      else bindE (SerialCharOut 37 s) (\<lambda>s. bindE (SerialCharOut d s) (\<lambda>s. Inr (s, as, rest))))"

lemma debug_conversion_shrinks:
  "debug_conversion d rest as s = Inr (s', as', rest') \<Longrightarrow> length rest' \<le> length rest"
  by (auto simp: kernel_simps split: if_splits)

declare debug_conversion.simps [simp del]

function debug_format :: "u8 list \<Rightarrow> varg list \<Rightarrow> serial \<Rightarrow> kerror + serial" where
  "debug_format [] as s = Inr s"
| "debug_format (c # fmt) as s =
     (if c = 37
      then (case fmt of
              [] \<Rightarrow> Inr s
            | d # rest \<Rightarrow>
                (case debug_conversion d rest as s of
                   Inl e \<Rightarrow> Inl e
                 | Inr (s1, as', fmt') \<Rightarrow> debug_format fmt' as' s1))
      else (case SerialCharOut c s of Inl e \<Rightarrow> Inl e | Inr s1 \<Rightarrow> debug_format fmt as s1))"
  by pat_completeness auto
termination by (relation "measure (\<lambda>(fmt, as, s). length fmt)") (auto dest: debug_conversion_shrinks)

definition DebugPrintf :: "u8 list \<Rightarrow> varg list \<Rightarrow> serial \<Rightarrow> kerror + serial" where
  "DebugPrintf fmt as = debug_format fmt as"

subsection \<open>The stack trace and the ends of the kernel\<close>

text \<open>
  \<open>rd\<close> reads a word of the current address space, \<open>fp\<close> is the frame pointer read from the register. The
  loop follows the saved frame pointers until one is null.
\<close>

partial_function (option) trace_loop :: "(u32 \<Rightarrow> u32) \<Rightarrow> u32 \<Rightarrow> serial \<Rightarrow> (kerror + serial) option" where
  "trace_loop rd fp s =
     (if fp = 0 then Some (Inr s)
      else case DebugPrintf (bytes ''0x%x'' @ [10]) [Num (rd (fp + 4))] s of
             Inl e \<Rightarrow> Some (Inl e)
           | Inr s1 \<Rightarrow> trace_loop rd (rd fp) s1)"

definition StackTrace :: "(u32 \<Rightarrow> u32) \<Rightarrow> u32 \<Rightarrow> serial \<Rightarrow> kerror + serial" where
  "StackTrace rd fp s =
     bindE (DebugLog (bytes ''Stack trace:'') s) (\<lambda>s1. returned (trace_loop rd fp s1))"

text \<open>
  These functions end in an endless loop, the last two with interrupts off and the processor halted; the
  result is the state there. The macros \<open>assert\<close> and \<open>panic\<close> build the messages from the expression, the file and the line.
\<close>

definition kassert ::
  "(u32 \<Rightarrow> u32) \<Rightarrow> u32 \<Rightarrow> kernel \<Rightarrow> u8 list \<Rightarrow> serial \<times> video \<Rightarrow> kerror + serial \<times> video" where
  "kassert rd fp k msg = (\<lambda>(s, v).
     bindE (derefE (current_process k)) (\<lambda>_.
     bindE (DebugPrintf (bytes ''Assertion failed while process %d was running!'' @ [10])
              [Num (pid (proc_at k (current_process k)))] s) (\<lambda>s.
     bindE (DebugLog msg s) (\<lambda>s.
     bindE (StackTrace rd fp s) (\<lambda>s.
     Inr (s, kprintln (bytes ''Kernel panic!'') (kprintln msg v)))))))"

definition kpanic :: "(u32 \<Rightarrow> u32) \<Rightarrow> u32 \<Rightarrow> u8 list \<Rightarrow> u8 list \<Rightarrow> serial \<times> video \<Rightarrow> kerror + serial \<times> video" where
  "kpanic rd fp expression message = (\<lambda>(s, v).
     bindE (DebugLog message s) (\<lambda>s.
     bindE (DebugLog expression s) (\<lambda>s.
     bindE (StackTrace rd fp s) (\<lambda>s.
     bindE (kprintf (bytes ''%s, %s'' @ [10]) [Str message, Str expression] v) (\<lambda>v.
     Inr (s, kprintln (bytes ''Kernel panic!'') v))))))"

definition kpanic_cpu ::
  "(u32 \<Rightarrow> u32) \<Rightarrow> u32 \<Rightarrow> u8 list \<Rightarrow> u8 list \<Rightarrow> cpu \<Rightarrow> serial \<times> video \<Rightarrow> kerror + serial \<times> video" where
  "kpanic_cpu rd fp expression message old_cpu = (\<lambda>(s, v).
     bindE (DebugLog (bytes ''Register dump:'') s) (\<lambda>s.
     bindE (DebugPrintf (bytes ''EIP: 0x%x'' @ [10]) [Num (eip old_cpu)] s) (\<lambda>s.
     bindE (DebugPrintf (bytes ''ESP: 0x%x'' @ [10]) [Num (esp old_cpu)] s) (\<lambda>s.
     bindE (DebugPrintf (bytes ''EBP: 0x%x'' @ [10]) [Num (ebp old_cpu)] s) (\<lambda>s.
     kpanic rd fp expression message (s, v))))))"

section \<open>The line\<close>

text \<open>Ready is bit 5 of the line status; a device that goes on working is ready again and again.\<close>

definition line_ready :: "u8 \<Rightarrow> bool" where
  "line_ready b \<longleftrightarrow> b AND 0x20 \<noteq> 0"

definition ready_forever :: "u8 stream \<Rightarrow> bool" where
  "ready_forever ls \<longleftrightarrow> (\<forall>n. \<exists>k \<ge> n. line_ready (ls !! k))"

lemma ready_forever_sdrop: "ready_forever ls \<Longrightarrow> ready_forever (sdrop n ls)"
  unfolding ready_forever_def sdrop_snth
proof
  fix m
  assume "\<forall>m. \<exists>k \<ge> m. line_ready (ls !! k)"
  then obtain k where "n + m \<le> k" "line_ready (ls !! k)" by blast
  then show "\<exists>k \<ge> m. line_ready (ls !! (n + k))" by (intro exI [of _ "k - n"]) simp
qed

lemma transmit_wait_ready:
  "line_ready (line_status s !! k) \<Longrightarrow>
    \<exists>n. transmit_wait s = Some (Inr (s\<lparr>line_status := sdrop n (line_status s)\<rparr>))"
proof (induction k arbitrary: s)
  case 0
  then show ?case
    by (subst transmit_wait.simps, intro exI [of _ 1]) (simp add: IsTransmitEmpty_def line_ready_def)
next
  case (Suc k)
  let ?s = "s\<lparr>line_status := stl (line_status s)\<rparr>"
  have "line_ready (line_status ?s !! k)" using Suc.prems by simp
  from Suc.IH [OF this] obtain n where n: "transmit_wait ?s = Some (Inr (s\<lparr>line_status := sdrop (Suc n) (line_status s)\<rparr>))"
    by auto
  have "transmit_wait s = Some (Inr (s\<lparr>line_status := sdrop 1 (line_status s)\<rparr>)) \<or> transmit_wait s = transmit_wait ?s"
    by (subst (1 2) transmit_wait.simps) (simp add: IsTransmitEmpty_def)
  with n show ?case by metis
qed

lemma transmit_wait_never:
  assumes "\<And>k. \<not> line_ready (line_status s !! k)"
  shows "transmit_wait s = None"
proof -
  have "\<exists>k. line_ready (line_status s !! k)" if "transmit_wait s = Some r" for r
  proof (rule transmit_wait.raw_induct [where P = "\<lambda>s r. \<exists>k. line_ready (line_status s !! k)", OF _ that])
    fix f :: "serial \<Rightarrow> (kerror + serial) option" and s r
    assume IH: "\<And>s r. f s = Some r \<Longrightarrow> \<exists>k. line_ready (line_status s !! k)"
      and eq: "(if fst (IsTransmitEmpty s) \<noteq> 0 then Some (Inr (snd (IsTransmitEmpty s)))
        else f (snd (IsTransmitEmpty s))) = Some r"
    show "\<exists>k. line_ready (line_status s !! k)"
    proof (cases "fst (IsTransmitEmpty s) = 0")
      case True
      with IH eq obtain k where "line_ready (line_status (snd (IsTransmitEmpty s)) !! k)" by auto
      then show ?thesis by (intro exI [of _ "Suc k"]) (simp add: IsTransmitEmpty_def)
    next
      case False
      then show ?thesis by (intro exI [of _ 0]) (simp add: IsTransmitEmpty_def line_ready_def)
    qed
  qed
  with assms show ?thesis by (cases "transmit_wait s") auto
qed

definition serial_sent :: "u8 list \<Rightarrow> serial \<Rightarrow> serial \<Rightarrow> bool" where
  "serial_sent msg s s' \<longleftrightarrow> serial_out s' = rev (map (Pair COM1) msg) @ serial_out s
     \<and> (\<exists>n. line_status s' = sdrop n (line_status s))"

lemma serial_sent_simps: "serial_sent [] s s"
  "serial_sent xs s s1 \<Longrightarrow> serial_sent ys s1 s2 \<Longrightarrow> serial_sent (xs @ ys) s s2"
  by (auto simp: serial_sent_def sdrop_add intro: exI [of _ 0])

lemma SerialCharOut_sends:
  assumes "ready_forever (line_status s)"
  shows "\<exists>s'. SerialCharOut c s = Inr s' \<and> serial_sent [c] s s'"
proof -
  obtain k where "line_ready (line_status s !! k)" using assms by (auto simp: ready_forever_def)
  from transmit_wait_ready [OF this] show ?thesis by (auto simp: SerialCharOut_def serial_sent_def)
qed

lemma DebugPuts_simps [simp]: "DebugPuts [] = Inr" "DebugPuts (c # cs) = (\<lambda>s. bindE (SerialCharOut c s) (DebugPuts cs))"
  "DebugPuts (xs @ ys) = (\<lambda>s. bindE (DebugPuts xs s) (DebugPuts ys))"
  by (simp_all add: DebugPuts_def foldE_append fun_eq_iff)

lemma serial_sent_ready: "ready_forever (line_status s) \<Longrightarrow> serial_sent msg s s' \<Longrightarrow> ready_forever (line_status s')"
  by (auto simp: serial_sent_def ready_forever_sdrop)

lemma DebugPuts_sends_all:
  "ready_forever (line_status s) \<Longrightarrow> \<exists>s'. DebugPuts msg s = Inr s' \<and> serial_sent msg s s'"
proof (induction msg arbitrary: s)
  case (Cons c msg)
  obtain s1 where s1: "SerialCharOut c s = Inr s1" "serial_sent [c] s s1" using SerialCharOut_sends [OF Cons.prems] by blast
  with Cons.IH [OF serial_sent_ready [OF Cons.prems s1(2)]] serial_sent_simps(2) [OF s1(2)] show ?case by auto
qed (simp add: serial_sent_simps)

text \<open>
  C37: A string goes out whole and in order whenever the device reports itself ready again and again, and
  \<open>DebugPuts\<close> then returns; with a device that is never ready any nonempty string hangs the kernel.
\<close>

theorem DebugPuts_sends:
  "(ready_forever (line_status s) \<longrightarrow> (\<exists>s'. DebugPuts msg s = Inr s' \<and> serial_sent msg s s'))
   \<and> ((\<forall>k. \<not> line_ready (line_status s !! k)) \<longrightarrow> DebugPuts msg s = (if msg = [] then Inr s else Inl Diverges))"
  using DebugPuts_sends_all [of s msg] transmit_wait_never [of s]
  by (cases msg) (auto simp: SerialCharOut_def)

section \<open>Formatted text\<close>

text \<open>The table holds the digits that \<open>kputn\<close> prints, so the two loops give the same, whatever the base.\<close>

lemma length_dbg_digits [simp]: "length dbg_digits = 36"
  by (simp add: dbg_digits_def bytes_def)

lemma dbg_digits_digit:
  assumes "d < 36"
  shows "dbg_digits ! unat d = digit d"
proof -
  have "list_all (\<lambda>i. dbg_digits ! i = digit (of_nat i)) [0..<36]" by code_simp
  then have "dbg_digits ! unat d = digit (of_nat (unat d))"
    using assms by (simp only: list_all_iff set_upt) (simp add: word_less_nat_alt)
  then show ?thesis by simp
qed

lemma dbgputn_loop_digits: "dbgputn_loop x base p = digits_loop x base p"
proof (induction "64 - length p" arbitrary: x p rule: less_induct)
  case less
  show ?case
  proof (cases "base = 0 \<or> \<not> x mod base < 36 \<or> 64 \<le> length p")
    case True
    then show ?thesis
      by (subst dbgputn_loop.simps, subst digits_loop.simps) (auto simp: word_less_nat_alt)
  next
    case False
    then have d: "unat (x mod base) < 36" "dbg_digits ! unat (x mod base) = digit (x mod base)"
      using dbg_digits_digit by (simp_all add: word_less_nat_alt)
    have "dbgputn_loop (x div base) base (digit (x mod base) # p) = digits_loop (x div base) base (digit (x mod base) # p)"
      using False by (intro less.hyps) (simp, linarith)
    then show ?thesis
      using False d by (subst dbgputn_loop.simps, subst digits_loop.simps) (simp add: Let_def)
  qed
qed

lemma dbgputn_number: "number x base = Inr p \<Longrightarrow> dbgputn x base s = DebugPuts p s"
  by (auto simp: number_def dbgputn_def dbgputn_loop_digits split: if_splits)

lemma debug_conversion_text:
  assumes "conversion d rest as = Inr (w, as', rest')"
  shows "debug_conversion d rest as s = bindE (DebugPuts w s) (\<lambda>s'. Inr (s', as', rest'))"
proof -
  consider "d = 115" | "d = 99" | "d = 100 \<or> d = 117" | "d = 120 \<or> d = 112" | "d = 108" | "d = 37"
    | "d \<notin> {115, 99, 100, 117, 120, 112, 108, 37}" by auto
  then show ?thesis
  proof cases
    case 5
    then show ?thesis using assms
      by (cases rest) (auto simp: conversion.simps debug_conversion.simps kernel_simps dbgputn_number split: if_splits)
  qed (use assms in \<open>auto simp: conversion.simps debug_conversion.simps kernel_simps dbgputn_number bindE_assoc\<close>)
qed

lemma debug_format_text: "format_loop fmt as = Inr w \<Longrightarrow> debug_format fmt as s = DebugPuts w s"
proof (induction fmt "as" arbitrary: w s rule: format_loop.induct)
  case (2 c fmt as)
  show ?case
  proof (cases "c = 37")
    case c: True
    show ?thesis
    proof (cases fmt)
      case Nil
      then show ?thesis using 2(3) c by simp
    next
      case (Cons d rest)
      with 2(3) c obtain o1 as' fmt' o2 where conv: "conversion d rest as = Inr (o1, as', fmt')"
        and loop: "format_loop fmt' as' = Inr o2" and "w = o1 @ o2"
        by (auto split: sum.splits prod.splits)
      then show ?thesis using 2(1) [OF c Cons conv refl refl loop] c Cons debug_conversion_text [OF conv, of s]
        by (cases "DebugPuts o1 s") auto
    qed
  next
    case False
    with 2(3) obtain o2 where "format_loop fmt as = Inr o2" "w = c # o2" by (auto split: sum.splits)
    with 2(2) False show ?thesis by (cases "SerialCharOut c s") auto
  qed
qed simp

lemma DebugPrintf_text: "format_loop fmt as = Inr w \<Longrightarrow> DebugPrintf fmt as = DebugPuts w"
  by (simp add: DebugPrintf_def debug_format_text fun_eq_iff)

text \<open>
  C38: The two copies of the formatting code agree: what \<open>kprintf\<close> puts on the screen, \<open>DebugPrintf\<close>
  sends over the port, byte for byte, for every format and all arguments.
\<close>

theorem DebugPrintf_agrees_with_kprintf:
  assumes "kprintf fmt as v = Inr v'" and "ready_forever (line_status s)"
  shows "\<exists>w s'. v' = kputs w v \<and> DebugPrintf fmt as s = Inr s' \<and> serial_sent w s s'"
proof -
  obtain w where "format_loop fmt as = Inr w" "v' = kputs w v" using assms(1) by (auto simp: kprintf_def kernel_simps)
  with DebugPrintf_text DebugPuts_sends_all [OF assms(2)] show ?thesis by metis
qed

section \<open>Stack traces and the end of the kernel\<close>

definition decimal :: "u32 \<Rightarrow> u8 list" where "decimal n = projr (number n 10)"
definition hexadecimal :: "u32 \<Rightarrow> u8 list" where "hexadecimal n = projr (number n 16)"

lemma number_returns: "2 \<le> base \<Longrightarrow> base \<le> 36 \<Longrightarrow> \<exists>p. number n base = Inr p"
  using digits_loop_value [of base n 32 "[]"] u32_unat_less [of n] by (auto simp: number_def)

lemma number_base [simp]: "number n 10 = Inr (decimal n)" "number n 16 = Inr (hexadecimal n)"
  using number_returns [of 10 n] number_returns [of 16 n] by (auto simp: decimal_def hexadecimal_def)

lemma format_plain: "37 \<notin> set fmt \<Longrightarrow> format_loop (fmt @ rest) as = bindE (format_loop rest as) (\<lambda>w. Inr (fmt @ w))"
  by (cases "format_loop rest as"; induction fmt) auto

lemma bytes_simps: "bytes [] = []" "bytes (c # cs) = of_char c # bytes cs"
  by (simp_all add: bytes_def)

lemma trace_line: "format_loop (bytes ''0x%x'' @ [10]) [Num n] = Inr (bytes ''0x'' @ hexadecimal n @ [10])"
  by (simp add: conversion.simps bytes_simps)

text \<open>
  Three loops of the kernel print one line for every node of a linked list: the stack trace, \<open>ListProcesses\<close>
  and \<open>PrintHeap\<close>. \<open>linked nx a ns\<close> says that the list from \<open>a\<close> on, with the successor function \<open>nx\<close>, has the nodes \<open>ns\<close>
  and ends.
\<close>

fun linked :: "(u32 \<Rightarrow> u32) \<Rightarrow> u32 \<Rightarrow> u32 list \<Rightarrow> bool" where
  "linked nx a [] \<longleftrightarrow> a = 0"
| "linked nx a (n # ns) \<longleftrightarrow> a = n \<and> n \<noteq> 0 \<and> linked nx (nx n) ns"

locale list_printer =
  fixes nx :: "u32 \<Rightarrow> u32" and line :: "u32 \<Rightarrow> u8 list"
    and loop :: "u32 \<Rightarrow> serial \<Rightarrow> (kerror + serial) option"
  assumes loop: "loop a s = (if a = 0 then Some (Inr s)
    else case DebugPuts (line a) s of Inl e \<Rightarrow> Some (Inl e) | Inr s1 \<Rightarrow> loop (nx a) s1)"
begin

lemma loop_prints: "linked nx a ns \<Longrightarrow> returned (loop a s) = DebugPuts (concat (map line ns)) s"
proof (induction ns arbitrary: a s)
  case Nil
  then show ?case by (subst loop) simp
next
  case (Cons n ns)
  have "returned (loop n s) = bindE (DebugPuts (line n) s) (\<lambda>s1. returned (loop (nx n) s1))"
    using Cons.prems by (subst loop, cases "DebugPuts (line n) s") simp_all
  with Cons show ?case by simp
qed

end

definition trace_entry :: "(u32 \<Rightarrow> u32) \<Rightarrow> u32 \<Rightarrow> u8 list" where
  "trace_entry rd f = bytes ''0x'' @ hexadecimal (rd (f + 4)) @ [10]"

interpretation trace: list_printer rd "trace_entry rd" "trace_loop rd" for rd
proof
  fix a s
  show "trace_loop rd a s = (if a = 0 then Some (Inr s)
    else case DebugPuts (trace_entry rd a) s of Inl e \<Rightarrow> Some (Inl e) | Inr s1 \<Rightarrow> trace_loop rd (rd a) s1)"
    by (subst trace_loop.simps) (simp only: DebugPrintf_text [OF trace_line] trace_entry_def)
qed

definition trace_text :: "(u32 \<Rightarrow> u32) \<Rightarrow> u32 list \<Rightarrow> u8 list" where
  "trace_text rd fs = bytes ''Stack trace:'' @ [10] @ concat (map (trace_entry rd) fs)"

lemma StackTrace_prints: "linked rd fp fs \<Longrightarrow> StackTrace rd fp s = DebugPuts (trace_text rd fs) s"
  by (simp add: StackTrace_def DebugLog_def trace.loop_prints trace_text_def bindE_assoc)

definition assert_text :: "u32 \<Rightarrow> u8 list \<Rightarrow> u8 list" where
  "assert_text n msg = bytes ''Assertion failed while process '' @ decimal n @ bytes '' was running!'' @ [10] @ msg @ [10]"

lemma assert_line:
  "format_loop (bytes ''Assertion failed while process %d was running!'' @ [10]) [Num n] =
     Inr (bytes ''Assertion failed while process '' @ decimal n @ bytes '' was running!'' @ [10])"
  by (simp add: conversion.simps bytes_simps)

text \<open>
  A failed assertion reports the running process, the message and the return addresses of the frames on
  the stack over the port, and the message on the screen, before the kernel stops. While no process runs,
  as during boot, it follows a null pointer instead and reports nothing.
\<close>

theorem kassert_reports:
  assumes chain: "linked rd fp fs" and line: "ready_forever (line_status s)"
  shows "kassert rd fp k msg (s, v) = Inl Null_Deref \<and> current_process k = 0
    \<or> (\<exists>s'. kassert rd fp k msg (s, v) = Inr (s', kputs (msg @ [10] @ bytes ''Kernel panic!'' @ [10]) v)
        \<and> serial_sent (assert_text (pid (proc_at k (current_process k))) msg @ trace_text rd fs) s s')"
proof (cases "current_process k = 0")
  case False
  let ?w = "assert_text (pid (proc_at k (current_process k))) msg @ trace_text rd fs"
  have "kassert rd fp k msg (s, v) =
      bindE (DebugPuts ?w s) (\<lambda>s. Inr (s, kprintln (bytes ''Kernel panic!'') (kprintln msg v)))"
    using False
    by (simp add: kassert_def DebugPrintf_text [OF assert_line] DebugLog_def StackTrace_prints [OF chain] assert_text_def
        bindE_assoc)
  moreover obtain s' where "DebugPuts ?w s = Inr s'" "serial_sent ?w s s'" using DebugPuts_sends_all [OF line] by blast
  ultimately show ?thesis by (auto simp: kprintln_def kputs_def)
qed (simp add: kassert_def)

section \<open>Witnesses\<close>

definition ready_serial :: serial where
  "ready_serial = \<lparr>line_status = sconst 0x20, serial_out = []\<rparr>"

lemma ready_serial_ok: "ready_forever (line_status ready_serial)" "serial_out ready_serial = []"
  by (auto simp: ready_serial_def ready_forever_def line_ready_def)

theorem DebugPuts_sends_witness:
  "\<exists>s'. DebugPuts [72, 105] ready_serial = Inr s' \<and> serial_out s' = [(COM1, 105), (COM1, 72)]"
  using DebugPuts_sends [of ready_serial "[72, 105]"] ready_serial_ok by (auto simp: serial_sent_def)

theorem DebugPrintf_agrees_with_kprintf_witness:
  "\<forall>v. \<exists>v' s'. kprintf (bytes ''0x%x'' @ [10]) [Num 255] v = Inr v'
     \<and> DebugPrintf (bytes ''0x%x'' @ [10]) [Num 255] ready_serial = Inr s'"
proof
  fix v
  have "hexadecimal 255 = [70, 70]"
    by (simp add: hexadecimal_def number_def digits_loop.simps digit_def)
  then have v: "kprintf (bytes ''0x%x'' @ [10]) [Num 255] v = Inr (kputs (bytes ''0x'' @ [70, 70] @ [10]) v)"
    using trace_line [of 255] by (simp add: kprintf_def)
  from DebugPrintf_agrees_with_kprintf [OF v ready_serial_ok(1)] obtain w s' where
    w: "kputs (bytes ''0x'' @ [70, 70] @ [10]) v = kputs w v"
    "DebugPrintf (bytes ''0x%x'' @ [10]) [Num 255] ready_serial = Inr s'" "serial_sent w ready_serial s'" by blast
  show "\<exists>v' s'. kprintf (bytes ''0x%x'' @ [10]) [Num 255] v = Inr v'
     \<and> DebugPrintf (bytes ''0x%x'' @ [10]) [Num 255] ready_serial = Inr s'"
    using v w(2) by blast
qed

theorem kassert_reports_witness:
  "\<forall>k v. \<exists>s' v'. kassert (\<lambda>_. 0) 0x5000 (k\<lparr>current_process := 0x10\<rparr>) [72, 105] (ready_serial, v) = Inr (s', v')"
proof (intro allI)
  fix k :: kernel and v
  have "linked (\<lambda>_. 0) 0x5000 [0x5000]" by simp
  from kassert_reports [OF this ready_serial_ok(1), of "k\<lparr>current_process := 0x10\<rparr>" "[72, 105]" v]
  show "\<exists>s' v'. kassert (\<lambda>_. 0) 0x5000 (k\<lparr>current_process := 0x10\<rparr>) [72, 105] (ready_serial, v) = Inr (s', v')"
    by auto
qed

end
