(* ===== verification/Message.thy ===== *)
theory Message
  imports Kernel_State
begin

text \<open>
  Message passing, \<open>hal.x86/message.c\<close>: every process has a doubly linked queue of messages, sending
  appends a copy, receiving takes the first message or the first one of a given sender. The queue as a
  list of messages, the behaviour of both operations over it, and the contract of a mailbox.
\<close>

section \<open>Operations\<close>

definition copy_message :: "u32 \<Rightarrow> u32 \<Rightarrow> kernel \<Rightarrow> kernel" where
  "copy_message dest src s =
     (if src = 0 \<or> dest = 0 then s
      else
        let m = msg_at s src
        in upd_msg dest (\<lambda>d. d\<lparr>sender := sender m, receiver := receiver m, signal := signal m,
                              msize := msize m, body := body m\<rparr>) s)"

text \<open>The loop to the end of a queue.\<close>

partial_function (option) queue_end :: "kernel \<Rightarrow> u32 \<Rightarrow> u32 option" where
  "queue_end s node = (if node_next s node = 0 then Some node else queue_end s (node_next s node))"

text \<open>
  \<open>ksend_message\<close>. With a null message it reports the sender's PID before it looks whether there is a
  sender; the report itself is debug output.
\<close>

definition link_last :: "u32 \<Rightarrow> u32 \<Rightarrow> kernel \<Rightarrow> kerror + u32 \<times> kernel" where
  "link_last to newmsg s =
     (let node = ml_first (messages (proc_at s to)) in
      if node = 0 then Inr (0, upd_messages to (ml_first_update (\<lambda>_. newmsg)) s)
      else case queue_end s node of
             None \<Rightarrow> Inl Diverges
           | Some e \<Rightarrow> Inr (e, set_node_next e newmsg s))"

definition ksend_message :: "layout \<Rightarrow> u32 \<Rightarrow> u32 \<Rightarrow> u32 \<Rightarrow> kernel \<Rightarrow> kerror + u32 \<times> kernel" where
  "ksend_message L from to msg s =
     (if msg = 0 then bindE (derefE from) (\<lambda>_. Inr (MESSAGE_ERR_SEND, s))
      else if from = 0 \<or> to = 0 then Inr (MESSAGE_ERR_SEND, s)
      else
        let s1 = upd_msg msg (\<lambda>m. m\<lparr>sender := pid (proc_at s from), receiver := pid (proc_at s to)\<rparr>) s in
        bindE (k_malloc L sizeof_MESSAGE_NODE s1) (\<lambda>(newmsg, s2).
        bindE (link_last to newmsg s2) (\<lambda>(node, s3).
        let s4 = set_node_next newmsg 0 (set_node_prev newmsg node s3);
            s5 = upd_messages to (ml_last_update (\<lambda>_. newmsg)) s4;
            s6 = copy_message newmsg msg s5;
            s7 = upd_messages to (num_messages_update (\<lambda>n. n + 1)) s6
        in Inr (MESSAGE_SENT, s7))))"

text \<open>The loop to the first message of a sender; \<open>0\<close> where there is none.\<close>

partial_function (option) find_sender :: "kernel \<Rightarrow> u32 \<Rightarrow> u32 \<Rightarrow> u32 option" where
  "find_sender s who node =
     (if node = 0 then Some 0
      else if sender (msg_at s node) = who then Some node
      else find_sender s who (node_next s node))"

text \<open>Taking the first node out of a queue, and taking a node found by its sender.\<close>

definition unlink_first :: "u32 \<Rightarrow> u32 \<Rightarrow> kernel \<Rightarrow> kernel" where
  "unlink_first p node s =
     (let s1 = if node_next s node \<noteq> 0 then set_node_prev (node_next s node) 0 s else s
      in upd_messages p (ml_first_update (\<lambda>_. node_next s1 node)) s1)"

definition unlink_found :: "u32 \<Rightarrow> u32 \<Rightarrow> kernel \<Rightarrow> kerror + kernel" where
  "unlink_found p node s =
     bindE
       (if node_next s node \<noteq> 0 then Inr (set_node_prev (node_next s node) (node_prev s node) s)
        else
          let s1 = upd_messages p (ml_last_update (\<lambda>_. node_prev s node)) s in
          bindE (derefE (node_prev s1 node)) (\<lambda>_. Inr (set_node_next (node_prev s1 node) 0 s1)))
       (\<lambda>s2.
          if node_prev s2 node \<noteq> 0 then Inr (set_node_next (node_prev s2 node) (node_next s2 node) s2)
          else
            let s3 = upd_messages p (ml_first_update (\<lambda>_. node_next s2 node)) s2 in
            bindE (derefE (node_next s3 node)) (\<lambda>_. Inr (set_node_prev (node_next s3 node) 0 s3)))"

definition take_message :: "layout \<Rightarrow> u32 \<Rightarrow> u32 \<Rightarrow> u32 \<Rightarrow> kernel \<Rightarrow> kerror + u32 \<times> kernel" where
  "take_message L p msg node s =
     bindE (k_free L node (copy_message msg node s)) (\<lambda>s'.
     Inr (MESSAGE_RECEIVED, upd_messages p (num_messages_update (\<lambda>n. n - 1)) s'))"

definition kreceive_message :: "layout \<Rightarrow> u32 \<Rightarrow> u32 \<Rightarrow> u32 \<Rightarrow> kernel \<Rightarrow> kerror + u32 \<times> kernel" where
  "kreceive_message L p msg who s =
     (if msg = 0 then Inr (MESSAGE_ERR_RECEIVE, s)
      else
        bindE (derefE p) (\<lambda>_.
        let node = ml_first (messages (proc_at s p)) in
        if node = 0 \<or> num_messages (messages (proc_at s p)) = 0 then Inr (MESSAGE_ERR_RECEIVE, s)
        else if who = MESSAGE_ANY then take_message L p msg node (unlink_first p node s)
        else case find_sender s who node of
               None \<Rightarrow> Inl Diverges
             | Some found \<Rightarrow>
                 if found = 0 then Inr (MESSAGE_ERR_RECEIVE, s)
                 else bindE (unlink_found p found s) (take_message L p msg found)))"

section \<open>Queues as lists\<close>

text \<open>
  A segment of a doubly linked list: the nodes \<open>ns\<close> from address \<open>a\<close>, the first pointing back to \<open>b\<close>,
  the last pointing on to \<open>c\<close>. A queue is a segment from \<open>0\<close> back to \<open>0\<close> on.
\<close>

fun seg :: "kernel \<Rightarrow> u32 \<Rightarrow> u32 \<Rightarrow> u32 list \<Rightarrow> u32 \<Rightarrow> bool" where
  "seg s b a [] c \<longleftrightarrow> a = c"
| "seg s b a (n # ns) c \<longleftrightarrow> a = n \<and> n \<noteq> 0 \<and> node_prev s n = b \<and> seg s n (node_next s n) ns c"

definition queue_ok :: "layout \<Rightarrow> kernel \<Rightarrow> u32 \<Rightarrow> u32 list \<Rightarrow> bool" where
  "queue_ok L s p ns \<longleftrightarrow> heap_ok L (heap s) \<and> seg s 0 (ml_first (messages (proc_at s p))) ns 0
     \<and> distinct ns \<and> (\<forall>n \<in> set ns. live_block L (heap s) n)
     \<and> num_messages (messages (proc_at s p)) = of_nat (length ns)"

text \<open>What a message says: all fields but the unused link.\<close>

type_synonym payload = "u32 \<times> u32 \<times> u32 \<times> u32 \<times> u8 list"

definition payload :: "message \<Rightarrow> payload" where
  "payload m = (sender m, receiver m, msize m, signal m, body m)"

definition payloads :: "kernel \<Rightarrow> u32 list \<Rightarrow> payload list" where
  "payloads s ns = map (\<lambda>n. payload (msg_at s n)) ns"

lemma seg_nonzero: "seg s b a ns c \<Longrightarrow> n \<in> set ns \<Longrightarrow> n \<noteq> 0"
  by (induction ns arbitrary: a b) auto

lemma seg_cong:
  "(\<And>n. n \<in> set ns \<Longrightarrow> node_next s' n = node_next s n \<and> node_prev s' n = node_prev s n) \<Longrightarrow>
     seg s' b a ns c \<longleftrightarrow> seg s b a ns c"
  by (induction ns arbitrary: a b) auto

lemma seg_append:
  "seg s b a (us @ vs) c \<longleftrightarrow> (\<exists>m. seg s b a us m \<and> seg s (last (b # us)) m vs c)"
  by (induction us arbitrary: a b) auto

lemma seg_hd: "seg s b a ns 0 \<Longrightarrow> (a = 0 \<longleftrightarrow> ns = []) \<and> (ns \<noteq> [] \<longrightarrow> a = hd ns \<and> node_prev s a = b)"
  by (cases ns) auto

lemma seg_redirect:
  assumes "seg s b a ns c" "distinct ns" "ns \<noteq> []" "e = last ns"
  shows "seg (set_node_next e d s) b a ns d"
  using assms
proof (induction ns arbitrary: a b)
  case (Cons n ns)
  show ?case
  proof (cases "ns = []")
    case True
    with Cons.prems show ?thesis by (simp add: set_node_next_def)
  next
    case False
    with Cons.prems have "n \<noteq> e" by auto
    with Cons False show ?thesis by (simp add: set_node_next_def)
  qed
qed simp

lemma seg_set_next_other: "e \<notin> set ns \<Longrightarrow> seg (set_node_next e d s) b a ns c \<longleftrightarrow> seg s b a ns c"
  by (rule seg_cong) (auto simp: set_node_next_def)

lemma seg_set_prev_other: "e \<notin> set ns \<Longrightarrow> seg (set_node_prev e d s) b a ns c \<longleftrightarrow> seg s b a ns c"
  by (rule seg_cong) (auto simp: set_node_prev_def)

lemma seg_set_back:
  assumes "seg s b a ns c" "distinct ns" "ns \<noteq> []"
  shows "seg (set_node_prev a d s) d a ns c"
proof -
  obtain n ms where ns: "ns = n # ms" using assms(3) by (cases ns) auto
  with assms(1,2) have "seg (set_node_prev n d s) n (node_next s n) ms c"
    by (simp add: seg_set_prev_other)
  with assms(1) ns show ?thesis by (simp add: set_node_prev_def)
qed

lemma seg_upd [simp]:
  "seg (upd_msg x f s) b a ns c \<longleftrightarrow> seg s b a ns c"
  "seg (upd_messages x g s) b a ns c \<longleftrightarrow> seg s b a ns c"
  "seg (copy_message x y s) b a ns c \<longleftrightarrow> seg s b a ns c"
  "seg (s\<lparr>heap := h\<rparr>) b a ns c \<longleftrightarrow> seg s b a ns c"
  by (rule seg_cong; simp add: upd_defs copy_message_def Let_def)+

text \<open>The two loops over a queue.\<close>

lemma queue_end_seg: "seg s b a ns 0 \<Longrightarrow> ns \<noteq> [] \<Longrightarrow> queue_end s a = Some (last ns)"
proof (induction ns arbitrary: a b)
  case (Cons n ns)
  then show ?case by (cases ns) (auto simp: queue_end.simps [of s n])
qed simp

lemma find_sender_seg:
  "seg s b a ns 0 \<Longrightarrow>
     find_sender s who a = Some (case find (\<lambda>n. sender (msg_at s n) = who) ns of None \<Rightarrow> 0 | Some n \<Rightarrow> n)"
proof (induction ns arbitrary: a b)
  case Nil
  then show ?case by (simp add: find_sender.simps)
next
  case (Cons n ns)
  then show ?case by (auto simp: find_sender.simps [of s who n])
qed

section \<open>Sending\<close>

lemma queue_okD:
  assumes "queue_ok L s p ns"
  shows "heap_ok L (heap s)" "seg s 0 (ml_first (messages (proc_at s p))) ns 0" "distinct ns"
    "n \<in> set ns \<Longrightarrow> live_block L (heap s) n" "length ns < 0x80000000"
    "num_messages (messages (proc_at s p)) = of_nat (length ns)"
  using assms live_blocks_few [of L "heap s" ns] by (auto simp: queue_ok_def)

text \<open>The state after a send, given the node the heap handed out.\<close>

definition sent :: "u32 \<Rightarrow> u32 \<Rightarrow> u32 \<Rightarrow> u32 \<Rightarrow> kheap \<Rightarrow> u32 list \<Rightarrow> kernel \<Rightarrow> kernel" where
  "sent from to msg new h ns s =
     (let m = (msg_at s msg)\<lparr>sender := pid (proc_at s from), receiver := pid (proc_at s to)\<rparr>;
          ml = messages (proc_at s to)
      in s\<lparr>heap := h,
           msg_at := (msg_at s)(msg := m,
             new := (msg_at s new)\<lparr>sender := sender m, receiver := receiver m, signal := signal m,
                                   msize := msize m, body := body m\<rparr>),
           node_next := (if ns = [] then node_next s else (node_next s)(last ns := new))(new := 0),
           node_prev := (node_prev s)(new := if ns = [] then 0 else last ns),
           proc_at := (proc_at s)(to := (proc_at s to)\<lparr>messages :=
             ml\<lparr>ml_first := if ns = [] then new else ml_first ml, ml_last := new,
                num_messages := num_messages ml + 1\<rparr>\<rparr>)\<rparr>)"

lemma ksend_message_eq:
  assumes q: "queue_ok L s to ns" and args: "msg \<noteq> 0" "from \<noteq> 0" "to \<noteq> 0"
    and alloc: "kmalloc L sizeof_MESSAGE_NODE (heap s) = Inr (new, h)" "new \<noteq> 0" "msg \<noteq> new"
  shows "ksend_message L from to msg s = Inr (MESSAGE_SENT, sent from to msg new h ns s)"
proof -
  let ?s1 = "upd_msg msg (\<lambda>m. m\<lparr>sender := pid (proc_at s from), receiver := pid (proc_at s to)\<rparr>) s"
  let ?s2 = "?s1\<lparr>heap := h\<rparr>"
  let ?first = "ml_first (messages (proc_at s to))"
  have alloc': "k_malloc L sizeof_MESSAGE_NODE ?s1 = Inr (new, ?s2)"
    using alloc(1) by (simp add: k_malloc_def upd_msg_def)
  have first: "ml_first (messages (proc_at ?s2 to)) = ?first" by (simp add: upd_msg_def)
  have "seg ?s2 0 ?first ns 0" using queue_okD(2) [OF q] by simp
  then have last: "queue_end ?s2 ?first = Some (last ns)" if "ns \<noteq> []"
    using that queue_end_seg by blast
  show ?thesis
  proof (cases "ns = []")
    case True
    then have "?first = 0" using queue_okD(2) [OF q] by simp
    with True alloc' first args alloc(2,3) show ?thesis
      by (simp add: ksend_message_def link_last_def Let_def)
        (auto simp: upd_defs copy_message_def sent_def Let_def
          intro!: kernel.equality ext process.equality message_list.equality)
  next
    case False
    then have "?first \<noteq> 0" using queue_okD(2) [OF q] seg_hd by blast
    with False alloc' first last [OF False] args alloc(2,3) show ?thesis
      by (simp add: ksend_message_def link_last_def Let_def)
        (auto simp: upd_defs copy_message_def sent_def Let_def
          intro!: kernel.equality ext process.equality message_list.equality)
  qed
qed

lemma kmalloc_fresh:
  assumes "heap_ok L h" "kmalloc L sizeof_MESSAGE_NODE h = Inr (new, h')"
  shows "heap_ok L h'" "new \<noteq> 0" "\<not> live_block L h new" "live_block L h' q \<longleftrightarrow> q = new \<or> live_block L h q"
  using kmalloc_new_block [OF assms(1) _ assms(2)] by (simp_all add: request_ok_def)

lemma ksend_message_effect:
  assumes q: "queue_ok L s to ns"
    and args: "msg \<noteq> 0" "from \<noteq> 0" "to \<noteq> 0"
    and alloc: "kmalloc L sizeof_MESSAGE_NODE (heap s) = Inr (new, h)"
    and buffer: "msg \<notin> set ns" "msg \<noteq> new"
  shows "\<exists>s'. ksend_message L from to msg s = Inr (MESSAGE_SENT, s')
    \<and> queue_ok L s' to (ns @ [new])
    \<and> payloads s' (ns @ [new]) = payloads s ns @ [payload ((msg_at s msg)
         \<lparr>sender := pid (proc_at s from), receiver := pid (proc_at s to)\<rparr>)]
    \<and> (\<forall>p ms. p \<noteq> to \<and> queue_ok L s p ms \<and> set ms \<inter> set ns = {} \<and> msg \<notin> set ms \<longrightarrow>
         queue_ok L s' p ms \<and> payloads s' ms = payloads s ms)
    \<and> (\<forall>r. proc_at s' r = (proc_at s r)\<lparr>messages := messages (proc_at s' r)\<rparr>)"
proof -
  note fresh = kmalloc_fresh [OF queue_okD(1) [OF q] alloc]
  let ?s' = "sent from to msg new h ns s"
  have run: "ksend_message L from to msg s = Inr (MESSAGE_SENT, ?s')"
    by (rule ksend_message_eq [OF q args alloc fresh(2) buffer(2)])
  have new: "new \<notin> set ms" if "queue_ok L s p ms" for p ms
    using queue_okD(4) [OF that] fresh(3) by blast
  have pay: "payloads ?s' ms = payloads s ms" if "queue_ok L s p ms" "msg \<notin> set ms" for p ms
    using new [OF that(1)] that(2) by (auto simp: payloads_def sent_def Let_def payload_def)
  have first: "ml_first (messages (proc_at ?s' to)) = (if ns = [] then new else ml_first (messages (proc_at s to)))"
    by (simp add: sent_def Let_def)
  have seg: "seg ?s' 0 (ml_first (messages (proc_at ?s' to))) (ns @ [new]) 0"
  proof (cases "ns = []")
    case True
    then show ?thesis using fresh(2) first by (simp add: sent_def Let_def)
  next
    case False
    have "seg (set_node_next (last ns) new s) 0 (ml_first (messages (proc_at s to))) ns new"
      using seg_redirect [OF queue_okD(2,3) [OF q] False refl] .
    also have "seg (set_node_next (last ns) new s) 0 (ml_first (messages (proc_at s to))) ns new
        \<longleftrightarrow> seg ?s' 0 (ml_first (messages (proc_at s to))) ns new"
      using new [OF q] False by (intro seg_cong) (auto simp: sent_def Let_def set_node_next_def)
    finally show ?thesis using False fresh(2) first by (simp add: seg_append) (simp add: sent_def Let_def)
  qed
  have "queue_ok L ?s' to (ns @ [new])"
    unfolding queue_ok_def using seg q fresh new [OF q]
    by (auto simp: queue_ok_def sent_def Let_def)
  moreover have "queue_ok L ?s' p ms" if "p \<noteq> to" "queue_ok L s p ms" "set ms \<inter> set ns = {}" for p ms
  proof -
    have "last ns \<notin> set ms \<or> ns = []" using that(3) by (metis disjoint_iff last_in_set)
    then have "seg ?s' 0 (ml_first (messages (proc_at s p))) ms 0"
      using queue_okD(2) [OF that(2)] new [OF that(2)]
      by (subst seg_cong [where s = s]) (auto simp: sent_def Let_def)
    then show ?thesis using that(1,2) fresh by (auto simp: queue_ok_def sent_def Let_def)
  qed
  moreover have "payloads ?s' (ns @ [new]) = payloads s ns @ [payload ((msg_at s msg)
         \<lparr>sender := pid (proc_at s from), receiver := pid (proc_at s to)\<rparr>)]"
    using pay [OF q buffer(1)] by (simp add: payloads_def) (simp add: sent_def Let_def payload_def)
  moreover have "proc_at ?s' r = (proc_at s r)\<lparr>messages := messages (proc_at ?s' r)\<rparr>" for r
    by (simp add: sent_def Let_def)
  ultimately show ?thesis using run pay by blast
qed

text \<open>
  C17: Sending to a well-formed queue, once the heap has handed out a node, returns
  \<open>MESSAGE_SENT\<close> and appends exactly one message: the caller's, stamped with the PIDs of sender and
  receiver. The messages already queued and their order stay, the count goes up by one, and every other
  process's queue keeps its messages.
\<close>

theorem ksend_message_appends:
  assumes q: "queue_ok L s to ns"
    and args: "msg \<noteq> 0" "from \<noteq> 0" "to \<noteq> 0"
    and alloc: "kmalloc L sizeof_MESSAGE_NODE (heap s) = Inr (new, h)"
    and buffer: "msg \<notin> set ns" "msg \<noteq> new"
  shows "\<exists>s'. ksend_message L from to msg s = Inr (MESSAGE_SENT, s')
    \<and> queue_ok L s' to (ns @ [new])
    \<and> payloads s' (ns @ [new]) = payloads s ns @ [payload ((msg_at s msg)
         \<lparr>sender := pid (proc_at s from), receiver := pid (proc_at s to)\<rparr>)]
    \<and> (\<forall>p ms. p \<noteq> to \<and> queue_ok L s p ms \<and> set ms \<inter> set ns = {} \<and> msg \<notin> set ms \<longrightarrow>
         queue_ok L s' p ms \<and> payloads s' ms = payloads s ms)
    \<and> (\<forall>r. proc_at s' r = (proc_at s r)\<lparr>messages := messages (proc_at s' r)\<rparr>)"
  by (rule ksend_message_effect [OF assms])

section \<open>Receiving\<close>

text \<open>
  What taking a node out of a queue has to establish, and what the rest of \<open>kreceive_message\<close> makes
  of it: the message is copied to the caller, the node goes back to the heap, the count goes down.
\<close>

definition unlinked :: "kernel \<Rightarrow> u32 \<Rightarrow> u32 list \<Rightarrow> u32 \<Rightarrow> u32 list \<Rightarrow> kernel \<Rightarrow> bool" where
  "unlinked s p us n vs s1 \<longleftrightarrow> heap s1 = heap s \<and> msg_at s1 = msg_at s
     \<and> (\<forall>q. q \<noteq> p \<longrightarrow> proc_at s1 q = proc_at s q)
     \<and> proc_at s1 p = (proc_at s p)\<lparr>messages := messages (proc_at s1 p)\<rparr>
     \<and> num_messages (messages (proc_at s1 p)) = num_messages (messages (proc_at s p))
     \<and> seg s1 0 (ml_first (messages (proc_at s1 p))) (us @ vs) 0
     \<and> (\<forall>x. x \<notin> set (us @ n # vs) \<longrightarrow> node_next s1 x = node_next s x \<and> node_prev s1 x = node_prev s x)"

definition received :: "layout \<Rightarrow> kernel \<Rightarrow> u32 \<Rightarrow> u32 \<Rightarrow> u32 list \<Rightarrow> u32 \<Rightarrow> u32 list \<Rightarrow> kernel \<Rightarrow> bool" where
  "received L s p msg us n vs s' \<longleftrightarrow> queue_ok L s' p (us @ vs)
     \<and> payload (msg_at s' msg) = payload (msg_at s n)
     \<and> (\<forall>r. proc_at s' r = (proc_at s r)\<lparr>messages := messages (proc_at s' r)\<rparr>)
     \<and> (msg \<notin> set (us @ vs) \<longrightarrow> payloads s' (us @ vs) = payloads s (us @ vs))
     \<and> (\<forall>b. live_block L (heap s') b \<longleftrightarrow> b \<noteq> n \<and> live_block L (heap s) b)
     \<and> (\<forall>q ms. q \<noteq> p \<and> queue_ok L s q ms \<and> set ms \<inter> set (us @ n # vs) = {} \<and> msg \<notin> set ms \<longrightarrow>
          queue_ok L s' q ms \<and> payloads s' ms = payloads s ms)"

lemma same_but_messages:
  "q = (p :: process)\<lparr>messages := m\<rparr> \<Longrightarrow> q\<lparr>messages := x\<rparr> = p\<lparr>messages := x\<rparr>"
  by simp

lemma take_message_received:
  assumes q: "queue_ok L s p (us @ n # vs)" and un: "unlinked s p us n vs s1"
    and msg: "msg \<noteq> 0" and room: "n < HEAP_END L"
  shows "\<exists>s'. take_message L p msg n s1 = Inr (MESSAGE_RECEIVED, s') \<and> received L s p msg us n vs s'"
proof -
  note u = un [unfolded unlinked_def]
  have live: "live_block L (heap s) n" using queue_okD(4) [OF q, of n] by simp
  obtain h where h: "kfree L n (heap s) = Inr h" "heap_ok L h"
      "\<And>b. live_block L h b \<longleftrightarrow> b \<noteq> n \<and> live_block L (heap s) b"
    using kheap.mfree_live [OF queue_okD(1) [OF q] live room] by blast
  let ?s' = "upd_messages p (num_messages_update (\<lambda>k. k - 1)) ((copy_message msg n s1)\<lparr>heap := h\<rparr>)"
  have n0: "n \<noteq> 0" using seg_nonzero [OF queue_okD(2) [OF q]] by simp
  have heap': "heap (copy_message msg n s1) = heap s"
    using u by (simp add: copy_message_def upd_msg_def Let_def)
  then have run: "take_message L p msg n s1 = Inr (MESSAGE_RECEIVED, ?s')"
    using h(1) by (simp add: take_message_def k_free_def)
  have msgs: "msg_at ?s' x = (if x = msg then (msg_at s msg)\<lparr>sender := sender (msg_at s n),
      receiver := receiver (msg_at s n), signal := signal (msg_at s n), msize := msize (msg_at s n),
      body := body (msg_at s n)\<rparr> else msg_at s x)" for x
    using u n0 msg by (simp add: copy_message_def upd_defs Let_def)
  have nodes: "node_next ?s' = node_next s1" "node_prev ?s' = node_prev s1"
    by (simp_all add: copy_message_def upd_defs Let_def)
  have procs: "proc_at (copy_message msg n s1) = proc_at s1"
    by (simp add: copy_message_def upd_msg_def Let_def)
  have first: "ml_first (messages (proc_at ?s' p)) = ml_first (messages (proc_at s1 p))"
    and num: "num_messages (messages (proc_at ?s' p)) = num_messages (messages (proc_at s1 p)) - 1"
    and other: "\<And>r. r \<noteq> p \<Longrightarrow> proc_at ?s' r = proc_at s1 r"
    by (simp_all add: upd_messages_def upd_proc_def procs)
  have seg': "seg ?s' b a ms c \<longleftrightarrow> seg s1 b a ms c" for b a ms c
    by (rule seg_cong) (simp add: nodes)
  have "queue_ok L ?s' p (us @ vs)"
    using q u h(2,3) unfolding queue_ok_def seg' first num
    by (auto simp: upd_messages_def upd_proc_def)
  moreover have "payload (msg_at ?s' msg) = payload (msg_at s n)"
    by (simp add: msgs payload_def)
  moreover have "payloads ?s' ms = payloads s ms" if "msg \<notin> set ms" for ms
    using that by (auto simp: payloads_def msgs)
  moreover have "queue_ok L ?s' r ms"
    if "r \<noteq> p" "queue_ok L s r ms" "set ms \<inter> set (us @ n # vs) = {}" for r ms
  proof -
    have "seg s1 0 (ml_first (messages (proc_at s r))) ms 0"
      using queue_okD(2) [OF that(2)] u that(3) by (subst seg_cong [where s = s]) auto
    moreover have "n \<notin> set ms" using that(3) by auto
    ultimately show ?thesis
      using that(1,2) u h(2,3) other [OF that(1)] unfolding queue_ok_def seg'
      by (auto simp: upd_messages_def upd_proc_def)
  qed
  moreover have "\<forall>b. live_block L (heap ?s') b \<longleftrightarrow> b \<noteq> n \<and> live_block L (heap s) b"
    using h(3) by (simp add: upd_messages_def upd_proc_def)
  moreover have "proc_at ?s' r = (proc_at s r)\<lparr>messages := messages (proc_at ?s' r)\<rparr>" for r
  proof (cases "r = p")
    case True
    have "proc_at s1 p = (proc_at s p)\<lparr>messages := messages (proc_at s1 p)\<rparr>" using u by blast
    then have "(proc_at s1 p)\<lparr>messages := x\<rparr> = (proc_at s p)\<lparr>messages := x\<rparr>" for x
      by (rule same_but_messages)
    then show ?thesis using True by (simp add: upd_messages_def upd_proc_def procs)
  next
    case False
    then show ?thesis using other u by simp
  qed
  ultimately have "received L s p msg us n vs ?s'" unfolding received_def by blast
  with run show ?thesis by blast
qed

lemma unlink_first_unlinked:
  assumes q: "queue_ok L s p (n # vs)"
  shows "unlinked s p [] n vs (unlink_first p n s)"
proof -
  have seg: "seg s n (node_next s n) vs 0" and d: "distinct vs" "n \<notin> set vs"
    using queue_okD(2,3) [OF q] by auto
  show ?thesis
  proof (cases "vs = []")
    case True
    with seg show ?thesis by (simp add: unlink_first_def unlinked_def Let_def upd_messages_def upd_proc_def)
  next
    case False
    then have nx: "node_next s n \<noteq> 0" "node_next s n \<in> set vs" using seg seg_hd by fastforce+
    have "seg (set_node_prev (node_next s n) 0 s) 0 (node_next s n) vs 0"
      by (rule seg_set_back [OF seg d(1) False])
    with nx show ?thesis
      by (auto simp: unlink_first_def unlinked_def Let_def)
        (auto simp: upd_messages_def upd_proc_def set_node_prev_def)
  qed
qed

lemma unlink_found_unlinked:
  assumes q: "queue_ok L s p (us @ n # vs)" and more: "us @ vs \<noteq> []"
  shows "\<exists>s1. unlink_found p n s = Inr s1 \<and> unlinked s p us n vs s1"
proof -
  let ?f = "ml_first (messages (proc_at s p))" and ?nx = "node_next s n"
  from queue_okD(2) [OF q] have us: "seg s 0 ?f us n" and prev: "node_prev s n = last (0 # us)"
    and vs: "seg s n ?nx vs 0" and n0: "n \<noteq> 0"
    by (auto simp: seg_append)
  have d: "distinct us" "distinct vs" "n \<notin> set us" "n \<notin> set vs" "set us \<inter> set vs = {}"
    using queue_okD(3) [OF q] by auto
  have nx: "?nx = 0 \<longleftrightarrow> vs = []" and nx_in: "vs \<noteq> [] \<Longrightarrow> ?nx \<in> set vs" using seg_hd [OF vs] by auto
  have e0: "us \<noteq> [] \<Longrightarrow> last us \<noteq> 0" using seg_nonzero [OF us] by simp
  show ?thesis
  proof (cases "vs = []")
    case True
    then have use: "us \<noteq> []" using more by simp
    let ?s1 = "set_node_next (last us) 0 (upd_messages p (ml_last_update (\<lambda>_. last us)) s)"
    have "seg ?s1 0 ?f us 0"
      by (rule seg_redirect [OF _ d(1) use refl]) (use us in simp)
    moreover have "last us \<noteq> n" using use d(3) by auto
    moreover have "set_node_next (last us) 0 ?s1 = ?s1" by (simp add: set_node_next_def)
    ultimately show ?thesis
      using True use nx prev e0 by (intro exI [of _ ?s1])
        (auto simp: unlink_found_def unlinked_def Let_def upd_messages_def upd_proc_def set_node_next_def)
  next
    case False
    then have nx': "?nx \<noteq> 0" "?nx \<in> set vs" "?nx \<noteq> n" using nx nx_in d(4) by auto
    show ?thesis
    proof (cases "us = []")
      case True
      let ?s1 = "upd_messages p (ml_first_update (\<lambda>_. ?nx)) (set_node_prev ?nx 0 s)"
      have "seg (set_node_prev ?nx 0 s) 0 ?nx vs 0" by (rule seg_set_back [OF vs d(2) False])
      then have "seg ?s1 0 ?nx vs 0" by simp
      moreover have "unlink_found p n s = Inr ?s1"
        using True prev nx' by (simp add: unlink_found_def Let_def upd_messages_def upd_proc_def set_node_prev_def)
      ultimately show ?thesis
        using True nx' by (intro exI [of _ ?s1])
          (auto simp: unlinked_def upd_messages_def upd_proc_def set_node_prev_def)
    next
      case use: False
      let ?s2 = "set_node_prev ?nx (last us) s"
      let ?s1 = "set_node_next (last us) ?nx ?s2"
      have "?nx \<notin> set us" "last us \<notin> set vs" "last us \<noteq> n" using nx' d last_in_set [OF use] by auto
      then have "seg ?s1 0 ?f us ?nx" "seg ?s1 (last us) ?nx vs 0"
        using seg_redirect [OF _ d(1) use refl, of ?s2] us seg_set_back [OF vs d(2) False]
        by (simp_all add: seg_set_prev_other seg_set_next_other)
      then have "seg ?s1 0 ?f (us @ vs) 0" using use by (auto simp: seg_append)
      moreover have "unlink_found p n s = Inr ?s1"
        using use prev nx' e0 \<open>last us \<noteq> n\<close>
        by (simp add: unlink_found_def Let_def set_node_prev_def set_node_next_def)
      ultimately show ?thesis
        using use nx' by (intro exI [of _ ?s1])
          (auto simp: unlinked_def set_node_prev_def set_node_next_def)
    qed
  qed
qed

lemma unlink_found_single:
  assumes "queue_ok L s p [n]"
  shows "unlink_found p n s = Inl Null_Deref"
proof -
  have "node_prev s n = 0" "node_next s n = 0" using queue_okD(2) [OF assms] by auto
  then show ?thesis by (simp add: unlink_found_def Let_def upd_messages_def upd_proc_def)
qed

lemma queue_num:
  assumes "queue_ok L s p ns"
  shows "num_messages (messages (proc_at s p)) = 0 \<longleftrightarrow> ns = []"
proof -
  have "unat (of_nat (length ns) :: u32) = length ns"
    using queue_okD(5) [OF assms] by (simp add: unat_of_nat)
  then show ?thesis using queue_okD(6) [OF assms] by (metis length_0_conv unat_eq_zero)
qed

lemma queue_first: "queue_ok L s p ns \<Longrightarrow> ml_first (messages (proc_at s p)) = (if ns = [] then 0 else hd ns)"
  using seg_hd [OF queue_okD(2)] by auto

text \<open>Receiving on a well-formed queue, as a choice of the node to take.\<close>

lemma kreceive_any_eq:
  assumes q: "queue_ok L s p ns" and args: "msg \<noteq> 0" "p \<noteq> 0"
  shows "kreceive_message L p msg MESSAGE_ANY s =
    (case ns of [] \<Rightarrow> Inr (MESSAGE_ERR_RECEIVE, s) | n # vs \<Rightarrow> take_message L p msg n (unlink_first p n s))"
proof (cases ns)
  case Nil
  then show ?thesis using queue_first [OF q] args by (simp add: kreceive_message_def)
next
  case (Cons n vs)
  moreover have "n \<noteq> 0" using seg_nonzero [OF queue_okD(2) [OF q]] Cons by simp
  ultimately show ?thesis using queue_first [OF q] queue_num [OF q] args by (simp add: kreceive_message_def)
qed

lemma kreceive_from_eq:
  assumes q: "queue_ok L s p ns" and args: "msg \<noteq> 0" "p \<noteq> 0" "who \<noteq> MESSAGE_ANY"
  shows "kreceive_message L p msg who s =
    (case find (\<lambda>n. sender (msg_at s n) = who) ns of
       None \<Rightarrow> Inr (MESSAGE_ERR_RECEIVE, s)
     | Some n \<Rightarrow> bindE (unlink_found p n s) (take_message L p msg n))"
proof (cases "find (\<lambda>n. sender (msg_at s n) = who) ns")
  case None
  have "find_sender s who (ml_first (messages (proc_at s p))) = Some 0"
    using find_sender_seg [OF queue_okD(2) [OF q]] None by simp
  then show ?thesis using None args by (simp add: kreceive_message_def Let_def)
next
  case (Some n)
  then have n: "n \<in> set ns" by (auto simp: find_Some_iff)
  have n0: "n \<noteq> 0" using seg_nonzero [OF queue_okD(2) [OF q] n] .
  have "find_sender s who (ml_first (messages (proc_at s p))) = Some n"
    using find_sender_seg [OF queue_okD(2) [OF q]] Some by simp
  moreover have "ns \<noteq> []" using n by auto
  then have "ml_first (messages (proc_at s p)) \<noteq> 0"
    using queue_first [OF q] seg_nonzero [OF queue_okD(2) [OF q] hd_in_set] by simp
  moreover have "num_messages (messages (proc_at s p)) \<noteq> 0" using queue_num [OF q] \<open>ns \<noteq> []\<close> by simp
  ultimately show ?thesis using args n0 Some by (simp add: kreceive_message_def)
qed

lemma take_message_room: "take_message L p msg n s = Inr x \<Longrightarrow> n = 0 \<or> n < HEAP_END L"
  by (auto simp: take_message_def k_free_def kfree_def kernel_simps Let_def split: if_splits)

lemma kreceive_message_returned:
  assumes q: "queue_ok L s p ns" and p0: "p \<noteq> 0" and run: "kreceive_message L p msg who s = Inr (r, s')"
  shows "r = MESSAGE_ERR_RECEIVE \<and> s' = s
    \<or> r = MESSAGE_RECEIVED \<and> (\<exists>us n vs. ns = us @ n # vs \<and> received L s p msg us n vs s')"
proof (cases "msg = 0")
  case True
  then show ?thesis using run by (simp add: kreceive_message_def)
next
  case False
  have taken: ?thesis if ns: "ns = us @ n # vs" and un: "unlinked s p us n vs s1"
    and tk: "take_message L p msg n s1 = Inr (r, s')" for us n vs s1
  proof -
    have "n \<noteq> 0" using seg_nonzero [OF queue_okD(2) [OF q]] ns by simp
    then have "n < HEAP_END L" using take_message_room [OF tk] by simp
    from take_message_received [OF q [unfolded ns] un False this] tk ns show ?thesis by auto
  qed
  show ?thesis
  proof (cases "who = MESSAGE_ANY")
    case True
    show ?thesis
    proof (cases ns)
      case Nil
      then show ?thesis using run True kreceive_any_eq [OF q False p0] by simp
    next
      case (Cons n vs)
      then show ?thesis
        using run True kreceive_any_eq [OF q False p0] taken [of "[]", OF _ unlink_first_unlinked] q by simp
    qed
  next
    case who: False
    show ?thesis
    proof (cases "find (\<lambda>n. sender (msg_at s n) = who) ns")
      case None
      then show ?thesis using run kreceive_from_eq [OF q False p0 who] by simp
    next
      case (Some n)
      from find_split [OF Some] obtain us vs where ns: "ns = us @ n # vs" by blast
      from run Some obtain s1 where s1: "unlink_found p n s = Inr s1" "take_message L p msg n s1 = Inr (r, s')"
        using kreceive_from_eq [OF q False p0 who] by (auto simp: kernel_simps)
      have "us @ vs \<noteq> []" using s1(1) unlink_found_single [of L s p n] q ns by fastforce
      then show ?thesis using unlink_found_unlinked [of L s p us n vs] q ns s1 taken by auto
    qed
  qed
qed

text \<open>Neither operation touches the globals or the memory of the processes.\<close>

definition same_globals :: "kernel \<Rightarrow> kernel \<Rightarrow> bool" where
  "same_globals s s' \<longleftrightarrow> first_process s' = first_process s \<and> num_proc s' = num_proc s
     \<and> idle_process s' = idle_process s \<and> vm s' = vm s \<and> current_process s' = current_process s \<and> ticks s' = ticks s"

lemma same_globals_upd [simp]:
  "same_globals s (upd_msg a f t) \<longleftrightarrow> same_globals s t" "same_globals s (set_node_next a x t) \<longleftrightarrow> same_globals s t"
  "same_globals s (set_node_prev a x t) \<longleftrightarrow> same_globals s t" "same_globals s (upd_messages a g t) \<longleftrightarrow> same_globals s t"
  "same_globals s (copy_message a b t) \<longleftrightarrow> same_globals s t" "same_globals s (t\<lparr>heap := h\<rparr>) \<longleftrightarrow> same_globals s t"
  "same_globals s s"
  by (simp_all add: same_globals_def upd_defs copy_message_def Let_def)

lemma ksend_message_globals: "ksend_message L from to msg s = Inr (r, s') \<Longrightarrow> same_globals s s'"
  by (auto simp: ksend_message_def link_last_def k_malloc_def Let_def kernel_simps split: if_splits option.splits)

lemma kreceive_message_globals: "kreceive_message L p msg who s = Inr (r, s') \<Longrightarrow> same_globals s s'"
  by (auto simp: kreceive_message_def take_message_def unlink_found_def unlink_first_def k_free_def Let_def
      kernel_simps split: if_splits option.splits)

text \<open>
  C18: Receiving from anyone takes messages in the order in which they were queued: on a non-empty queue
  the caller gets the first message, that node goes back to the heap, the rest of the queue and all
  other processes' queues keep their messages; on an empty queue nothing changes and the caller is told.
\<close>

theorem kreceive_message_fifo:
  assumes q: "queue_ok L s p ns" and args: "msg \<noteq> 0" "p \<noteq> 0"
    and room: "ns \<noteq> [] \<Longrightarrow> hd ns < HEAP_END L"
  shows "if ns = [] then kreceive_message L p msg MESSAGE_ANY s = Inr (MESSAGE_ERR_RECEIVE, s)
    else \<exists>s'. kreceive_message L p msg MESSAGE_ANY s = Inr (MESSAGE_RECEIVED, s')
           \<and> received L s p msg [] (hd ns) (tl ns) s'"
proof (cases ns)
  case Nil
  then show ?thesis using kreceive_any_eq [OF q args] by simp
next
  case (Cons n vs)
  then have q': "queue_ok L s p (n # vs)" using q by simp
  then obtain s' where "take_message L p msg n (unlink_first p n s) = Inr (MESSAGE_RECEIVED, s')"
      "received L s p msg [] n vs s'"
    using take_message_received [of L s p "[]", OF _ unlink_first_unlinked [OF q'] args(1)] room Cons
    by auto
  then show ?thesis using Cons kreceive_any_eq [OF q args] by simp
qed

text \<open>
  C19: Receiving from one sender: with no message of that sender queued nothing changes; otherwise the
  caller gets that sender's first message and every other message keeps its place, unless the message is
  the only one in the queue. Then the code writes through the \<open>NULL\<close> links of the single node, once to
  \<open>prev\<close> and once to \<open>next\<close>.
\<close>

theorem kreceive_message_by_sender:
  assumes q: "queue_ok L s p ns" and args: "msg \<noteq> 0" "p \<noteq> 0" "who \<noteq> MESSAGE_ANY"
    and room: "\<forall>n \<in> set ns. n < HEAP_END L"
  shows "case find (\<lambda>n. sender (msg_at s n) = who) ns of
      None \<Rightarrow> kreceive_message L p msg who s = Inr (MESSAGE_ERR_RECEIVE, s)
    | Some n \<Rightarrow>
        if ns = [n] then kreceive_message L p msg who s = Inl Null_Deref
        else \<exists>us vs s'. ns = us @ n # vs \<and> (\<forall>u \<in> set us. sender (msg_at s u) \<noteq> who)
               \<and> kreceive_message L p msg who s = Inr (MESSAGE_RECEIVED, s')
               \<and> received L s p msg us n vs s'"
proof (cases "find (\<lambda>n. sender (msg_at s n) = who) ns")
  case None
  then show ?thesis using kreceive_from_eq [OF q args] by simp
next
  case (Some n)
  from find_split [OF Some] obtain us vs where
    ns: "ns = us @ n # vs" "\<forall>u \<in> set us. sender (msg_at s u) \<noteq> who" by blast
  have run: "kreceive_message L p msg who s = bindE (unlink_found p n s) (take_message L p msg n)"
    using kreceive_from_eq [OF q args] Some by simp
  show ?thesis
  proof (cases "ns = [n]")
    case True
    then show ?thesis using run unlink_found_single q Some by simp
  next
    case False
    then have more: "us @ vs \<noteq> []" using ns(1) by auto
    have q': "queue_ok L s p (us @ n # vs)" using q ns(1) by simp
    from unlink_found_unlinked [OF q' more] obtain s1 where
      s1: "unlink_found p n s = Inr s1" "unlinked s p us n vs s1" by blast
    moreover have "n < HEAP_END L" using room ns(1) by simp
    ultimately obtain s' where "kreceive_message L p msg who s = Inr (MESSAGE_RECEIVED, s')"
        "received L s p msg us n vs s'"
      using take_message_received [OF q' s1(2) args(1)] run by auto
    then show ?thesis using Some False ns by auto
  qed
qed

section \<open>A mailbox\<close>

text \<open>
  The contract a process relies on: what is sent arrives at the end of the queue, what is received comes
  from its front. \<open>holds s q\<close> says that the queue in state \<open>s\<close> holds the messages \<open>q\<close>.
\<close>

fun send_all :: "('m \<Rightarrow> 's \<Rightarrow> 's option) \<Rightarrow> 'm list \<Rightarrow> 's \<Rightarrow> 's option" where
  "send_all tx [] s = Some s"
| "send_all tx (m # ms) s = Option.bind (tx m s) (send_all tx ms)"

fun receive_n :: "('s \<Rightarrow> ('v \<times> 's) option) \<Rightarrow> nat \<Rightarrow> 's \<Rightarrow> ('v list \<times> 's) option" where
  "receive_n rx 0 s = Some ([], s)"
| "receive_n rx (Suc n) s = Option.bind (rx s) (\<lambda>(v, s1).
     Option.bind (receive_n rx n s1) (\<lambda>(vs, s2). Some (v # vs, s2)))"

locale mailbox =
  fixes send :: "'m \<Rightarrow> 's \<Rightarrow> 's option"
    and recv :: "'s \<Rightarrow> ('v \<times> 's) option"
    and holds :: "'s \<Rightarrow> 'v list \<Rightarrow> bool"
    and stamp :: "'m \<Rightarrow> 'v"
  assumes send_last: "holds s q \<Longrightarrow> send m s = Some s' \<Longrightarrow> holds s' (q @ [stamp m])"
    and recv_first: "holds s (v # q) \<Longrightarrow> recv s = Some (w, s') \<Longrightarrow> w = v \<and> holds s' q"
    and recv_empty: "holds s [] \<Longrightarrow> recv s = None"
begin

lemma send_all_holds: "holds s q \<Longrightarrow> send_all send ms s = Some s' \<Longrightarrow> holds s' (q @ map stamp ms)"
proof (induction ms arbitrary: s q)
  case (Cons m ms)
  then obtain s1 where "send m s = Some s1" "send_all send ms s1 = Some s'"
    by (auto simp: bind_eq_Some_conv)
  then show ?case using Cons.IH [of s1 "q @ [stamp m]"] send_last [OF Cons.prems(1)] by simp
qed simp

lemma receive_n_holds:
  "holds s q \<Longrightarrow> receive_n recv n s = Some (vs, s') \<Longrightarrow> n \<le> length q \<and> vs = take n q \<and> holds s' (drop n q)"
proof (induction n arbitrary: s q vs)
  case (Suc n)
  then obtain v s1 ws where step: "recv s = Some (v, s1)" "receive_n recv n s1 = Some (ws, s')" "vs = v # ws"
    by (auto simp: bind_eq_Some_conv)
  then obtain u r where "q = u # r" using recv_empty Suc.prems(1) by (cases q) auto
  with step recv_first Suc.prems(1) Suc.IH [of s1 r ws] show ?case by auto
qed simp

lemma in_order:
  assumes "holds s []" "send_all send ms s = Some s1" "receive_n recv (length ms) s1 = Some (vs, s2)"
  shows "vs = map stamp ms" "holds s2 []"
  using receive_n_holds [OF send_all_holds [OF assms(1,2)] assms(3)] by simp_all

end

text \<open>
  The mailbox of the process at \<open>to\<close>: a sender \<open>from\<close> fills its buffer \<open>out\<close> and calls
  \<open>ksend_message\<close>, the owner receives into its buffer \<open>inb\<close>. Both buffers lie outside the kernel heap.
\<close>

definition mailbox_send :: "layout \<Rightarrow> u32 \<Rightarrow> u32 \<Rightarrow> u32 \<Rightarrow> message \<Rightarrow> kernel \<Rightarrow> kernel option" where
  "mailbox_send L from to out m s =
     (case ksend_message L from to out (upd_msg out (\<lambda>_. m) s) of
        Inr (r, s') \<Rightarrow> if r = MESSAGE_SENT then Some s' else None
      | Inl _ \<Rightarrow> None)"

definition mailbox_recv :: "layout \<Rightarrow> u32 \<Rightarrow> u32 \<Rightarrow> kernel \<Rightarrow> (payload \<times> kernel) option" where
  "mailbox_recv L to inb s =
     (case kreceive_message L to inb MESSAGE_ANY s of
        Inr (r, s') \<Rightarrow> if r = MESSAGE_RECEIVED then Some (payload (msg_at s' inb), s') else None
      | Inl _ \<Rightarrow> None)"

definition outside_heap :: "layout \<Rightarrow> u32 \<Rightarrow> bool" where
  "outside_heap L a \<longleftrightarrow> a \<noteq> 0 \<and> (a \<le> HEAP_START L \<or> unat (HEAP_END L) + 16 \<le> unat a)"

definition mailbox_holds ::
  "layout \<Rightarrow> u32 \<Rightarrow> u32 \<Rightarrow> u32 \<Rightarrow> u32 \<Rightarrow> u32 \<Rightarrow> u32 \<Rightarrow> kernel \<Rightarrow> payload list \<Rightarrow> bool" where
  "mailbox_holds L from to out inb spid rpid s q \<longleftrightarrow>
     (\<exists>ns. queue_ok L s to ns \<and> payloads s ns = q)
   \<and> outside_heap L out \<and> outside_heap L inb \<and> from \<noteq> 0 \<and> to \<noteq> 0
   \<and> pid (proc_at s from) = spid \<and> pid (proc_at s to) = rpid"

definition stamped :: "u32 \<Rightarrow> u32 \<Rightarrow> message \<Rightarrow> payload" where
  "stamped spid rpid m = payload (m\<lparr>sender := spid, receiver := rpid\<rparr>)"

lemma outside_not_live: "outside_heap L a \<Longrightarrow> \<not> live_block L h a"
  using live_block_bounds [of L h a] by (auto simp: outside_heap_def)

lemma outside_not_queued: "outside_heap L a \<Longrightarrow> queue_ok L s p ns \<Longrightarrow> a \<notin> set ns"
  using outside_not_live queue_okD(4) by blast

lemma queue_ok_upd_msg: "queue_ok L (upd_msg a f s) p ns \<longleftrightarrow> queue_ok L s p ns"
  by (simp add: queue_ok_def) (simp add: upd_msg_def)

lemma payloads_upd_msg: "a \<notin> set ns \<Longrightarrow> payloads (upd_msg a f s) ns = payloads s ns"
  by (auto simp: payloads_def upd_msg_def)

lemma mailbox_send_holds:
  assumes h: "mailbox_holds L from to out inb a b s q" and run: "mailbox_send L from to out m s = Some s'"
  shows "mailbox_holds L from to out inb a b s' (q @ [stamped a b m])"
proof -
  let ?s = "upd_msg out (\<lambda>_. m) s"
  from h obtain ns where ns: "queue_ok L s to ns" "payloads s ns = q" and bufs: "outside_heap L out" "outside_heap L inb"
    and ids: "from \<noteq> 0" "to \<noteq> 0" "pid (proc_at s from) = a" "pid (proc_at s to) = b"
    by (auto simp: mailbox_holds_def)
  have q: "queue_ok L ?s to ns" using ns(1) by (simp add: queue_ok_upd_msg)
  have out: "out \<noteq> 0" "out \<notin> set ns" using bufs(1) outside_not_queued [OF bufs(1) ns(1)] by (auto simp: outside_heap_def)
  have heap: "heap (upd_msg out f s) = heap s" for f by (simp add: upd_msg_def)
  from run obtain new h where alloc: "kmalloc L sizeof_MESSAGE_NODE (heap ?s) = Inr (new, h)"
    using out(1) ids by (auto simp: mailbox_send_def ksend_message_def Let_def k_malloc_def kernel_simps heap upd_msg_def
        split: sum.splits if_splits)
  have "out \<noteq> new"
    using kmalloc_fresh(4) [OF queue_okD(1) [OF q] alloc, of new] outside_not_live [OF bufs(1), of h] by auto
  from ksend_message_effect [OF q out(1) ids(1,2) alloc out(2) this] obtain s1 where
    s1: "ksend_message L from to out ?s = Inr (MESSAGE_SENT, s1)" "queue_ok L s1 to (ns @ [new])"
      "payloads s1 (ns @ [new]) = payloads ?s ns @ [payload ((msg_at ?s out)
         \<lparr>sender := pid (proc_at ?s from), receiver := pid (proc_at ?s to)\<rparr>)]"
    and procs: "\<forall>r. proc_at s1 r = (proc_at ?s r)\<lparr>messages := messages (proc_at s1 r)\<rparr>" by blast
  have "s' = s1" using run s1(1) by (simp add: mailbox_send_def)
  moreover have "payloads s1 (ns @ [new]) = q @ [stamped a b m]"
    using s1(3) payloads_upd_msg [OF out(2)] ns(2) ids by (simp add: stamped_def) (simp add: upd_msg_def)
  moreover have "pid (proc_at s1 r) = pid (proc_at s r)" for r
  proof -
    have "pid (proc_at s1 r) = pid ((proc_at ?s r)\<lparr>messages := messages (proc_at s1 r)\<rparr>)" using procs by metis
    then show ?thesis by (simp add: upd_msg_def)
  qed
  ultimately show ?thesis using s1(2) bufs ids by (auto simp: mailbox_holds_def)
qed

lemma mailbox_recv_holds:
  assumes h: "mailbox_holds L from to out inb a b s (v # q)" and run: "mailbox_recv L to inb s = Some (w, s')"
  shows "w = v \<and> mailbox_holds L from to out inb a b s' q"
proof -
  from h obtain ns where ns: "queue_ok L s to ns" "payloads s ns = v # q"
    and bufs: "outside_heap L out" "outside_heap L inb"
    and ids: "from \<noteq> 0" "to \<noteq> 0" "pid (proc_at s from) = a" "pid (proc_at s to) = b"
    by (auto simp: mailbox_holds_def)
  then obtain n vs where n: "ns = n # vs" "payload (msg_at s n) = v" "payloads s vs = q"
    by (auto simp: payloads_def)
  have inb: "inb \<noteq> 0" "inb \<notin> set ns" using bufs(2) outside_not_queued [OF bufs(2) ns(1)] by (auto simp: outside_heap_def)
  have nz: "n \<noteq> 0" using seg_nonzero [OF queue_okD(2) [OF ns(1)]] n(1) by simp
  have eq: "kreceive_message L to inb MESSAGE_ANY s = take_message L to inb n (unlink_first to n s)"
    using inb ids(2) nz queue_first [OF ns(1)] queue_num [OF ns(1)] n(1) by (simp add: kreceive_message_def)
  have un: "unlinked s to [] n vs (unlink_first to n s)" using unlink_first_unlinked ns(1) n(1) by simp
  have room: "n < HEAP_END L"
    using run eq nz un by (auto simp: mailbox_recv_def take_message_def k_free_def kfree_def kernel_simps
        unlinked_def Let_def split: sum.splits if_splits)
  obtain s1 where s1: "take_message L to inb n (unlink_first to n s) = Inr (MESSAGE_RECEIVED, s1)"
      "received L s to inb [] n vs s1"
    using take_message_received [OF _ un inb(1) room] ns(1) n(1) by auto
  have "w = payload (msg_at s1 inb)" "s' = s1" using run eq s1(1) by (auto simp: mailbox_recv_def)
  moreover have "pid (proc_at s1 r) = pid (proc_at s r)" for r
  proof -
    have "pid (proc_at s1 r) = pid ((proc_at s r)\<lparr>messages := messages (proc_at s1 r)\<rparr>)"
      using s1(2) unfolding received_def by metis
    then show ?thesis by simp
  qed
  moreover have "payloads s1 vs = q" "payload (msg_at s1 inb) = v" "queue_ok L s1 to vs"
    using s1(2) inb(2) n by (auto simp: received_def)
  ultimately show ?thesis using bufs ids by (auto simp: mailbox_holds_def)
qed

interpretation mail: mailbox "mailbox_send L origin to out" "mailbox_recv L to inb"
    "mailbox_holds L origin to out inb a b" "stamped a b" for L origin to out inb a b
proof
  fix s
  assume "mailbox_holds L origin to out inb a b s []"
  then show "mailbox_recv L to inb s = None"
    using queue_first [of L s to "[]"]
    by (auto simp: mailbox_holds_def payloads_def mailbox_recv_def kreceive_message_def outside_heap_def)
qed (rule mailbox_send_holds, assumption+, rule mailbox_recv_holds)

text \<open>
  C4: Messages arrive in the order in which they were sent: whatever a process sends to another whose
  queue was empty, as many receives as there were sends return exactly these messages, in order,
  stamped with both PIDs, and leave the queue empty again.
\<close>

theorem messages_arrive_in_order:
  assumes "mailbox_holds L from to out inb a b s []" "send_all (mailbox_send L from to out) ms s = Some s1"
    and "receive_n (mailbox_recv L to inb) (length ms) s1 = Some (vs, s2)"
  shows "vs = map (stamped a b) ms \<and> mailbox_holds L from to out inb a b s2 []"
  using mail.in_order [OF assms] by simp

section \<open>Concrete runs\<close>

definition no_message :: message where
  "no_message = \<lparr>sender = 0, receiver = 0, msize = 0, signal = 0, body = [], m_link = 0\<rparr>"

definition no_process :: process where
  "no_process = \<lparr>p_state = 0, p_context = 0, pid = 0,
     messages = \<lparr>ml_first = 0, ml_last = 0, num_messages = 0\<rparr>, sbrk_state = 0, stack = 0, user_stack = 0,
     sleep_timer = 0, status = 0, uid = 0, p_next = 0\<rparr>"

definition no_cpu :: cpu where
  "no_cpu = \<lparr>r_ds = 0, r_es = 0, r_fs = 0, r_gs = 0, eax = 0, ebx = 0, ecx = 0, edx = 0, esi = 0, edi = 0,
     ebp = 0, intr = 0, r_error = 0, eip = 0, r_cs = 0, eflags = 0, esp = 0, r_ss = 0\<rparr>"

text \<open>Two processes with empty queues, at \<open>0x10\<close> and \<open>0x20\<close>, and a fresh heap.\<close>

definition example_kernel :: kernel where
  "example_kernel = \<lparr>vm = example_vmm, heap = fresh_heap, msg_at = \<lambda>_. no_message,
     node_next = \<lambda>_. 0, node_prev = \<lambda>_. 0,
     proc_at = (\<lambda>_. no_process)(0x10 := no_process\<lparr>pid := 1, p_next := 0x20\<rparr>, 0x20 := no_process\<lparr>pid := 2\<rparr>),
     cpu_at = \<lambda>_. no_cpu, first_process = 0x10, current_process = 0x10, idle_process = 0x20,
     num_proc = 3, ticks = 0\<rparr>"

lemma example_queue_empty: "queue_ok example_layout example_kernel 0x20 []"
  using heap_inv_fresh by (auto simp: queue_ok_def example_kernel_def no_process_def heap_ok_def)

lemma example_alloc:
  obtains h where "kmalloc example_layout sizeof_MESSAGE_NODE (heap example_kernel) = Inr (0x350020, h)"
proof -
  have "heap example_kernel = fresh_heap" by (simp add: example_kernel_def)
  moreover have "\<exists>h. kmalloc example_layout sizeof_MESSAGE_NODE fresh_heap = Inr (0x350020, h)"
    unfolding kmalloc_eq [OF heap_inv_fresh]
    by (simp add: fresh_heap_def kinit_heap_def upd_node_def fits_def NEXT_BLOCK_def BLOCK_START_def)
  ultimately show ?thesis using that by auto
qed

lemma example_sent:
  obtains s where "ksend_message example_layout 0x10 0x20 0x1000 example_kernel = Inr (MESSAGE_SENT, s)"
    "queue_ok example_layout s 0x20 [0x350020]" "payloads s [0x350020] = [(1, 2, 0, 0, [])]"
proof -
  obtain h where h: "kmalloc example_layout sizeof_MESSAGE_NODE (heap example_kernel) = Inr (0x350020, h)"
    by (rule example_alloc)
  from ksend_message_effect [OF example_queue_empty _ _ _ h, of "0x1000" "0x10"] obtain s where
    "ksend_message example_layout 0x10 0x20 0x1000 example_kernel = Inr (MESSAGE_SENT, s)"
    "queue_ok example_layout s 0x20 [0x350020]"
    "payloads s [0x350020] = [payload ((msg_at example_kernel 0x1000)
         \<lparr>sender := pid (proc_at example_kernel 0x10), receiver := pid (proc_at example_kernel 0x20)\<rparr>)]"
    by (auto simp: payloads_def)
  then show ?thesis
    by (intro that [of s]) (simp_all add: example_kernel_def no_message_def no_process_def payload_def)
qed

theorem ksend_message_appends_witness:
  "\<exists>s. ksend_message example_layout 0x10 0x20 0x1000 example_kernel = Inr (MESSAGE_SENT, s)
     \<and> queue_ok example_layout s 0x20 [0x350020]"
proof -
  obtain h where h: "kmalloc example_layout sizeof_MESSAGE_NODE (heap example_kernel) = Inr (0x350020, h)"
    by (rule example_alloc)
  from ksend_message_appends [OF example_queue_empty _ _ _ h, of "0x1000" "0x10"] show ?thesis by auto
qed

theorem kreceive_message_fifo_witness:
  "\<exists>s s'. queue_ok example_layout s 0x20 [0x350020]
     \<and> kreceive_message example_layout 0x20 0x2000 MESSAGE_ANY s = Inr (MESSAGE_RECEIVED, s')
     \<and> payload (msg_at s' 0x2000) = (1, 2, 0, 0, [])"
proof -
  obtain s where s: "queue_ok example_layout s 0x20 [0x350020]" "payloads s [0x350020] = [(1, 2, 0, 0, [])]"
    by (rule example_sent)
  from kreceive_message_fifo [OF s(1), of "0x2000"] s show ?thesis
    by (auto simp: received_def payloads_def)
qed

theorem kreceive_message_by_sender_witness:
  "\<exists>s. queue_ok example_layout s 0x20 [0x350020]
     \<and> kreceive_message example_layout 0x20 0x2000 1 s = Inl Null_Deref
     \<and> kreceive_message example_layout 0x20 0x2000 7 s = Inr (MESSAGE_ERR_RECEIVE, s)"
proof -
  obtain s where s: "queue_ok example_layout s 0x20 [0x350020]" "payloads s [0x350020] = [(1, 2, 0, 0, [])]"
    by (rule example_sent)
  then have "sender (msg_at s 0x350020) = 1" by (simp add: payloads_def payload_def)
  then show ?thesis
    using kreceive_message_by_sender [OF s(1), of "0x2000" 1] kreceive_message_by_sender [OF s(1), of "0x2000" 7] s(1)
    by auto
qed

theorem messages_arrive_in_order_witness:
  "\<exists>s1 s2. send_all (mailbox_send example_layout 0x10 0x20 0x1000) [no_message] example_kernel = Some s1
     \<and> receive_n (mailbox_recv example_layout 0x20 0x2000) 1 s1 = Some ([(1, 2, 0, 0, [])], s2)"
proof -
  have "upd_msg 0x1000 (\<lambda>_. no_message) example_kernel = example_kernel"
    by (auto simp: upd_msg_def example_kernel_def)
  moreover obtain s1 where s1: "ksend_message example_layout 0x10 0x20 0x1000 example_kernel = Inr (MESSAGE_SENT, s1)"
    "queue_ok example_layout s1 0x20 [0x350020]"
    by (rule example_sent)
  ultimately have send: "send_all (mailbox_send example_layout 0x10 0x20 0x1000) [no_message] example_kernel = Some s1"
    by (simp add: mailbox_send_def)
  have un: "unlinked s1 0x20 [] 0x350020 [] (unlink_first 0x20 0x350020 s1)"
    by (rule unlink_first_unlinked [OF s1(2)])
  obtain s2 where "take_message example_layout 0x20 0x2000 0x350020 (unlink_first 0x20 0x350020 s1) = Inr (0, s2)"
    using take_message_received [OF _ un, of example_layout "0x2000"] s1(2) by auto
  then have "kreceive_message example_layout 0x20 0x2000 MESSAGE_ANY s1 = Inr (0, s2)"
    using queue_first [OF s1(2)] queue_num [OF s1(2)] by (simp add: kreceive_message_def)
  then have recv: "receive_n (mailbox_recv example_layout 0x20 0x2000) (length [no_message]) s1
      = Some ([payload (msg_at s2 0x2000)], s2)"
    by (simp add: mailbox_recv_def)
  have "mailbox_holds example_layout 0x10 0x20 0x1000 0x2000 1 2 example_kernel []"
    using example_queue_empty unfolding mailbox_holds_def
    by (auto simp: outside_heap_def payloads_def) (simp_all add: example_kernel_def no_process_def)
  from messages_arrive_in_order [OF this send recv] send recv show ?thesis
    by (auto simp: stamped_def payload_def no_message_def)
qed

end
