(* ===== verification/Multitasking.thy ===== *)
theory Multitasking
  imports Message
begin

text \<open>
  Processes, \<open>hal.x86/multitasking.c\<close>: creating kernel and user processes, the scheduler, killing a
  process and looking one up. The process list as a list of addresses, and the behaviour of every
  operation over it.
\<close>

section \<open>Operations\<close>

text \<open>
  The initial register frames. Fields the C initialiser does not name are 0. \<open>stack_top\<close> is the end of
  the kernel stack, or of the user stack for a user process.
\<close>

definition kernel_frame :: "u32 \<Rightarrow> u32 \<Rightarrow> cpu" where
  "kernel_frame entry_pt stack_top =
     \<lparr>r_ds = 0x10, r_es = 0x10, r_fs = 0x10, r_gs = 0x10, eax = 0, ebx = 0, ecx = 0, edx = 0, esi = 0,
      edi = 0, ebp = 0, intr = 0, r_error = 0, eip = entry_pt, r_cs = 0x08, eflags = 0x202,
      esp = stack_top, r_ss = 0x10\<rparr>"

definition user_frame :: "u32 \<Rightarrow> u32 \<Rightarrow> cpu" where
  "user_frame entry_pt stack_top =
     \<lparr>r_ds = 0x20 OR 0x03, r_es = 0x20 OR 0x03, r_fs = 0x20 OR 0x03, r_gs = 0x20 OR 0x03, eax = 0,
      ebx = 0, ecx = 0, edx = 0, esi = 0, edi = 0, ebp = 0, intr = 0, r_error = 0, eip = entry_pt,
      r_cs = 0x18 OR 0x03, eflags = 0x202, esp = stack_top, r_ss = 0x20 OR 0x03\<rparr>"

definition upd_cpu :: "u32 \<Rightarrow> (cpu \<Rightarrow> cpu) \<Rightarrow> kernel \<Rightarrow> kernel" where
  "upd_cpu a f s = s\<lparr>cpu_at := (cpu_at s)(a := f (cpu_at s a))\<rparr>"

text \<open>
  Memory from the heap is not cleared: a field that creation does not assign keeps what the block held
  before. Neither function assigns \<open>messages.first\<close> and \<open>messages.last\<close>, and \<open>CreateKernelProcess\<close>
  does not assign \<open>user_stack\<close>.
\<close>

definition CreateKernelProcess :: "layout \<Rightarrow> u32 \<Rightarrow> kernel \<Rightarrow> kerror + u32 \<times> kernel" where
  "CreateKernelProcess L entry_pt s =
     bindE (k_malloc L 4096 s) (\<lambda>(stk, s1).
     bindE (k_malloc L sizeof_process s1) (\<lambda>(process, s2).
     let s3 = upd_proc process (\<lambda>p. p\<lparr>stack := stk, sleep_timer := 0, status := PROCESS_RUNNABLE\<rparr>) s2;
         state = stk + 4096 - sizeof_cpu;
         s4 = upd_cpu state (\<lambda>_. kernel_frame entry_pt (stk + 4096)) s3;
         s5 = upd_proc process (\<lambda>p. p\<lparr>p_state := state, p_next := first_process s4\<rparr>) s4;
         s6 = s5\<lparr>first_process := process\<rparr>;
         s7 = upd_proc process (\<lambda>p. p\<lparr>pid := num_proc s6\<rparr>) s6 in
     bindE (CreateUsermodeContext L 1 (vm s7)) (\<lambda>(ctx, v).
     let s8 = s7\<lparr>vm := v\<rparr>;
         s9 = upd_proc process (\<lambda>p. p\<lparr>p_context := ctx, sbrk_state := 0, uid := ROOT_UID,
                messages := (messages p)\<lparr>num_messages := 0\<rparr>\<rparr>) s8
     in Inr (process, s9\<lparr>num_proc := num_proc s9 + 1\<rparr>))))"

definition CreateUserProcess :: "layout \<Rightarrow> u32 \<Rightarrow> u32 \<Rightarrow> kernel \<Rightarrow> kerror + u32 \<times> kernel" where
  "CreateUserProcess L entry_pt ctx s =
     bindE (k_malloc L 4096 s) (\<lambda>(stk, s1).
     bindE (k_malloc L 4096 s1) (\<lambda>(ustk, s2).
     bindE (k_malloc L sizeof_process s2) (\<lambda>(process, s3).
     let s4 = upd_proc process (\<lambda>p. p\<lparr>stack := stk, user_stack := ustk, sleep_timer := 0,
                status := PROCESS_RUNNABLE\<rparr>) s3;
         state = stk + 4096 - sizeof_cpu;
         s5 = upd_cpu state (\<lambda>_. user_frame entry_pt (ustk + 4096)) s4;
         s6 = upd_proc process (\<lambda>p. p\<lparr>p_state := state, p_next := first_process s5\<rparr>) s5;
         s7 = s6\<lparr>first_process := process\<rparr>;
         s8 = upd_proc process (\<lambda>p. p\<lparr>pid := num_proc s7, p_context := ctx,
                messages := (messages p)\<lparr>num_messages := 0\<rparr>, sbrk_state := 0\<rparr>) s7;
         owner = (if current_process s8 \<noteq> 0 then uid (proc_at s8 (current_process s8)) else 0);
         s9 = upd_proc process (\<lambda>p. p\<lparr>uid := owner\<rparr>) s8
     in Inr (process, s9\<lparr>num_proc := num_proc s9 + 1\<rparr>))))"

text \<open>
  The scheduler's search: from \<open>current_process\<close> to the first process that may run, or a sleeping one
  whose time has come, or past the end of the list, where the idle process is taken.
\<close>

partial_function (option) schedule_loop :: "kernel \<Rightarrow> (kerror + kernel) option" where
  "schedule_loop s =
     (let c = current_process s; p = proc_at s c in
      if c = 0 then Some (Inl Null_Deref)
      else if status p = PROCESS_RUNNABLE then Some (Inr s)
      else if 0 < sleep_timer p \<and> sleep_timer p \<le> ticks s
      then Some (Inr (upd_proc c (\<lambda>p. p\<lparr>status := PROCESS_RUNNABLE, sleep_timer := 0\<rparr>) s))
      else if p_next p = 0 then Some (Inr (s\<lparr>current_process := idle_process s\<rparr>))
      else schedule_loop (s\<lparr>current_process := p_next p\<rparr>))"

definition schedule_next :: "kernel \<Rightarrow> kerror + kernel" where
  "schedule_next s =
     (if current_process s = 0 then Inr (s\<lparr>current_process := first_process s\<rparr>)
      else
        let nx = p_next (proc_at s (current_process s));
            s1 = s\<lparr>current_process := (if nx = 0 then first_process s else nx)\<rparr>
        in returned (schedule_loop s1))"

text \<open>\<open>oldPid\<close> is \<open>-1\<close>, so the context is activated unless the chosen process has that PID.\<close>

definition Schedule :: "u32 \<Rightarrow> kernel \<Rightarrow> kerror + u32 \<times> kernel" where
  "Schedule cpu_old s =
     (let s1 = (if current_process s \<noteq> 0
                then upd_proc (current_process s) (\<lambda>p. p\<lparr>p_state := cpu_old\<rparr>) s else s) in
      bindE (schedule_next s1) (\<lambda>s2.
      bindE (derefE (current_process s2)) (\<lambda>_.
      let p = proc_at s2 (current_process s2) in
      bindE (if -1 \<noteq> pid p
             then bindE (activate_memory_context (p_context p) (vm s2)) (\<lambda>v. Inr (s2\<lparr>vm := v\<rparr>))
             else Inr s2) (\<lambda>s3.
      Inr (p_state p, s3)))))"

text \<open>The common part of both branches of \<open>KillProcess\<close> that gives a process's memory back.\<close>

definition free_process :: "layout \<Rightarrow> u32 \<Rightarrow> kernel \<Rightarrow> kerror + kernel" where
  "free_process L process s =
     bindE (k_free L (stack (proc_at s process)) s) (\<lambda>s1.
     bindE (k_free L (user_stack (proc_at s1 process)) s1) (\<lambda>s2.
     k_free L process s2))"

definition k_destroy_context :: "layout \<Rightarrow> u32 \<Rightarrow> kernel \<Rightarrow> kerror + kernel" where
  "k_destroy_context L ctx s = bindE (destroy_context L ctx (vm s)) (\<lambda>v. Inr (s\<lparr>vm := v\<rparr>))"

text \<open>
  The search of \<open>KillProcess\<close> for the process before the one to kill. \<open>proc->next->pid\<close> is read without a
  look at \<open>proc->next\<close>, so the loop never reaches its end: past the last process it dereferences \<open>NULL\<close>.
\<close>

partial_function (option) kill_loop :: "kernel \<Rightarrow> u32 \<Rightarrow> u32 \<Rightarrow> (kerror + u32) option" where
  "kill_loop s victim proc =
     (if proc = 0 then Some (Inr 0)
      else if p_next (proc_at s proc) = 0 then Some (Inl Null_Deref)
      else if pid (proc_at s (p_next (proc_at s proc))) = victim then Some (Inr proc)
      else kill_loop s victim (p_next (proc_at s proc)))"

definition KillProcess :: "layout \<Rightarrow> u32 \<Rightarrow> kernel \<Rightarrow> kerror + kernel" where
  "KillProcess L process s =
     bindE (derefE (first_process s)) (\<lambda>_.
     bindE (derefE process) (\<lambda>_.
     if pid (proc_at s (first_process s)) = pid (proc_at s process)
     then
       let s1 = s\<lparr>first_process := p_next (proc_at s process)\<rparr> in
       bindE (k_destroy_context L (p_context (proc_at s1 process)) s1) (free_process L process)
     else
       bindE (returned (kill_loop s (pid (proc_at s process)) (first_process s))) (\<lambda>proc.
       if proc = 0 then Inr s
       else
         bindE (k_destroy_context L (p_context (proc_at s process)) s) (\<lambda>s1.
         free_process L process (upd_proc proc (\<lambda>p. p\<lparr>p_next := p_next (proc_at s1 process)\<rparr>) s1)))))"

definition KillCurrentProcess :: "layout \<Rightarrow> kernel \<Rightarrow> kerror + u32 \<times> kernel" where
  "KillCurrentProcess L s =
     bindE (KillProcess L (current_process s) s) (\<lambda>s1.
     Schedule 0 (s1\<lparr>current_process := 0\<rparr>))"

partial_function (option) pid_loop :: "kernel \<Rightarrow> u32 \<Rightarrow> u32 \<Rightarrow> u32 option" where
  "pid_loop s k proc =
     (if proc = 0 then Some 0
      else if pid (proc_at s proc) = k then Some proc
      else pid_loop s k (p_next (proc_at s proc)))"

definition GetProcessByPid :: "u32 \<Rightarrow> kernel \<Rightarrow> kerror + u32" where
  "GetProcessByPid k s = (case pid_loop s k (first_process s) of None \<Rightarrow> Inl Diverges | Some p \<Rightarrow> Inr p)"

text \<open>The three entry points are addresses of functions of the kernel image.\<close>

definition InitMultitasking :: "layout \<Rightarrow> u32 \<Rightarrow> u32 \<Rightarrow> u32 \<Rightarrow> kernel \<Rightarrow> kerror + kernel" where
  "InitMultitasking L kernel_proc idle ramdisk_proc s =
     bindE (CreateKernelProcess L kernel_proc s) (\<lambda>(_, s1).
     bindE (CreateKernelProcess L idle s1) (\<lambda>(p, s2).
     bindE (CreateKernelProcess L ramdisk_proc (s2\<lparr>idle_process := p\<rparr>)) (\<lambda>(_, s3).
     bindE (derefE (idle_process s3)) (\<lambda>_.
     Inr (upd_proc (idle_process s3) (\<lambda>p. p\<lparr>status := PROCESS_PAUSED\<rparr>) s3)))))"

section \<open>The process list\<close>

fun plist :: "kernel \<Rightarrow> u32 \<Rightarrow> u32 list \<Rightarrow> bool" where
  "plist s a [] \<longleftrightarrow> a = 0"
| "plist s a (p # ps) \<longleftrightarrow> a = p \<and> p \<noteq> 0 \<and> plist s (p_next (proc_at s p)) ps"

text \<open>
  A well-formed process list: its processes are different live blocks of the heap, their PIDs are
  different and were handed out already.
\<close>

definition processes_ok :: "layout \<Rightarrow> kernel \<Rightarrow> u32 list \<Rightarrow> bool" where
  "processes_ok L s ps \<longleftrightarrow> heap_ok L (heap s) \<and> plist s (first_process s) ps \<and> distinct ps
     \<and> (\<forall>p \<in> set ps. live_block L (heap s) p)
     \<and> distinct (map (\<lambda>p. pid (proc_at s p)) ps) \<and> (\<forall>p \<in> set ps. pid (proc_at s p) < num_proc s)"

lemma plist_nonzero: "plist s a ps \<Longrightarrow> p \<in> set ps \<Longrightarrow> p \<noteq> 0"
  by (induction ps arbitrary: a) auto

lemma plist_cong:
  "(\<And>p. p \<in> set ps \<Longrightarrow> p_next (proc_at s' p) = p_next (proc_at s p)) \<Longrightarrow> plist s' a ps \<longleftrightarrow> plist s a ps"
  by (induction ps arbitrary: a) auto

lemma plist_zero: "plist s a ps \<Longrightarrow> a = 0 \<longleftrightarrow> ps = []"
  by (cases ps) auto

lemma plist_head: "plist s a ps \<Longrightarrow> a = (if ps = [] then 0 else hd ps)"
  by (cases ps) auto

lemma pid_loop_find:
  "plist s a ps \<Longrightarrow>
     pid_loop s k a = Some (case find (\<lambda>p. pid (proc_at s p) = k) ps of None \<Rightarrow> 0 | Some p \<Rightarrow> p)"
proof (induction ps arbitrary: a)
  case Nil
  then show ?case by (simp add: pid_loop.simps)
next
  case (Cons p ps)
  then show ?case by (auto simp: pid_loop.simps [of s k p])
qed

lemma find_distinct_map:
  assumes "distinct (map f xs)" "x \<in> set xs"
  shows "find (\<lambda>y. f y = f x) xs = Some x"
  using assms by (induction xs) auto

section \<open>Creating processes\<close>

lemma processes_okD:
  assumes "processes_ok L s ps"
  shows "heap_ok L (heap s)" "plist s (first_process s) ps" "distinct ps"
    "p \<in> set ps \<Longrightarrow> live_block L (heap s) p" "distinct (map (\<lambda>p. pid (proc_at s p)) ps)"
    "p \<in> set ps \<Longrightarrow> pid (proc_at s p) < num_proc s"
  using assms by (auto simp: processes_ok_def)

lemma kmalloc_live:
  assumes "heap_ok L h" "request_ok sz" "kmalloc L sz h = Inr (p, h')"
  shows "heap_ok L h'" "p \<noteq> 0" "\<not> live_block L h p" "live_block L h' q \<longleftrightarrow> q = p \<or> live_block L h q"
  using kmalloc_new_block [OF assms] by simp_all

text \<open>Linking a new process in front of the list keeps the list well formed.\<close>

lemma processes_ok_cons:
  assumes ok: "processes_ok L s ps" and wrap: "num_proc s \<noteq> -1"
    and heap: "heap_ok L (heap s')" "\<And>q. live_block L (heap s) q \<Longrightarrow> live_block L (heap s') q"
    and p: "p \<noteq> 0" "\<not> live_block L (heap s) p" "live_block L (heap s') p"
    and same: "\<And>q. q \<noteq> p \<Longrightarrow> proc_at s' q = proc_at s q"
    and new: "pid (proc_at s' p) = num_proc s" "p_next (proc_at s' p) = first_process s"
      "first_process s' = p" "num_proc s' = num_proc s + 1"
  shows "processes_ok L s' (p # ps)"
proof -
  have notin: "p \<notin> set ps" using processes_okD(4) [OF ok] p(2) by blast
  have eq: "proc_at s' q = proc_at s q" if "q \<in> set ps" for q using same that notin by metis
  have "plist s' (first_process s) ps"
    using processes_okD(2) [OF ok] eq by (subst plist_cong [where s = s]) auto
  moreover have pids: "map (\<lambda>p. pid (proc_at s' p)) ps = map (\<lambda>p. pid (proc_at s p)) ps" using eq by simp
  moreover have "distinct (map (\<lambda>p. pid (proc_at s' p)) ps)"
    unfolding pids by (rule processes_okD(5) [OF ok])
  moreover have "num_proc s \<notin> set (map (\<lambda>p. pid (proc_at s p)) ps)"
  proof
    assume "num_proc s \<in> set (map (\<lambda>p. pid (proc_at s p)) ps)"
    then obtain q where "q \<in> set ps" "num_proc s = pid (proc_at s q)" by auto
    with processes_okD(6) [OF ok, of q] show False by simp
  qed
  moreover have less: "k < num_proc s \<or> k = num_proc s \<Longrightarrow> k < num_proc s + 1" for k
  proof -
    have "1 + num_proc s \<noteq> 0" using wrap by (auto simp: eq_neg_iff_add_eq_0 add.commute)
    then show "k < num_proc s \<or> k = num_proc s \<Longrightarrow> k < num_proc s + 1"
      using unatSuc [of "num_proc s"] by (auto simp: word_less_nat_alt add.commute)
  qed
  moreover have "\<forall>q \<in> set ps. pid (proc_at s' q) < num_proc s + 1"
    using processes_okD(6) [OF ok] eq less by metis
  ultimately show ?thesis
    using notin p heap new processes_okD(3,4,5) [OF ok] by (simp add: processes_ok_def)
qed

text \<open>What a call that returned has done to the state.\<close>

lemma CreateKernelProcess_run:
  assumes "CreateKernelProcess L e s = Inr (p, s')"
  obtains stk h1 h2 ctx v where
    "kmalloc L 4096 (heap s) = Inr (stk, h1)" "kmalloc L sizeof_process h1 = Inr (p, h2)"
    "CreateUsermodeContext L 1 (vm s) = Inr (ctx, v)"
    "s' = s\<lparr>vm := v, heap := h2,
      proc_at := (proc_at s)(p := (proc_at s p)\<lparr>stack := stk, sleep_timer := 0, status := PROCESS_RUNNABLE,
        p_state := stk + 4096 - sizeof_cpu, p_next := first_process s, pid := num_proc s,
        p_context := ctx, sbrk_state := 0, uid := ROOT_UID,
        messages := (messages (proc_at s p))\<lparr>num_messages := 0\<rparr>\<rparr>),
      cpu_at := (cpu_at s)(stk + 4096 - sizeof_cpu := kernel_frame e (stk + 4096)),
      first_process := p, num_proc := num_proc s + 1\<rparr>"
  using assms that
  by (auto simp: CreateKernelProcess_def k_malloc_def kernel_simps Let_def upd_proc_def upd_cpu_def)

lemma CreateUserProcess_run:
  assumes "CreateUserProcess L e ctx s = Inr (p, s')"
  obtains stk h1 ustk h2 h3 owner where
    "kmalloc L 4096 (heap s) = Inr (stk, h1)" "kmalloc L 4096 h1 = Inr (ustk, h2)"
    "kmalloc L sizeof_process h2 = Inr (p, h3)"
    "owner = (if current_process s \<noteq> 0
          then if current_process s = p then uid (proc_at s p) else uid (proc_at s (current_process s)) else 0)"
    "s' = s\<lparr>heap := h3,
      proc_at := (proc_at s)(p := (proc_at s p)\<lparr>stack := stk, user_stack := ustk, sleep_timer := 0,
        status := PROCESS_RUNNABLE, p_state := stk + 4096 - sizeof_cpu, p_next := first_process s,
        pid := num_proc s, p_context := ctx, messages := (messages (proc_at s p))\<lparr>num_messages := 0\<rparr>,
        sbrk_state := 0, uid := owner\<rparr>),
      cpu_at := (cpu_at s)(stk + 4096 - sizeof_cpu := user_frame e (ustk + 4096)),
      first_process := p, num_proc := num_proc s + 1\<rparr>"
  using assms that
  by (auto simp: CreateUserProcess_def k_malloc_def kernel_simps Let_def upd_proc_def upd_cpu_def)

lemma CreateKernelProcess_effect:
  assumes ok: "processes_ok L s ps" and L: "layout_ok L" and kc: "context_ok (vm s) (kernel_context (vm s))"
    and wrap: "num_proc s \<noteq> -1" and run: "CreateKernelProcess L e s = Inr (p, s')"
  shows "processes_ok L s' (p # ps) \<and> pid (proc_at s' p) = num_proc s \<and> num_proc s' = num_proc s + 1
    \<and> status (proc_at s' p) = PROCESS_RUNNABLE \<and> uid (proc_at s' p) = ROOT_UID
    \<and> p_state (proc_at s' p) = stack (proc_at s' p) + 4096 - sizeof_cpu
    \<and> cpu_at s' (p_state (proc_at s' p)) = kernel_frame e (stack (proc_at s' p) + 4096)
    \<and> live_block L (heap s') (stack (proc_at s' p)) \<and> \<not> live_block L (heap s) (stack (proc_at s' p))
    \<and> context_ok (vm s') (p_context (proc_at s' p))
    \<and> (\<forall>a. walk_context (vm s') (p_context (proc_at s' p)) a = walk_context (vm s) (kernel_context (vm s)) a)
    \<and> (\<forall>q. q \<noteq> p \<longrightarrow> proc_at s' q = proc_at s q)
    \<and> ml_first (messages (proc_at s' p)) = ml_first (messages (proc_at s p))
    \<and> user_stack (proc_at s' p) = user_stack (proc_at s p)"
proof -
  from run obtain stk h1 h2 ctx v where
    k1: "kmalloc L 4096 (heap s) = Inr (stk, h1)" and k2: "kmalloc L sizeof_process h1 = Inr (p, h2)"
    and c: "CreateUsermodeContext L 1 (vm s) = Inr (ctx, v)"
    and s': "s' = s\<lparr>vm := v, heap := h2,
      proc_at := (proc_at s)(p := (proc_at s p)\<lparr>stack := stk, sleep_timer := 0, status := PROCESS_RUNNABLE,
        p_state := stk + 4096 - sizeof_cpu, p_next := first_process s, pid := num_proc s,
        p_context := ctx, sbrk_state := 0, uid := ROOT_UID,
        messages := (messages (proc_at s p))\<lparr>num_messages := 0\<rparr>\<rparr>),
      cpu_at := (cpu_at s)(stk + 4096 - sizeof_cpu := kernel_frame e (stk + 4096)),
      first_process := p, num_proc := num_proc s + 1\<rparr>"
    by (rule CreateKernelProcess_run)
  note l1 = kmalloc_live [OF processes_okD(1) [OF ok] _ k1]
  have r: "request_ok 4096" "request_ok sizeof_process" by (simp_all add: request_ok_def)
  note l2 = kmalloc_live [OF l1(1) [OF r(1)] r(2) k2]
  have "processes_ok L s' (p # ps)"
  proof (rule processes_ok_cons [OF ok wrap])
    show "heap_ok L (heap s')" "p \<noteq> 0" using l2 by (simp_all add: s')
    show "live_block L (heap s) q \<Longrightarrow> live_block L (heap s') q" for q
      using l1(4) [OF r(1)] l2(4) by (simp add: s')
    show "\<not> live_block L (heap s) p" using l1(4) [OF r(1)] l2(3) by simp
    show "live_block L (heap s') p" using l2(4) by (simp add: s')
  qed (simp_all add: s')
  moreover have "live_block L (heap s') stk" "\<not> live_block L (heap s) stk"
    using l1(3,4) [OF r(1)] l2(4) by (simp_all add: s')
  moreover note u = usermode_context_effect [OF L kc c]
  ultimately show ?thesis by (simp add: s' u)
qed

text \<open>
  \<open>CreateKernelProcess\<close>, when it returns, puts one process in front of the list and leaves all
  others as they were. The process has the next unused PID, is runnable, belongs to root, starts at the
  entry point with ring-0 selectors and interrupts enabled, on a frame at the top of a kernel stack of
  its own, and sees the kernel's translations. The list stays well formed: PIDs stay unique. Its message
  queue head and its user stack, however, are whatever the heap block held before.
\<close>

theorem CreateKernelProcess_adds:
  assumes "processes_ok L s ps" "layout_ok L" "context_ok (vm s) (kernel_context (vm s))"
    "num_proc s \<noteq> -1" "CreateKernelProcess L e s = Inr (p, s')"
  shows "processes_ok L s' (p # ps) \<and> pid (proc_at s' p) = num_proc s \<and> num_proc s' = num_proc s + 1
    \<and> status (proc_at s' p) = PROCESS_RUNNABLE \<and> uid (proc_at s' p) = ROOT_UID
    \<and> p_state (proc_at s' p) = stack (proc_at s' p) + 4096 - sizeof_cpu
    \<and> cpu_at s' (p_state (proc_at s' p)) = kernel_frame e (stack (proc_at s' p) + 4096)
    \<and> live_block L (heap s') (stack (proc_at s' p)) \<and> \<not> live_block L (heap s) (stack (proc_at s' p))
    \<and> context_ok (vm s') (p_context (proc_at s' p))
    \<and> (\<forall>a. walk_context (vm s') (p_context (proc_at s' p)) a = walk_context (vm s) (kernel_context (vm s)) a)
    \<and> (\<forall>q. q \<noteq> p \<longrightarrow> proc_at s' q = proc_at s q)
    \<and> ml_first (messages (proc_at s' p)) = ml_first (messages (proc_at s p))
    \<and> user_stack (proc_at s' p) = user_stack (proc_at s p)"
  by (rule CreateKernelProcess_effect [OF assms])

lemma CreateUserProcess_effect:
  assumes ok: "processes_ok L s ps" and wrap: "num_proc s \<noteq> -1"
    and cur: "current_process s = 0 \<or> current_process s \<in> set ps"
    and run: "CreateUserProcess L e ctx s = Inr (p, s')"
  shows "processes_ok L s' (p # ps) \<and> pid (proc_at s' p) = num_proc s \<and> num_proc s' = num_proc s + 1
    \<and> status (proc_at s' p) = PROCESS_RUNNABLE
    \<and> uid (proc_at s' p) = (if current_process s = 0 then 0 else uid (proc_at s (current_process s)))
    \<and> p_context (proc_at s' p) = ctx
    \<and> cpu_at s' (p_state (proc_at s' p)) = user_frame e (user_stack (proc_at s' p) + 4096)
    \<and> r_cs (cpu_at s' (p_state (proc_at s' p))) AND 3 = 3 \<and> r_ss (cpu_at s' (p_state (proc_at s' p))) AND 3 = 3
    \<and> live_block L (heap s') (stack (proc_at s' p)) \<and> live_block L (heap s') (user_stack (proc_at s' p))
    \<and> stack (proc_at s' p) \<noteq> user_stack (proc_at s' p)
    \<and> (\<forall>q. q \<noteq> p \<longrightarrow> proc_at s' q = proc_at s q)"
proof -
  from run obtain stk h1 ustk h2 h3 where
    k1: "kmalloc L 4096 (heap s) = Inr (stk, h1)" and k2: "kmalloc L 4096 h1 = Inr (ustk, h2)"
    and k3: "kmalloc L sizeof_process h2 = Inr (p, h3)"
    and s': "s' = s\<lparr>heap := h3,
      proc_at := (proc_at s)(p := (proc_at s p)\<lparr>stack := stk, user_stack := ustk, sleep_timer := 0,
        status := PROCESS_RUNNABLE, p_state := stk + 4096 - sizeof_cpu, p_next := first_process s,
        pid := num_proc s, p_context := ctx, messages := (messages (proc_at s p))\<lparr>num_messages := 0\<rparr>,
        sbrk_state := 0, uid := (if current_process s \<noteq> 0
          then if current_process s = p then uid (proc_at s p) else uid (proc_at s (current_process s)) else 0)\<rparr>),
      cpu_at := (cpu_at s)(stk + 4096 - sizeof_cpu := user_frame e (ustk + 4096)),
      first_process := p, num_proc := num_proc s + 1\<rparr>"
    by (auto simp: CreateUserProcess_def k_malloc_def kernel_simps Let_def upd_proc_def upd_cpu_def)
  have r: "request_ok 4096" "request_ok sizeof_process" by (simp_all add: request_ok_def)
  note l1 = kmalloc_live [OF processes_okD(1) [OF ok] r(1) k1]
  note l2 = kmalloc_live [OF l1(1) r(1) k2]
  note l3 = kmalloc_live [OF l2(1) r(2) k3]
  have fresh: "\<not> live_block L (heap s) p" using l1(4) l2(4) l3(3) by simp
  have "processes_ok L s' (p # ps)"
  proof (rule processes_ok_cons [OF ok wrap])
    show "heap_ok L (heap s')" "p \<noteq> 0" using l3 by (simp_all add: s')
    show "live_block L (heap s) q \<Longrightarrow> live_block L (heap s') q" for q
      using l1(4) l2(4) l3(4) by (simp add: s')
    show "\<not> live_block L (heap s) p" by (rule fresh)
    show "live_block L (heap s') p" using l3(4) by (simp add: s')
  qed (simp_all add: s')
  moreover have "live_block L (heap s') stk" "live_block L (heap s') ustk" "stk \<noteq> ustk"
    using l1(4) l2(3,4) l3(4) by (auto simp: s')
  moreover have "current_process s \<noteq> 0 \<Longrightarrow> current_process s \<noteq> p"
    using cur processes_okD(4) [OF ok] fresh by blast
  ultimately show ?thesis by (simp add: s' user_frame_def)
qed

text \<open>
  \<open>CreateUserProcess\<close>, when it returns, puts one process with the next unused PID in front of the
  list, in the context it was given, with ring-3 selectors and a user stack apart from its kernel stack;
  it belongs to the owner of the running process, or to root while none runs. All other processes are
  unchanged and the list stays well formed.
\<close>

theorem CreateUserProcess_adds:
  assumes "processes_ok L s ps" "num_proc s \<noteq> -1" "current_process s = 0 \<or> current_process s \<in> set ps"
    "CreateUserProcess L e ctx s = Inr (p, s')"
  shows "processes_ok L s' (p # ps) \<and> pid (proc_at s' p) = num_proc s \<and> num_proc s' = num_proc s + 1
    \<and> status (proc_at s' p) = PROCESS_RUNNABLE
    \<and> uid (proc_at s' p) = (if current_process s = 0 then 0 else uid (proc_at s (current_process s)))
    \<and> p_context (proc_at s' p) = ctx
    \<and> cpu_at s' (p_state (proc_at s' p)) = user_frame e (user_stack (proc_at s' p) + 4096)
    \<and> r_cs (cpu_at s' (p_state (proc_at s' p))) AND 3 = 3 \<and> r_ss (cpu_at s' (p_state (proc_at s' p))) AND 3 = 3
    \<and> live_block L (heap s') (stack (proc_at s' p)) \<and> live_block L (heap s') (user_stack (proc_at s' p))
    \<and> stack (proc_at s' p) \<noteq> user_stack (proc_at s' p)
    \<and> (\<forall>q. q \<noteq> p \<longrightarrow> proc_at s' q = proc_at s q)"
  by (rule CreateUserProcess_effect [OF assms])

section \<open>Finding a process\<close>

text \<open>
  On a well-formed list \<open>GetProcessByPid\<close> always returns: the process with that PID, which is
  unique, or \<open>NULL\<close> where no process has it.
\<close>

theorem GetProcessByPid_unique:
  assumes ok: "processes_ok L s ps"
  shows "GetProcessByPid k s = Inr (case find (\<lambda>p. pid (proc_at s p) = k) ps of None \<Rightarrow> 0 | Some p \<Rightarrow> p)
    \<and> (\<forall>p \<in> set ps. GetProcessByPid (pid (proc_at s p)) s = Inr p)"
  using pid_loop_find [OF processes_okD(2) [OF ok]] find_distinct_map [OF processes_okD(5) [OF ok]]
  by (simp add: GetProcessByPid_def)

section \<open>The scheduler\<close>

definition may_run :: "kernel \<Rightarrow> u32 \<Rightarrow> bool" where
  "may_run s p \<longleftrightarrow> status (proc_at s p) = PROCESS_RUNNABLE
     \<or> 0 < sleep_timer (proc_at s p) \<and> sleep_timer (proc_at s p) \<le> ticks s"

text \<open>
  Where the search looks, for the running process \<open>c\<close>: at the processes behind it, or at the whole list
  when it is the last. Processes before \<open>c\<close> are not looked at unless \<open>c\<close> is the last.
\<close>

definition candidates :: "u32 \<Rightarrow> u32 list \<Rightarrow> u32 list" where
  "candidates c ps = (case tl (dropWhile (\<lambda>p. p \<noteq> c) ps) of [] \<Rightarrow> ps | qs \<Rightarrow> qs)"

definition scheduled :: "kernel \<Rightarrow> u32 list \<Rightarrow> u32" where
  "scheduled s qs = (case find (may_run s) qs of None \<Rightarrow> idle_process s | Some p \<Rightarrow> p)"

definition wake :: "kernel \<Rightarrow> u32 list \<Rightarrow> kernel \<Rightarrow> kernel" where
  "wake s0 qs s = (case find (may_run s0) qs of
       None \<Rightarrow> s
     | Some p \<Rightarrow> if status (proc_at s0 p) = PROCESS_RUNNABLE then s
                 else upd_proc p (\<lambda>q. q\<lparr>status := PROCESS_RUNNABLE, sleep_timer := 0\<rparr>) s)"

lemma schedule_loop_find:
  assumes "plist s a qs" "qs \<noteq> []"
  shows "schedule_loop (s\<lparr>current_process := a\<rparr>) =
    Some (Inr (wake s qs (s\<lparr>current_process := scheduled s qs\<rparr>)))"
  using assms
proof (induction qs arbitrary: a)
  case (Cons p qs)
  then have a: "a = p" "p \<noteq> 0" "plist s (p_next (proc_at s p)) qs" by auto
  show ?case
  proof (cases "may_run s p")
    case True
    then show ?thesis
      using a by (subst schedule_loop.simps) (auto simp: may_run_def scheduled_def wake_def Let_def)
  next
    case False
    then have step: "schedule_loop (s\<lparr>current_process := a\<rparr>) =
        (if p_next (proc_at s p) = 0 then Some (Inr (s\<lparr>current_process := idle_process s\<rparr>))
         else schedule_loop (s\<lparr>current_process := p_next (proc_at s p)\<rparr>))"
      using a by (subst schedule_loop.simps) (auto simp: may_run_def Let_def)
    have same: "scheduled s (p # qs) = scheduled s qs" "wake s (p # qs) = wake s qs"
      using False by (auto simp: scheduled_def wake_def)
    show ?thesis
    proof (cases "qs = []")
      case True
      then show ?thesis using step a(3) same by (simp add: scheduled_def wake_def)
    next
      case False
      then show ?thesis using step Cons.IH [OF a(3) False] same plist_zero [OF a(3)] by simp
    qed
  qed
qed simp

lemma candidates_plist:
  assumes "plist s a ps" "c \<in> set ps"
  shows "plist s (if p_next (proc_at s c) = 0 then a else p_next (proc_at s c)) (candidates c ps)"
    "candidates c ps \<noteq> []"
proof -
  have "plist s (p_next (proc_at s c)) (tl (dropWhile (\<lambda>p. p \<noteq> c) ps))"
    using assms by (induction ps arbitrary: a) auto
  from plist_zero [OF this] this assms(1)
  show "plist s (if p_next (proc_at s c) = 0 then a else p_next (proc_at s c)) (candidates c ps)"
    by (auto simp: candidates_def split: list.split)
  show "candidates c ps \<noteq> []"
    using assms(2) by (auto simp: candidates_def split: list.split)
qed

lemma proc_at_wake: "p_state (proc_at (wake s0 qs s) p) = p_state (proc_at s p)"
  "p_context (proc_at (wake s0 qs s) p) = p_context (proc_at s p)"
  "pid (proc_at (wake s0 qs s) p) = pid (proc_at s p)" "p_next (proc_at (wake s0 qs s) p) = p_next (proc_at s p)"
  by (auto simp: wake_def upd_proc_def split: option.split)

lemma proc_at_wake_other: "find (may_run s0) qs \<noteq> Some p \<Longrightarrow> proc_at (wake s0 qs s) p = proc_at s p"
  by (auto simp: wake_def upd_proc_def split: option.split)

lemma status_wake:
  "find (may_run s0) qs = Some p \<Longrightarrow> status (proc_at s p) = status (proc_at s0 p) \<Longrightarrow>
     status (proc_at (wake s0 qs s) p) = PROCESS_RUNNABLE"
  by (auto simp: wake_def upd_proc_def)

lemma wake_other [simp]: "vm (wake s0 qs s) = vm s" "current_process (wake s0 qs s) = current_process s"
  "first_process (wake s0 qs s) = first_process s" "heap (wake s0 qs s) = heap s"
  "num_proc (wake s0 qs s) = num_proc s" "cpu_at (wake s0 qs s) = cpu_at s" "ticks (wake s0 qs s) = ticks s"
  by (auto simp: wake_def upd_proc_def split: option.split)

lemma processes_ok_cong:
  assumes "processes_ok L s ps" "heap s' = heap s" "first_process s' = first_process s" "num_proc s' = num_proc s"
    and "\<And>p. p_next (proc_at s' p) = p_next (proc_at s p) \<and> pid (proc_at s' p) = pid (proc_at s p)"
  shows "processes_ok L s' ps"
  using assms plist_cong [of ps s' s] by (simp add: processes_ok_def)

lemma Schedule_effect:
  assumes ok: "processes_ok L s ps" and c: "current_process s = c" "c \<in> set ps"
    and s1: "s1 = upd_proc c (\<lambda>p. p\<lparr>p_state := old\<rparr>) s" and k: "k = scheduled s (candidates c ps)"
    and idle: "idle_process s \<noteq> 0" and ctx: "p_context (proc_at s k) \<noteq> 0" and pid: "pid (proc_at s k) \<noteq> -1"
  shows "\<exists>s'. Schedule old s = Inr (p_state (proc_at s1 k), s')
    \<and> current_process s' = k \<and> current_context (vm s') = p_context (proc_at s k)
    \<and> cr3 (vm s') = pagedir (mem (vm s)) (p_context (proc_at s k))
    \<and> p_state (proc_at s' c) = old \<and> processes_ok L s' ps
    \<and> (k \<in> set (candidates c ps) \<and> may_run s k \<longrightarrow> status (proc_at s' k) = PROCESS_RUNNABLE)
    \<and> (\<forall>p. p \<noteq> c \<and> p \<noteq> k \<longrightarrow> proc_at s' p = proc_at s p)
    \<and> cpu_at s' = cpu_at s \<and> ticks s' = ticks s"
proof -
  let ?qs = "candidates c ps"
  have c0: "c \<noteq> 0" using plist_nonzero [OF processes_okD(2) [OF ok] c(2)] .
  have next1: "p_next (proc_at s1 p) = p_next (proc_at s p)" "pid (proc_at s1 p) = pid (proc_at s p)"
      "p_context (proc_at s1 p) = p_context (proc_at s p)" "status (proc_at s1 p) = status (proc_at s p)"
      "sleep_timer (proc_at s1 p) = sleep_timer (proc_at s p)" for p
    by (simp_all add: s1 upd_proc_def)
  have other1: "first_process s1 = first_process s" "ticks s1 = ticks s" "idle_process s1 = idle_process s"
    "current_process s1 = c" "vm s1 = vm s" "heap s1 = heap s" "num_proc s1 = num_proc s"
    by (simp_all add: s1 upd_proc_def c)
  have run1: "may_run s1 = may_run s" by (rule ext) (simp add: may_run_def next1 other1)
  have pl: "plist s1 (first_process s1) ps"
    using processes_okD(2) [OF ok] by (subst plist_cong [where s = s]) (auto simp: next1 other1)
  note cand = candidates_plist [OF pl c(2)]
  have k1: "scheduled s1 ?qs = k" unfolding k scheduled_def run1 other1 ..
  let ?s2 = "wake s1 ?qs (s1\<lparr>current_process := k\<rparr>)"
  have "schedule_next s1 = Inr ?s2"
    using schedule_loop_find [OF cand] c0 by (simp add: schedule_next_def other1 k1)
  moreover have k0: "k \<noteq> 0"
  proof (cases "find (may_run s) ?qs")
    case (Some p)
    then have "p \<in> set ?qs" by (auto simp: find_Some_iff)
    then show ?thesis using plist_nonzero [OF cand(1)] Some by (simp add: k scheduled_def)
  qed (simp add: k scheduled_def idle)
  let ?s3 = "?s2\<lparr>vm := (vm s)\<lparr>cr3 := pagedir (mem (vm s)) (p_context (proc_at s k)),
      current_context := p_context (proc_at s k)\<rparr>\<rparr>"
  have run: "Schedule old s = Inr (p_state (proc_at s1 k), ?s3)"
    using calculation k0 c0 ctx pid c(1)
    by (simp add: Schedule_def activate_memory_context_def proc_at_wake next1 other1 flip: s1)
  have keep: "processes_ok L ?s3 ps"
    by (rule processes_ok_cong [OF ok]) (simp_all add: proc_at_wake next1 other1)
  have st: "p_state (proc_at ?s3 c) = old" by (simp add: proc_at_wake) (simp add: s1 upd_proc_def)
  have woken: "status (proc_at ?s3 k) = PROCESS_RUNNABLE" if "may_run s k" "k \<in> set ?qs"
  proof -
    have "find (may_run s) ?qs \<noteq> None" using that by (auto simp: find_None_iff)
    then have "find (may_run s) ?qs = Some k" by (auto simp: k scheduled_def)
    then show ?thesis by (simp add: status_wake run1 next1)
  qed
  have "proc_at ?s3 p = proc_at s p" if "p \<noteq> c" "p \<noteq> k" for p
  proof -
    have "find (may_run s1) ?qs \<noteq> Some p" using that(2) by (auto simp: k scheduled_def run1)
    then have "proc_at ?s3 p = proc_at s1 p" by (simp add: proc_at_wake_other)
    then show ?thesis using that(1) by (simp add: s1 upd_proc_def)
  qed
  moreover have "cpu_at ?s3 = cpu_at s" "ticks ?s3 = ticks s" by (simp_all add: s1 upd_proc_def)
  ultimately show ?thesis using run keep st woken
    by (intro exI [of _ ?s3]) simp
qed

text \<open>What the scheduler never touches.\<close>

definition same_structure :: "kernel \<Rightarrow> kernel \<Rightarrow> bool" where
  "same_structure s s' \<longleftrightarrow> heap s' = heap s \<and> node_next s' = node_next s \<and> node_prev s' = node_prev s
     \<and> first_process s' = first_process s \<and> num_proc s' = num_proc s \<and> idle_process s' = idle_process s
     \<and> (\<forall>p. p_next (proc_at s' p) = p_next (proc_at s p) \<and> pid (proc_at s' p) = pid (proc_at s p)
           \<and> stack (proc_at s' p) = stack (proc_at s p) \<and> user_stack (proc_at s' p) = user_stack (proc_at s p)
           \<and> messages (proc_at s' p) = messages (proc_at s p))"

lemma same_structure_refl [simp]: "same_structure s s"
  by (simp add: same_structure_def)

lemma same_structure_trans: "same_structure s t \<Longrightarrow> same_structure t u \<Longrightarrow> same_structure s u"
  by (simp add: same_structure_def)

lemma schedule_loop_same:
  assumes "schedule_loop s = Some (Inr s')"
  shows "same_structure s s'"
proof -
  have "\<forall>s'. r = Inr s' \<longrightarrow> same_structure s s'" if "schedule_loop s = Some r" for r
    by (rule schedule_loop.raw_induct [OF _ that])
      (fastforce simp: same_structure_def upd_proc_def Let_def split: if_splits)
  with assms show ?thesis by blast
qed

lemma Schedule_same:
  assumes "Schedule old s = Inr (frame, s')"
  shows "same_structure s s'"
proof -
  let ?s1 = "if current_process s \<noteq> 0 then upd_proc (current_process s) (\<lambda>p. p\<lparr>p_state := old\<rparr>) s else s"
  from assms obtain s2 where s2: "schedule_next ?s1 = Inr s2"
    and s': "s' = s2 \<or> (\<exists>v. s' = s2\<lparr>vm := v\<rparr>)"
    by (auto simp: Schedule_def Let_def kernel_simps split: if_splits)
  have "same_structure s ?s1" by (simp add: same_structure_def upd_proc_def)
  moreover have "same_structure ?s1 s2"
    using s2 by (auto simp: schedule_next_def Let_def kernel_simps same_structure_def
        dest!: schedule_loop_same split: if_splits)
  moreover have "same_structure s2 s'" using s' by (auto simp: same_structure_def)
  ultimately show ?thesis using same_structure_trans by blast
qed

text \<open>
  C3: A timer tick hands the processor on: the running process keeps the register frame it was
  interrupted with; the search starts behind it and takes the first process that is runnable or whose
  sleep is over (which it then wakes), or the idle process if it finds none; the chosen process's frame
  is returned and its page directory loaded. The search always ends, and the process list, its PIDs and
  its order stay as they were.
\<close>

theorem Schedule_picks:
  assumes ok: "processes_ok L s ps" and c: "current_process s = c" "c \<in> set ps"
    and s1: "s1 = upd_proc c (\<lambda>p. p\<lparr>p_state := old\<rparr>) s" and k: "k = scheduled s (candidates c ps)"
    and idle: "idle_process s \<noteq> 0" and ctx: "p_context (proc_at s k) \<noteq> 0" and pid: "pid (proc_at s k) \<noteq> -1"
  shows "\<exists>s'. Schedule old s = Inr (p_state (proc_at s1 k), s')
    \<and> current_process s' = k \<and> current_context (vm s') = p_context (proc_at s k)
    \<and> cr3 (vm s') = pagedir (mem (vm s)) (p_context (proc_at s k))
    \<and> p_state (proc_at s' c) = old \<and> processes_ok L s' ps
    \<and> (k \<in> set (candidates c ps) \<and> may_run s k \<longrightarrow> status (proc_at s' k) = PROCESS_RUNNABLE)
    \<and> (\<forall>p. p \<noteq> c \<and> p \<noteq> k \<longrightarrow> proc_at s' p = proc_at s p)"
  using Schedule_effect [OF assms] by blast

text \<open>
  With no running process, which is how \<open>KillCurrentProcess\<close> calls it, the scheduler takes the
  first process of the list whatever its state: a sleeping or paused process is resumed as if it were
  runnable, and nothing records that it runs.
\<close>

theorem Schedule_after_kill:
  assumes "current_process s = 0" "first_process s \<noteq> 0"
    and "p_context (proc_at s (first_process s)) \<noteq> 0" "pid (proc_at s (first_process s)) \<noteq> -1"
  shows "\<exists>s'. Schedule old s = Inr (p_state (proc_at s (first_process s)), s')
    \<and> current_process s' = first_process s \<and> proc_at s' = proc_at s
    \<and> current_context (vm s') = p_context (proc_at s (first_process s))"
  using assms by (simp add: Schedule_def schedule_next_def activate_memory_context_def Let_def)

section \<open>Killing a process\<close>

lemma kill_loop_before:
  assumes "plist s a (us @ p # vs)" "us \<noteq> []" "\<forall>u \<in> set (tl us). pid (proc_at s u) \<noteq> k" "pid (proc_at s p) = k"
  shows "kill_loop s k a = Some (Inr (last us))"
  using assms
proof (induction us arbitrary: a)
  case (Cons u us)
  then have a: "a = u" "u \<noteq> 0" "plist s (p_next (proc_at s u)) (us @ p # vs)" by auto
  show ?case
  proof (cases us)
    case Nil
    then show ?thesis using a Cons.prems by (subst kill_loop.simps) auto
  next
    case (Cons w ws)
    then have "p_next (proc_at s u) = w" "w \<noteq> 0" "pid (proc_at s w) \<noteq> k" using a(3) Cons.prems(3) by auto
    moreover have "kill_loop s k (p_next (proc_at s u)) = Some (Inr (last us))"
      using Cons.IH [OF a(3)] Cons.prems(3,4) Cons by (cases ws) auto
    ultimately show ?thesis using a(1,2) Cons by (subst kill_loop.simps) simp
  qed
qed simp

lemma kill_loop_absent:
  assumes "plist s a ps" "ps \<noteq> []" "\<forall>u \<in> set (tl ps). pid (proc_at s u) \<noteq> k"
  shows "kill_loop s k a = Some (Inl Null_Deref)"
  using assms
proof (induction ps arbitrary: a)
  case (Cons u us)
  then have a: "a = u" "u \<noteq> 0" "plist s (p_next (proc_at s u)) us" by auto
  show ?case
  proof (cases us)
    case Nil
    then show ?thesis using a by (subst kill_loop.simps) auto
  next
    case (Cons w ws)
    then have "p_next (proc_at s u) = w" "w \<noteq> 0" "pid (proc_at s w) \<noteq> k" using a(3) Cons.prems(3) by auto
    moreover have "kill_loop s k (p_next (proc_at s u)) = Some (Inl Null_Deref)"
      using Cons.IH [OF a(3)] Cons.prems(3) Cons by (cases ws) auto
    ultimately show ?thesis using a(1,2) by (subst kill_loop.simps) simp
  qed
qed simp

lemma free_process_ok:
  assumes "heap_ok L (heap s)" and blocks: "stk = stack (proc_at s p)" "ustk = user_stack (proc_at s p)"
    and live: "\<forall>b \<in> {p, stk, ustk}. live_block L (heap s) b \<and> b < HEAP_END L" and "distinct [p, stk, ustk]"
  obtains h where "free_process L p s = Inr (s\<lparr>heap := h\<rparr>)" "heap_ok L h"
    "\<And>b. live_block L h b \<longleftrightarrow> b \<notin> {p, stk, ustk} \<and> live_block L (heap s) b"
proof -
  obtain h1 where h1: "kfree L stk (heap s) = Inr h1" "heap_ok L h1"
      "\<And>b. live_block L h1 b \<longleftrightarrow> b \<noteq> stk \<and> live_block L (heap s) b"
    using kheap.mfree_live [OF assms(1)] live by blast
  then have "live_block L h1 ustk" using live assms(5) by auto
  then obtain h2 where h2: "kfree L ustk h1 = Inr h2" "heap_ok L h2"
      "\<And>b. live_block L h2 b \<longleftrightarrow> b \<noteq> ustk \<and> live_block L h1 b"
    using kheap.mfree_live [OF h1(2)] live by blast
  then have "live_block L h2 p" using live assms(5) h1(3) by auto
  then obtain h3 where h3: "kfree L p h2 = Inr h3" "heap_ok L h3"
      "\<And>b. live_block L h3 b \<longleftrightarrow> b \<noteq> p \<and> live_block L h2 b"
    using kheap.mfree_live [OF h2(2)] live by blast
  show ?thesis
    by (rule that [of h3])
      (use h1 h2 h3 blocks in \<open>auto simp: free_process_def k_free_def\<close>)
qed

lemma plist_append:
  "plist s a (us @ p # vs) \<Longrightarrow> plist s (p_next (proc_at s p)) vs \<and> a = (if us = [] then p else hd us)"
  by (induction us arbitrary: a) (auto split: if_splits)

lemma plist_bypass:
  assumes "plist s a (us @ p # vs)" "us \<noteq> []" "distinct (us @ p # vs)"
    and "proc_at s' = (proc_at s)(last us := (proc_at s (last us))\<lparr>p_next := p_next (proc_at s p)\<rparr>)"
  shows "plist s' a (us @ vs)"
  using assms
proof (induction us arbitrary: a)
  case (Cons u us)
  show ?case
  proof (cases "us = []")
    case True
    have "plist s' (p_next (proc_at s p)) vs \<longleftrightarrow> plist s (p_next (proc_at s p)) vs"
      by (rule plist_cong) (use Cons.prems True in auto)
    then show ?thesis using Cons.prems True by auto
  next
    case False
    then have "u \<noteq> last us" using Cons.prems(3) by auto
    then have "proc_at s' u = proc_at s u" using False Cons.prems(4) by simp
    with Cons False show ?thesis by auto
  qed
qed simp

text \<open>The state with a process taken out of the list, before its memory goes back to the heap.\<close>

definition bypassed :: "u32 list \<Rightarrow> u32 \<Rightarrow> vmm \<Rightarrow> kernel \<Rightarrow> kernel" where
  "bypassed us p v s =
     (if us = [] then s\<lparr>first_process := p_next (proc_at s p), vm := v\<rparr>
      else upd_proc (last us) (\<lambda>q. q\<lparr>p_next := p_next (proc_at s p)\<rparr>) (s\<lparr>vm := v\<rparr>))"

lemma bypassed_other [simp]:
  "heap (bypassed us p v s) = heap s" "vm (bypassed us p v s) = v" "num_proc (bypassed us p v s) = num_proc s"
  "node_next (bypassed us p v s) = node_next s" "node_prev (bypassed us p v s) = node_prev s"
  "pid (proc_at (bypassed us p v s) q) = pid (proc_at s q)"
  "stack (proc_at (bypassed us p v s) q) = stack (proc_at s q)"
  "user_stack (proc_at (bypassed us p v s) q) = user_stack (proc_at s q)"
  "messages (proc_at (bypassed us p v s) q) = messages (proc_at s q)"
  by (simp_all add: bypassed_def upd_proc_def)

lemma KillProcess_eq:
  assumes ok: "processes_ok L s (us @ p # vs)"
  shows "KillProcess L p s = bindE (destroy_context L (p_context (proc_at s p)) (vm s))
    (\<lambda>v. free_process L p (bypassed us p v s))"
proof -
  note okD = processes_okD [OF ok]
  have p0: "p \<noteq> 0" using plist_nonzero [OF okD(2)] by simp
  have pl: "first_process s = (if us = [] then p else hd us)" using plist_append [OF okD(2)] by auto
  have pids: "pid (proc_at s q) \<noteq> pid (proc_at s p)" if "q \<in> set us" for q
  proof -
    have "pid (proc_at s p) \<notin> (\<lambda>p. pid (proc_at s p)) ` set us" using okD(5) by auto
    then show ?thesis using that by (metis image_eqI)
  qed
  show ?thesis
  proof (cases "us = []")
    case True
    then show ?thesis using p0 pl
      by (cases "destroy_context L (p_context (proc_at s p)) (vm s)")
        (simp_all add: KillProcess_def k_destroy_context_def bypassed_def)
  next
    case False
    have "kill_loop s (pid (proc_at s p)) (first_process s) = Some (Inr (last us))"
      by (rule kill_loop_before [OF okD(2) False _ refl]) (use pids False in \<open>auto dest: list.set_sel(2)\<close>)
    moreover have "last us \<noteq> 0" "hd us \<noteq> 0" using plist_nonzero [OF okD(2)] False by auto
    ultimately show ?thesis
      using False p0 pl pids [OF hd_in_set [OF False]]
      by (cases "destroy_context L (p_context (proc_at s p)) (vm s)")
        (simp_all add: KillProcess_def k_destroy_context_def bypassed_def)
  qed
qed

lemma processes_bypassed:
  assumes ok: "processes_ok L s (us @ p # vs)"
    and heap: "heap_ok L h" "\<And>q. q \<in> set (us @ vs) \<Longrightarrow> live_block L h q"
  shows "processes_ok L ((bypassed us p v s)\<lparr>heap := h\<rparr>) (us @ vs)"
proof -
  let ?s = "(bypassed us p v s)\<lparr>heap := h\<rparr>"
  note okD = processes_okD [OF ok]
  have pl: "plist s (p_next (proc_at s p)) vs" "first_process s = (if us = [] then p else hd us)"
    using plist_append [OF okD(2)] by auto
  have "plist ?s (first_process ?s) (us @ vs)"
  proof (cases "us = []")
    case True
    then show ?thesis using pl(1) by (subst plist_cong [where s = s]) (auto simp: bypassed_def)
  next
    case False
    show ?thesis
      using plist_bypass [OF okD(2) False okD(3), of ?s] False pl(2) by (simp add: bypassed_def upd_proc_def)
  qed
  then show ?thesis using okD(3,5,6) heap by (auto simp: processes_ok_def)
qed

lemma free_process_returned:
  assumes ok: "heap_ok L (heap s)" and blocks: "stk = stack (proc_at s p)" "ustk = user_stack (proc_at s p)"
    and live: "live_block L (heap s) p" "live_block L (heap s) stk" "ustk = 0 \<or> live_block L (heap s) ustk"
    and d: "p \<noteq> stk" "p \<noteq> ustk" "stk \<noteq> ustk"
    and run: "free_process L p s = Inr s'"
  shows "\<exists>h. s' = s\<lparr>heap := h\<rparr> \<and> heap_ok L h
    \<and> (\<forall>b. live_block L h b \<longleftrightarrow> b \<notin> {p, stk, ustk} \<and> live_block L (heap s) b)"
proof -
  from run obtain h1 h2 h3 where k: "kfree L stk (heap s) = Inr h1" "kfree L ustk h1 = Inr h2" "kfree L p h2 = Inr h3"
    and s': "s' = s\<lparr>heap := h3\<rparr>"
    by (auto simp: free_process_def k_free_def kernel_simps blocks)
  have s0: "stk \<noteq> 0" using live(2) by auto
  have l1: "heap_ok L h1" "\<And>q. live_block L h1 q \<longleftrightarrow> q \<noteq> stk \<and> live_block L (heap s) q"
    using kfree_returned [OF ok _ k(1)] live(2) s0 by simp_all
  have u1: "ustk = 0 \<or> live_block L h1 ustk" using live(3) l1(2) d(3) by auto
  have l2: "heap_ok L h2" "\<And>q. live_block L h2 q \<longleftrightarrow> q \<noteq> ustk \<and> live_block L h1 q"
    using kfree_returned [OF l1(1) u1 k(2)] by (cases "ustk = 0"; auto)+
  have "live_block L h2 p" using live(1) d(1,2) l1(2) l2(2) by simp
  then have l3: "heap_ok L h3" "\<And>q. live_block L h3 q \<longleftrightarrow> q \<noteq> p \<and> live_block L h2 q"
    using kfree_returned [OF l2(1) _ k(3)] by (cases "p = 0"; simp)+
  have "live_block L h3 b \<longleftrightarrow> b \<notin> {p, stk, ustk} \<and> live_block L (heap s) b" for b
    using l1(2) l2(2) l3(2) by auto
  then show ?thesis using s' l3(1) by (intro exI [of _ h3]) simp
qed

text \<open>
  C2: Killing a process of the list, once its context is destroyed, removes exactly that process: the
  others keep their order and PIDs, and exactly its stack, its user stack and its process structure go
  back to the heap.
\<close>

theorem KillProcess_removes:
  assumes ok: "processes_ok L s (us @ p # vs)"
    and d: "destroy_context L (p_context (proc_at s p)) (vm s) = Inr v"
    and blocks: "stk = stack (proc_at s p)" "ustk = user_stack (proc_at s p)"
    and live: "\<forall>b \<in> {p, stk, ustk}. live_block L (heap s) b \<and> b < HEAP_END L"
    and apart: "distinct [p, stk, ustk]" "stk \<notin> set (us @ vs)" "ustk \<notin> set (us @ vs)"
  shows "\<exists>s'. KillProcess L p s = Inr s' \<and> processes_ok L s' (us @ vs) \<and> vm s' = v
    \<and> (\<forall>b. live_block L (heap s') b \<longleftrightarrow> b \<notin> {p, stk, ustk} \<and> live_block L (heap s) b)
    \<and> (\<forall>q. pid (proc_at s' q) = pid (proc_at s q))"
proof -
  let ?s1 = "bypassed us p v s"
  have s1: "heap ?s1 = heap s" "stk = stack (proc_at ?s1 p)" "ustk = user_stack (proc_at ?s1 p)"
    using blocks by simp_all
  obtain h where h: "free_process L p ?s1 = Inr (?s1\<lparr>heap := h\<rparr>)" "heap_ok L h"
      "\<And>b. live_block L h b \<longleftrightarrow> b \<notin> {p, stk, ustk} \<and> live_block L (heap s) b"
    using free_process_ok [of L ?s1, OF _ s1(2,3)] processes_okD(1) [OF ok] live apart(1) unfolding s1(1) by blast
  have "KillProcess L p s = Inr (?s1\<lparr>heap := h\<rparr>)" by (simp add: KillProcess_eq [OF ok] d h(1))
  moreover have "processes_ok L (?s1\<lparr>heap := h\<rparr>) (us @ vs)"
    using processes_okD(3,4) [OF ok] h(3) apart(2,3) by (intro processes_bypassed [OF ok h(2)]) auto
  ultimately show ?thesis using h(3) by (intro exI [of _ "?s1\<lparr>heap := h\<rparr>"]) simp
qed

text \<open>
  Killing a process that is not in the list does not report "Could not kill process": the search
  reads the PID of the process behind the last one and dereferences \<open>NULL\<close>.
\<close>

theorem KillProcess_absent:
  assumes ok: "processes_ok L s ps" "ps \<noteq> []" and p: "p \<noteq> 0" "\<forall>q \<in> set ps. pid (proc_at s q) \<noteq> pid (proc_at s p)"
  shows "KillProcess L p s = Inl Null_Deref"
proof -
  have "kill_loop s (pid (proc_at s p)) (first_process s) = Some (Inl Null_Deref)"
    by (rule kill_loop_absent [OF processes_okD(2) [OF ok(1)] ok(2)]) (use p(2) ok(2) in \<open>auto dest: list.set_sel(2)\<close>)
  moreover have "first_process s = hd ps" "hd ps \<in> set ps"
    using plist_head [OF processes_okD(2) [OF ok(1)]] ok(2) by auto
  moreover from this have "first_process s \<noteq> 0" using plist_nonzero [OF processes_okD(2) [OF ok(1)]] by simp
  ultimately show ?thesis using p by (simp add: KillProcess_def)
qed

section \<open>Concrete runs\<close>

text \<open>Three blocks taken from a fresh heap: two stacks and a process structure.\<close>

definition example_heap1 :: kheap where
  "example_heap1 = appended 0x350000 0x350010 4096 fresh_heap"

definition example_heap2 :: kheap where
  "example_heap2 = appended 0x350010 0x351020 4096 example_heap1"

definition example_heap3 :: kheap where
  "example_heap3 = appended 0x351020 0x352030 sizeof_process example_heap2"

lemma kmalloc_grows:
  assumes "heap_inv L h ns" "\<forall>n \<in> set ns. \<not> fits h sz n" "sz \<noteq> 0" "request_ok sz"
    "NEXT_BLOCK h (last ns) = nx" "nx < HEAP_END L"
  shows "kmalloc L sz h = Inr (BLOCK_START nx, appended (last ns) nx sz h)"
    "heap_inv L (appended (last ns) nx sz h) (ns @ [nx])"
proof -
  have "find (fits h sz) ns = None" using assms(2) by (simp add: find_None_iff)
  then show "kmalloc L sz h = Inr (BLOCK_START nx, appended (last ns) nx sz h)"
    using assms by (simp add: kmalloc_eq)
  show "heap_inv L (appended (last ns) nx sz h) (ns @ [nx])"
    using heap_inv_appended [OF assms(1)] assms by simp
qed

lemma example_heap_steps:
  "kmalloc example_layout 4096 fresh_heap = Inr (0x350020, example_heap1)"
  "heap_inv example_layout example_heap1 [0x350000, 0x350010]"
  "kmalloc example_layout 4096 example_heap1 = Inr (0x351030, example_heap2)"
  "heap_inv example_layout example_heap2 [0x350000, 0x350010, 0x351020]"
  "kmalloc example_layout sizeof_process example_heap2 = Inr (0x352040, example_heap3)"
  "heap_inv example_layout example_heap3 [0x350000, 0x350010, 0x351020, 0x352030]"
proof -
  note s = fits_def NEXT_BLOCK_def BLOCK_START_def upd_node_def appended_def fresh_heap_def kinit_heap_def
  have "heap_inv example_layout fresh_heap [0x350000]" using heap_inv_fresh by simp
  from kmalloc_grows [OF this, of 4096 "0x350010"]
  show k1: "kmalloc example_layout 4096 fresh_heap = Inr (0x350020, example_heap1)"
    and i1: "heap_inv example_layout example_heap1 [0x350000, 0x350010]"
    by (simp_all add: example_heap1_def request_ok_def fits_def NEXT_BLOCK_def BLOCK_START_def
        fresh_heap_def kinit_heap_def upd_node_def)
  from kmalloc_grows [OF i1, of 4096 "0x351020"]
  show k2: "kmalloc example_layout 4096 example_heap1 = Inr (0x351030, example_heap2)"
    and i2: "heap_inv example_layout example_heap2 [0x350000, 0x350010, 0x351020]"
    by (simp_all add: example_heap2_def request_ok_def)
      (simp_all add: example_heap1_def s)
  from kmalloc_grows [OF i2, of sizeof_process "0x352030"]
  show "kmalloc example_layout sizeof_process example_heap2 = Inr (0x352040, example_heap3)"
    and "heap_inv example_layout example_heap3 [0x350000, 0x350010, 0x351020, 0x352030]"
    by (simp_all add: example_heap3_def request_ok_def)
      (simp_all add: example_heap2_def example_heap1_def s)
qed

definition example_boot :: kernel where
  "example_boot = example_kernel\<lparr>first_process := 0, current_process := 0\<rparr>"

lemma example_boot_ok: "processes_ok example_layout example_boot []"
  using heap_inv_fresh by (auto simp: processes_ok_def example_boot_def example_kernel_def heap_ok_def)

lemma example_boot_sel: "heap example_boot = fresh_heap" "num_proc example_boot = 3"
  "vm example_boot = example_vmm" "current_process example_boot = 0" "first_process example_boot = 0"
  "idle_process example_boot = 0x20"
  by (simp_all add: example_boot_def example_kernel_def)

lemma example_created:
  obtains s where "CreateUserProcess example_layout 0x40000000 0x160000 example_boot = Inr (0x352040, s)"
    "heap s = example_heap3" "stack (proc_at s 0x352040) = 0x350020" "user_stack (proc_at s 0x352040) = 0x351030"
    "first_process s = 0x352040" "vm s = example_vmm" "p_context (proc_at s 0x352040) = 0x160000"
    "pid (proc_at s 0x352040) = 3" "processes_ok example_layout s [0x352040]"
    "status (proc_at s 0x352040) = PROCESS_RUNNABLE"
proof -
  have "\<exists>s. CreateUserProcess example_layout 0x40000000 0x160000 example_boot = Inr (0x352040, s)
      \<and> heap s = example_heap3 \<and> stack (proc_at s 0x352040) = 0x350020
      \<and> user_stack (proc_at s 0x352040) = 0x351030 \<and> first_process s = 0x352040 \<and> vm s = example_vmm
      \<and> p_context (proc_at s 0x352040) = 0x160000"
    by (simp add: CreateUserProcess_def k_malloc_def example_boot_sel example_heap_steps Let_def
        upd_proc_def upd_cpu_def)
  then obtain s where s: "CreateUserProcess example_layout 0x40000000 0x160000 example_boot = Inr (0x352040, s)"
      "heap s = example_heap3" "stack (proc_at s 0x352040) = 0x350020" "user_stack (proc_at s 0x352040) = 0x351030"
      "first_process s = 0x352040" "vm s = example_vmm" "p_context (proc_at s 0x352040) = 0x160000" by blast
  from CreateUserProcess_effect [OF example_boot_ok _ _ s(1)] that [OF s] show ?thesis
    by (simp add: example_boot_sel)
qed

theorem CreateUserProcess_adds_witness:
  "\<exists>s. CreateUserProcess example_layout 0x40000000 0x160000 example_boot = Inr (0x352040, s)
     \<and> processes_ok example_layout s [0x352040] \<and> pid (proc_at s 0x352040) = 3"
proof -
  obtain s where run: "CreateUserProcess example_layout 0x40000000 0x160000 example_boot = Inr (0x352040, s)"
    by (rule example_created) (rule that)
  from CreateUserProcess_adds [OF example_boot_ok _ _ run] run show ?thesis by (simp add: example_boot_sel)
qed

lemma example_context: "context_ok example_vmm (kernel_context example_vmm)"
  using example_context_ok by (simp add: example_vmm_def)

theorem CreateKernelProcess_adds_witness:
  "\<exists>p s. CreateKernelProcess example_layout 0x1234 example_boot = Inr (p, s)
     \<and> processes_ok example_layout s [p] \<and> pid (proc_at s p) = 3 \<and> status (proc_at s p) = PROCESS_RUNNABLE"
proof -
  let ?nx = "0x351020 :: u32" and ?h = "appended 0x350010 0x351020 sizeof_process example_heap1"
  have k2: "kmalloc example_layout sizeof_process example_heap1 = Inr (0x351030, ?h)"
    using kmalloc_grows(1) [OF example_heap_steps(2), of sizeof_process ?nx]
    by (simp add: request_ok_def) (simp add: example_heap1_def fits_def NEXT_BLOCK_def BLOCK_START_def
        upd_node_def appended_def fresh_heap_def kinit_heap_def)
  obtain ctx v where c: "CreateUsermodeContext example_layout 1 example_vmm = Inr (ctx, v)"
    using example_usermode_context by blast
  have "\<exists>s. CreateKernelProcess example_layout 0x1234 example_boot = Inr (0x351030, s)"
    by (simp add: CreateKernelProcess_def k_malloc_def example_boot_sel example_heap_steps k2 Let_def
        upd_proc_def upd_cpu_def c)
  then obtain s where run: "CreateKernelProcess example_layout 0x1234 example_boot = Inr (0x351030, s)" by blast
  from CreateKernelProcess_adds [OF example_boot_ok example_layout_ok _ _ run] example_context run show ?thesis
    by (auto simp: example_boot_sel)
qed

theorem GetProcessByPid_unique_witness:
  "\<exists>s. processes_ok example_layout s [0x352040] \<and> GetProcessByPid 3 s = Inr 0x352040 \<and> GetProcessByPid 7 s = Inr 0"
proof -
  obtain s where s: "processes_ok example_layout s [0x352040]" "pid (proc_at s 0x352040) = 3"
    by (rule example_created) (rule that)
  from GetProcessByPid_unique [OF s(1)] s show ?thesis by auto
qed

theorem Schedule_picks_witness:
  "\<exists>s s'. processes_ok example_layout s [0x352040] \<and> Schedule 0x5000 s = Inr (0x5000, s')
     \<and> current_process s' = 0x352040 \<and> cr3 (vm s') = 0x161000"
proof -
  obtain s where s: "processes_ok example_layout s [0x352040]" "pid (proc_at s 0x352040) = 3"
      "vm s = example_vmm" "p_context (proc_at s 0x352040) = 0x160000"
      "status (proc_at s 0x352040) = PROCESS_RUNNABLE"
    by (rule example_created) (rule that)
  let ?s = "s\<lparr>current_process := 0x352040, idle_process := 0x20\<rparr>"
  have ok: "processes_ok example_layout ?s [0x352040]" by (rule processes_ok_cong [OF s(1)]) simp_all
  have k: "scheduled ?s (candidates 0x352040 [0x352040]) = 0x352040"
    using s(5) by (simp add: scheduled_def candidates_def may_run_def)
  have "\<exists>s'. Schedule 0x5000 ?s = Inr (0x5000, s') \<and> current_process s' = 0x352040 \<and> cr3 (vm s') = 0x161000"
    using Schedule_picks [OF ok _ _ refl k [symmetric], of "0x5000"] s(2-4) example_pagedir
    by (auto simp: upd_proc_def)
  with ok show ?thesis by blast
qed

theorem Schedule_after_kill_witness:
  "\<exists>s s'. status (proc_at s 0x352040) = PROCESS_PAUSED \<and> Schedule 0 s = Inr (p_state (proc_at s 0x352040), s')
     \<and> current_process s' = 0x352040"
proof -
  obtain s :: kernel where s: "pid (proc_at s 0x352040) = 3" "p_context (proc_at s 0x352040) = 0x160000"
      "first_process s = 0x352040"
    by (rule example_created) (rule that)
  let ?s = "upd_proc 0x352040 (\<lambda>p. p\<lparr>status := PROCESS_PAUSED\<rparr>) (s\<lparr>current_process := 0\<rparr>)"
  have "status (proc_at ?s 0x352040) = PROCESS_PAUSED" "first_process ?s = 0x352040"
    using s(3) by (simp_all add: upd_proc_def)
  moreover have "\<exists>s'. Schedule 0 ?s = Inr (p_state (proc_at ?s 0x352040), s') \<and> current_process s' = 0x352040"
    using Schedule_after_kill [of ?s 0] s by (auto simp: upd_proc_def)
  ultimately show ?thesis by blast
qed

theorem KillProcess_removes_witness:
  "\<exists>s s'. processes_ok example_layout s [0x352040] \<and> KillProcess example_layout 0x352040 s = Inr s'
     \<and> processes_ok example_layout s' [] \<and> \<not> live_block example_layout (heap s') 0x350020"
proof -
  obtain s where s: "processes_ok example_layout s [0x352040]" "heap s = example_heap3"
      "stack (proc_at s 0x352040) = 0x350020" "user_stack (proc_at s 0x352040) = 0x351030"
    by (rule example_created) (rule that)
  define s2 where "s2 = upd_proc 0x352040 (\<lambda>p. p\<lparr>p_context := 0x170000\<rparr>) (s\<lparr>vm := example_vmm\<rparr>)"
  note s2 = s2_def
  have ok: "processes_ok example_layout s2 ([] @ 0x352040 # [])"
    unfolding s2 by (simp, rule processes_ok_cong [OF s(1)]) (simp_all add: upd_proc_def)
  have zero: "load32 (mem example_vmm) (entry 0 i) = 0" if "i < 1024" for i
    using that load_entry_store [of "0x160000" 0 0 i "\<lambda>_. 0" "0x161000"]
    by (simp add: example_vmm_def entry_def load32_def)
  have "pagedir (mem example_vmm) 0x170000 = 0"
    using load_entry_store [of "0x160000" "0x170000" 0 0 "\<lambda>_. 0" "0x161000"]
    by (simp add: pagedir_def example_vmm_def entry_def load32_def)
  then have "own_entries example_vmm 0x170000" by (simp add: own_entries_def zero)
  from destroy_context_frees [OF this, of example_layout] obtain v
    where d: "destroy_context example_layout (p_context (proc_at s2 0x352040)) (vm s2) = Inr v"
    by (auto simp: s2 upd_proc_def) (auto simp: example_vmm_def)
  have live: "live_block example_layout (heap s2) b \<longleftrightarrow> b \<in> {0x350020, 0x351030, 0x352040}" for b
    unfolding s2 upd_proc_def using s(2) by (simp add: live_block_iff [OF example_heap_steps(6)])
      (auto simp: example_heap3_def example_heap2_def example_heap1_def appended_def upd_node_def BLOCK_START_def
        fresh_heap_def kinit_heap_def)
  from KillProcess_removes [OF ok d refl refl] s(3,4) ok show ?thesis
    unfolding live by (auto simp: s2 upd_proc_def)
qed

theorem KillProcess_absent_witness:
  "\<exists>s. processes_ok example_layout s [0x352040] \<and> KillProcess example_layout 0x20 s = Inl Null_Deref"
proof -
  obtain s where s: "processes_ok example_layout s [0x352040]" "pid (proc_at s 0x352040) = 3"
    by (rule example_created) (rule that)
  let ?s = "upd_proc 0x20 (\<lambda>p. p\<lparr>pid := 9\<rparr>) s"
  have ok: "processes_ok example_layout ?s [0x352040]"
    using s(1) by (simp add: processes_ok_def) (simp add: upd_proc_def)
  from KillProcess_absent [OF ok, of "0x20"] s(2) ok show ?thesis by (auto simp: upd_proc_def)
qed

end
