(* ===== verification/Elf.thy ===== *)
theory Elf
  imports Kernel_State
begin

text \<open>
  Loading programs, \<open>hal.x86/elf.c\<close>. The kernel copies between virtual addresses of the context that is
  active, so memory is accessed through the page walk; a page that is not mapped is a page fault.
\<close>

section \<open>Memory of the active context\<close>

definition virt_to_phys :: "vmm \<Rightarrow> u32 \<Rightarrow> kerror + u32" where
  "virt_to_phys v a =
     (case mmu_walk (mem v) (cr3 v) a of
        None \<Rightarrow> Inl (Halted ''page fault'')
      | Some pte \<Rightarrow> Inr (frame_of pte OR (a AND 0xFFF)))"

definition read8 :: "u32 \<Rightarrow> vmm \<Rightarrow> kerror + u8" where
  "read8 a v = bindE (virt_to_phys v a) (\<lambda>p. Inr (mem v p))"

definition write8 :: "u32 \<Rightarrow> u8 \<Rightarrow> vmm \<Rightarrow> kerror + vmm" where
  "write8 a b v = bindE (virt_to_phys v a) (\<lambda>p. Inr (v\<lparr>mem := (mem v)(p := b)\<rparr>))"

definition read16 :: "u32 \<Rightarrow> vmm \<Rightarrow> kerror + u16" where
  "read16 a v =
     bindE (read8 a v) (\<lambda>b0. bindE (read8 (a + 1) v) (\<lambda>b1.
     Inr (ucast b0 OR push_bit 8 (ucast b1))))"

definition read32 :: "u32 \<Rightarrow> vmm \<Rightarrow> kerror + u32" where
  "read32 a v =
     bindE (read16 a v) (\<lambda>w0. bindE (read16 (a + 2) v) (\<lambda>w1.
     Inr (ucast w0 OR push_bit 16 (ucast w1))))"

definition memcpy :: "u32 \<Rightarrow> u32 \<Rightarrow> u32 \<Rightarrow> vmm \<Rightarrow> kerror + vmm" where
  "memcpy dest src n =
     foldE (\<lambda>i v. bindE (read8 (src + of_nat i) v) (\<lambda>b. write8 (dest + of_nat i) b v)) [0..<unat n]"

definition memset :: "u32 \<Rightarrow> u8 \<Rightarrow> u32 \<Rightarrow> vmm \<Rightarrow> kerror + vmm" where
  "memset dest b n = foldE (\<lambda>i. write8 (dest + of_nat i) b) [0..<unat n]"

definition on_vm :: "(vmm \<Rightarrow> kerror + vmm) \<Rightarrow> kernel \<Rightarrow> kerror + kernel" where
  "on_vm f s = bindE (f (vm s)) (\<lambda>v. Inr (s\<lparr>vm := v\<rparr>))"

section \<open>The image\<close>

text \<open>
  \<open>header_t\<close> and \<open>program_t\<close>, packed structures, and how they lie in memory. The loader itself reads single
  fields, at the time it needs them.
\<close>

record header_t =
  h_magic :: u32
  h_version :: u32
  h_reserved :: u64
  h_versions :: u64
  h_entry :: u32
  h_offset :: u32
  h_soffset :: u32
  h_flags :: u32
  h_header_size :: u16
  h_pentry_size :: u16
  h_pentry_count :: u16
  h_sentry_size :: u16
  h_sentry_count :: u16
  h_stable_index :: u16

record program_t =
  ph_type :: u32
  ph_offset :: u32
  ph_vaddr :: u32
  ph_paddr :: u32
  ph_fsize :: u32
  ph_msize :: u32
  ph_flags :: u32
  ph_alignment :: u32

definition load16 :: "memory \<Rightarrow> u32 \<Rightarrow> u16" where
  "load16 m a = ucast (m a) OR push_bit 8 (ucast (m (a + 1)))"

definition load64 :: "memory \<Rightarrow> u32 \<Rightarrow> u64" where
  "load64 m a = ucast (load32 m a) OR push_bit 32 (ucast (load32 m (a + 4)))"

definition header_at :: "memory \<Rightarrow> u32 \<Rightarrow> header_t" where
  "header_at m a = \<lparr>h_magic = load32 m a, h_version = load32 m (a + 4), h_reserved = load64 m (a + 8),
     h_versions = load64 m (a + 16), h_entry = load32 m (a + 24), h_offset = load32 m (a + 28),
     h_soffset = load32 m (a + 32), h_flags = load32 m (a + 36), h_header_size = load16 m (a + 40),
     h_pentry_size = load16 m (a + 42), h_pentry_count = load16 m (a + 44), h_sentry_size = load16 m (a + 46),
     h_sentry_count = load16 m (a + 48), h_stable_index = load16 m (a + 50)\<rparr>"

definition program_at :: "memory \<Rightarrow> u32 \<Rightarrow> program_t" where
  "program_at m a = \<lparr>ph_type = load32 m a, ph_offset = load32 m (a + 4), ph_vaddr = load32 m (a + 8),
     ph_paddr = load32 m (a + 12), ph_fsize = load32 m (a + 16), ph_msize = load32 m (a + 20),
     ph_flags = load32 m (a + 24), ph_alignment = load32 m (a + 28)\<rparr>"

section \<open>The loader\<close>

abbreviation (input) ELF_MAGIC :: u32 where "ELF_MAGIC \<equiv> 0x464C457F"

text \<open>
  Fields are read by their offsets in \<open>header_t\<close> and \<open>program_t\<close>. A segment is loaded through
  a buffer of the kernel heap, since its image and its destination belong to different contexts.
\<close>

definition load_segment :: "layout \<Rightarrow> u32 \<Rightarrow> u32 \<Rightarrow> u32 \<Rightarrow> kernel \<Rightarrow> kerror + kernel" where
  "load_segment L addr ctx program s =
     bindE (read32 (program + 8) (vm s)) (\<lambda>vaddr.
     bindE (read32 (program + 4) (vm s)) (\<lambda>offset.
     bindE (read32 program (vm s)) (\<lambda>typ.
     let dest = vaddr; src = addr + offset in
     if typ \<noteq> 1 \<or> dest = 0 \<or> src = 0 then Inr s
     else
       bindE (read32 (program + 16) (vm s)) (\<lambda>fsize.
       bindE (k_malloc L fsize s) (\<lambda>(buf, s1).
       bindE (read32 (program + 20) (vm s1)) (\<lambda>msize.
       bindE (on_vm (memcpy buf src fsize) s1) (\<lambda>s2.
       bindE (on_vm (vmm_alloc L ctx vaddr msize) s2) (\<lambda>s3.
       let old_context = current_context (vm s3) in
       bindE (on_vm (activate_memory_context ctx) s3) (\<lambda>s4.
       bindE (on_vm (memset dest 0 msize) s4) (\<lambda>s5.
       bindE (on_vm (memcpy dest buf fsize) s5) (\<lambda>s6.
       bindE (on_vm (activate_memory_context old_context) s6) (\<lambda>s7.
       k_free L buf s7))))))))))))"

text \<open>The loop reads the number of program headers anew in every turn.\<close>

partial_function (option) elf_loop ::
  "layout \<Rightarrow> u32 \<Rightarrow> u32 \<Rightarrow> nat \<Rightarrow> u32 \<Rightarrow> kernel \<Rightarrow> (kerror + kernel) option" where
  "elf_loop L addr ctx i program s =
     (case read16 (addr + 44) (vm s) of
        Inl e \<Rightarrow> Some (Inl e)
      | Inr pentry_count \<Rightarrow>
          if i < unat pentry_count
          then (case load_segment L addr ctx program s of
                  Inl e \<Rightarrow> Some (Inl e)
                | Inr s' \<Rightarrow> elf_loop L addr ctx (i + 1) (program + 32) s')
          else Some (Inr s))"

definition ParseElf :: "layout \<Rightarrow> u32 \<Rightarrow> u32 \<Rightarrow> kernel \<Rightarrow> kerror + u32 \<times> kernel" where
  "ParseElf L addr ctx s =
     (if addr = 0 \<or> ctx = 0 then Inr (0, s)
      else
        bindE (read32 (addr + 28) (vm s)) (\<lambda>offset.
        bindE (read32 addr (vm s)) (\<lambda>magic.
        if magic \<noteq> ELF_MAGIC then Inr (0, s)
        else
          bindE (returned (elf_loop L addr ctx 0 (addr + offset) s)) (\<lambda>s'.
          bindE (read32 (addr + 24) (vm s')) (\<lambda>entry_pt. Inr (entry_pt, s'))))))"

end
