(* ===== verification/Descriptors.thy ===== *)
theory Descriptors
  imports Video
begin

text \<open>
  The descriptor tables of \<open>hal.x86/gdt.c\<close> and \<open>hal.x86/idt.c\<close>, the programming of the interrupt
  controllers, the timer (\<open>hal.x86/pit.c\<close>) and the serial port (\<open>InitSerial\<close> of \<open>hal.x86/debug.c\<close>).
  Loading the tables into the processor is assembly and not modelled.
\<close>

section \<open>The global descriptor table\<close>

record gdt_entry =
  limit_low :: u16
  base_low :: u16
  base_middle :: u8
  g_access :: u8
  granularity :: u8
  base_high :: u8

definition CreateDescriptor :: "u32 \<Rightarrow> u32 \<Rightarrow> u8 \<Rightarrow> u8 \<Rightarrow> gdt_entry" where
  "CreateDescriptor base lim acc gran =
     \<lparr>limit_low = ucast (lim AND 0xFFFF), base_low = ucast (base AND 0xFFFF),
      base_middle = ucast (drop_bit 16 base AND 0xFF), g_access = acc,
      granularity = ucast (drop_bit 16 lim AND 0x0F) OR (gran AND 0xF0),
      base_high = ucast (drop_bit 24 base AND 0xFF)\<rparr>"

text \<open>
  The table, the task state segment and the pointer for \<open>lgdt\<close>. The addresses of the two arrays are
  parameters. The segment of the task state is given its size as limit.
\<close>

record gdt =
  tss :: "u32 list"
  gdt_entries :: "gdt_entry list"
  gp_limit :: u16
  gp_base :: u32

definition tss0 :: "u32 list" where
  "tss0 = [0, 0, 0x10] @ replicate 29 0"

definition InitGlobalDescriptors :: "u32 \<Rightarrow> u32 \<Rightarrow> u32 \<Rightarrow> u32 list \<Rightarrow> gdt" where
  "InitGlobalDescriptors tss_addr entries_addr kernel_esp t =
     \<lparr>tss = t[1 := kernel_esp],
      gdt_entries =
        [CreateDescriptor 0 0 0 0,
         CreateDescriptor 0 0xFFFFFFFF 0x9A 0xCF,
         CreateDescriptor 0 0xFFFFFFFF 0x92 0xCF,
         CreateDescriptor 0 0xFFFFFFFF 0xFA 0xCF,
         CreateDescriptor 0 0xFFFFFFFF 0xF2 0xCF,
         CreateDescriptor tss_addr 128 0x89 0x40],
      gp_limit = 8 * 6 - 1, gp_base = entries_addr\<rparr>"

text \<open>How the processor reads a descriptor.\<close>

definition segment_base :: "gdt_entry \<Rightarrow> u32" where
  "segment_base d = ucast (base_low d) OR push_bit 16 (ucast (base_middle d)) OR push_bit 24 (ucast (base_high d))"

definition segment_limit :: "gdt_entry \<Rightarrow> u32" where
  "segment_limit d = ucast (limit_low d) OR push_bit 16 (ucast (granularity d AND 0x0F))"

definition segment_dpl :: "gdt_entry \<Rightarrow> u8" where
  "segment_dpl d = drop_bit 5 (g_access d) AND 3"

section \<open>The interrupt descriptor table\<close>

record idt_entry =
  base_lo :: u16
  sel :: u16
  be0 :: u8
  i_flags :: u8
  base_hi :: u16

definition CreateInterruptDescriptor :: "nat \<Rightarrow> u64 \<Rightarrow> u16 \<Rightarrow> u8 \<Rightarrow> idt_entry list \<Rightarrow> idt_entry list" where
  "CreateInterruptDescriptor n base s f es =
     es[n := \<lparr>base_lo = ucast (base AND 0xFFFF), sel = s, be0 = 0, i_flags = f,
              base_hi = ucast (drop_bit 16 base AND 0xFFFF)\<rparr>]"

text \<open>The bytes sent to both interrupt controllers, in order: vectors from 0x20 and 0x28 on.\<close>

definition remap_irqs :: "video \<Rightarrow> video" where
  "remap_irqs = fold (\<lambda>(port, b). outb port b)
     [(0x20, 0x11), (0xA0, 0x11), (0x21, 0x20), (0xA1, 0x28), (0x21, 0x04), (0xA1, 0x02),
      (0x21, 0x01), (0xA1, 0x01), (0x21, 0x0), (0xA1, 0x0)]"

definition empty_gate :: idt_entry where
  "empty_gate = \<lparr>base_lo = 0, sel = 0, be0 = 0, i_flags = 0, base_hi = 0\<rparr>"

text \<open>\<open>stub n\<close> is the address of the assembly stub \<open>intr_stub_n\<close>.\<close>

definition InitInterruptDescriptors :: "(nat \<Rightarrow> u32) \<Rightarrow> video \<Rightarrow> idt_entry list \<times> video" where
  "InitInterruptDescriptors stub v =
     (let gate = (\<lambda>f n. CreateInterruptDescriptor n (ucast (stub n)) 0x08 f);
          es0 = replicate 256 empty_gate;
          es1 = fold (gate 0x8E) [0..<19] es0;
          es2 = fold (gate 0x8E) [32..<48] es1
      in (gate 0xEE 48 es2, remap_irqs v))"

definition gate_address :: "idt_entry \<Rightarrow> u32" where
  "gate_address e = ucast (base_lo e) OR push_bit 16 (ucast (base_hi e))"

section \<open>Timer and serial port\<close>

text \<open>\<open>freq\<close> is an \<open>int\<close>; division by zero is undefined.\<close>

definition InitPit :: "int \<Rightarrow> video \<Rightarrow> kerror + video" where
  "InitPit freq v =
     (if freq = 0 then Inl (Halted ''division by zero'')
      else
        let divisor = (if freq > 0 then 1193180 div freq else - (1193180 div (- freq)))
        in Inr (outb 0x40 (word_of_int (divisor div 256))
             (outb 0x40 (word_of_int (divisor mod 256)) (outb 0x43 0x36 v))))"

definition InitSerial :: "u32 \<Rightarrow> u8 \<Rightarrow> u8 \<Rightarrow> video \<Rightarrow> kerror + video" where
  "InitSerial baud parity bits v =
     (if baud = 0 then Inl (Halted ''division by zero'')
      else
        let w = ucast (115200 div baud) :: u16
        in Inr (fold (\<lambda>(port, b). outb port b)
             [(0x3f8 + 1, 0x00), (0x3f8 + 3, 0x80), (0x3f8, ucast w), (0x3f8 + 1, ucast (drop_bit 8 w)),
              (0x3f8 + 3, push_bit 3 (parity AND 0x7) OR ((bits - 5) AND 0x3)),
              (0x3f8 + 2, 0xC7), (0x3f8 + 4, 0x0B)] v))"

section \<open>Properties\<close>

lemma mask8: "(0xFF :: u32) = mask 8" and mask16: "(0xFFFF :: u32) = mask 16"
  and mask4: "(0x0F :: u32) = mask 4" and mask4': "(0x0F :: u8) = mask 4"
  by (simp_all add: mask_eq_exp_minus_1)

lemma high4: "bit (0xF0 :: u8) n \<longleftrightarrow> 4 \<le> n \<and> n < 8"
proof -
  have e: "(0xF0 :: u8) = push_bit 4 (mask 4)" by (simp add: mask_eq_exp_minus_1 push_bit_eq_mult)
  show ?thesis unfolding e by (auto simp: bit_simps)
qed

lemma high4_int: "bit (0xF0 :: int) n \<longleftrightarrow> 4 \<le> n \<and> n < 8"
proof -
  have e: "(0xF0 :: int) = push_bit 4 (mask 4)" by (simp add: mask_eq_exp_minus_1 push_bit_eq_mult)
  show ?thesis unfolding e by (auto simp: bit_simps)
qed

lemma descriptor_base: "segment_base (CreateDescriptor base lim acc gran) = base"
proof (rule bit_word_eqI)
  fix n assume n: "n < LENGTH(32)"
  consider "n < 16" | "16 \<le> n" "n < 24" | "24 \<le> n" by linarith
  then show "bit (segment_base (CreateDescriptor base lim acc gran)) n = bit base n"
    using n unfolding segment_base_def CreateDescriptor_def mask8 mask16
    by cases (auto simp: bit_simps)
qed

lemma mask20: "(0xFFFFF :: u32) = mask 20"
  by (simp add: mask_eq_exp_minus_1)

lemma descriptor_limit: "segment_limit (CreateDescriptor base lim acc gran) = lim AND 0xFFFFF"
proof (rule bit_word_eqI)
  fix n assume n: "n < LENGTH(32)"
  consider "n < 16" | "16 \<le> n" "n < 20" | "20 \<le> n" by linarith
  then show "bit (segment_limit (CreateDescriptor base lim acc gran)) n = bit (lim AND 0xFFFFF) n"
    using n unfolding segment_limit_def CreateDescriptor_def mask4 mask16 mask4' mask20
    by cases (auto simp: bit_simps high4 high4_int)
qed

text \<open>
  The global table holds what was put in: reading a descriptor back gives its base, the low 20 bits
  of its limit and its access byte. The table has flat code and data segments for ring 0 (selectors 0x08
  and 0x10) and for ring 3 (0x18 and 0x20) and the task state segment at 0x28, whose kernel stack pointer
  is the one given; the first descriptor is null.
\<close>

theorem global_descriptors_roundtrip:
  "segment_base (CreateDescriptor base lim acc gran) = base
   \<and> segment_limit (CreateDescriptor base lim acc gran) = lim AND 0xFFFFF
   \<and> g_access (CreateDescriptor base lim acc gran) = acc
   \<and> (let g = InitGlobalDescriptors tss_addr entries_addr kernel_esp tss0
      in map segment_dpl (gdt_entries g) = [0, 0, 0, 3, 3, 0]
       \<and> map segment_base (gdt_entries g) = [0, 0, 0, 0, 0, tss_addr]
       \<and> map segment_limit (gdt_entries g) = [0, 0xFFFFF, 0xFFFFF, 0xFFFFF, 0xFFFFF, 128]
       \<and> tss g ! 1 = kernel_esp \<and> tss g ! 2 = 0x10 \<and> unat (gp_limit g) + 1 = 8 * length (gdt_entries g))"
proof -
  have "segment_dpl (CreateDescriptor b l a gr) = drop_bit 5 a AND 3" for b l a gr
    by (simp add: segment_dpl_def CreateDescriptor_def)
  then show ?thesis
    by (simp add: descriptor_base descriptor_limit Let_def InitGlobalDescriptors_def tss0_def)
      (simp add: CreateDescriptor_def)
qed

lemma gate_address_make:
  "gate_address \<lparr>base_lo = ucast ((ucast (a :: u32) :: u64) AND 0xFFFF), sel = s, be0 = 0, i_flags = f,
     base_hi = ucast (drop_bit 16 (ucast a :: u64) AND 0xFFFF)\<rparr> = a"
proof (rule bit_word_eqI)
  fix n assume n: "n < LENGTH(32)"
  have m: "(0xFFFF :: u64) = mask 16" by (simp add: mask_eq_exp_minus_1)
  consider "n < 16" | "16 \<le> n" by linarith
  then show "bit (gate_address \<lparr>base_lo = ucast ((ucast a :: u64) AND 0xFFFF), sel = s, be0 = 0, i_flags = f,
     base_hi = ucast (drop_bit 16 (ucast a :: u64) AND 0xFFFF)\<rparr>) n = bit a n"
    using n unfolding gate_address_def m by cases (auto simp: bit_simps)
qed

lemma length_fold_gates:
  "length (fold (\<lambda>n es. CreateInterruptDescriptor n (b n) s f es) ns es) = length es"
  by (induction ns arbitrary: es) (auto simp: CreateInterruptDescriptor_def)

lemma fold_gates:
  assumes "distinct ns" "\<forall>n \<in> set ns. n < length es"
  shows "fold (\<lambda>n es. CreateInterruptDescriptor n (b n) s f es) ns es ! i =
    (if i \<in> set ns then \<lparr>base_lo = ucast (b i AND 0xFFFF), sel = s, be0 = 0, i_flags = f,
       base_hi = ucast (drop_bit 16 (b i) AND 0xFFFF)\<rparr> else es ! i)"
  using assms by (induction ns arbitrary: es) (auto simp: CreateInterruptDescriptor_def)

text \<open>
  After the setup of the interrupt table, the gate of each exception 0 to 18, of each hardware
  interrupt 32 to 47 and of the system call 48 leads to its own stub in the kernel's code segment; only
  the system call may be raised from user mode; every other of the 256 gates is not present.
\<close>

theorem interrupt_gates:
  assumes "n < 256"
  shows "let e = fst (InitInterruptDescriptors stub v) ! n
    in if n \<le> 18 \<or> 32 \<le> n \<and> n \<le> 48
       then gate_address e = stub n \<and> sel e = 0x08 \<and> be0 e = 0 \<and> i_flags e = (if n = 48 then 0xEE else 0x8E)
       else e = empty_gate"
proof -
  define es1 where
    "es1 = fold (\<lambda>n. CreateInterruptDescriptor n (ucast (stub n)) 8 0x8E) [0..<19] (replicate 256 empty_gate)"
  define es2 where "es2 = fold (\<lambda>n. CreateInterruptDescriptor n (ucast (stub n)) 8 0x8E) [32..<48] es1"
  have len: "length es1 = 256" "length es2 = 256"
    unfolding es2_def es1_def by (simp_all only: length_fold_gates length_replicate)
  have es: "fst (InitInterruptDescriptors stub v) = CreateInterruptDescriptor 48 (ucast (stub 48)) 8 0xEE es2"
    unfolding es2_def es1_def InitInterruptDescriptors_def Let_def by (simp only: fst_conv)
  let ?g = "\<lparr>base_lo = ucast ((ucast (stub n) :: u64) AND 0xFFFF), sel = 8, be0 = 0, i_flags = 0x8E,
              base_hi = ucast (drop_bit 16 (ucast (stub n) :: u64) AND 0xFFFF)\<rparr>"
  have e1: "es1 ! n = (if n \<in> set [0..<19] then ?g else replicate 256 empty_gate ! n)"
    unfolding es1_def by (rule fold_gates) (simp_all only: distinct_upt length_replicate set_upt, simp)
  have e2: "es2 ! n = (if n \<in> set [32..<48] then ?g else es1 ! n)"
    unfolding es2_def by (rule fold_gates) (simp_all only: distinct_upt len set_upt, simp)
  show ?thesis
  proof (cases "n = 48")
    case True
    then show ?thesis
      using gate_address_make [of "stub 48"] len by (simp add: es CreateInterruptDescriptor_def)
  next
    case False
    then have "fst (InitInterruptDescriptors stub v) ! n = es2 ! n"
      by (simp add: es CreateInterruptDescriptor_def)
    also have "\<dots> = (if n < 19 \<or> 32 \<le> n \<and> n < 48 then ?g else empty_gate)"
      using assms unfolding e2 e1 set_upt by auto
    finally show ?thesis
      using False gate_address_make [of "stub n"] by (auto simp: Let_def)
  qed
qed

theorem interrupt_gates_witness:
  "gate_address (fst (InitInterruptDescriptors (\<lambda>n. 0x100000 + of_nat n * 16) example_video) ! 48) = 0x100300"
  using interrupt_gates [of 48 "\<lambda>n. 0x100000 + of_nat n * 16" example_video] by (simp add: Let_def)

end
