(* ===== verification/Interrupts.thy ===== *)
theory Interrupts
  imports Multitasking Elf Descriptors
begin

text \<open>
  What enters the kernel: the interrupt dispatcher \<open>int_handler\<close> and the table of interrupt handlers of
  \<open>hal.x86/idt.c\<close>, and the system calls of \<open>hal.x86/syscall.c\<close>. The state is that of the whole kernel
  with its console; what is written to the serial port about exceptions is in \<open>Reports\<close>.
\<close>

section \<open>State\<close>

text \<open>
  \<open>irq_handlers\<close> is the array \<open>irqHandlers\<close> of 48 PIDs, \<open>task_state\<close> the array \<open>tss\<close>.
\<close>

record machine =
  kst :: kernel
  console :: video
  irq_handlers :: "u32 list"
  task_state :: "u32 list"
  kernel_mode :: u32

abbreviation (input) NUM_HANDLERS :: nat where "NUM_HANDLERS \<equiv> 48"

section \<open>Interrupt handlers of processes\<close>

text \<open>An \<open>int\<close> index that C does not check; outside the array it is an error here.\<close>

definition irq_index :: "u32 \<Rightarrow> u32 list \<Rightarrow> kerror + nat" where
  "irq_index irqno hs = (if 0 \<le> sint irqno \<and> nat (sint irqno) < length hs then Inr (nat (sint irqno)) else Inl Out_Of_Bounds)"

definition registerHandlerProcess :: "u32 \<Rightarrow> u32 \<Rightarrow> u32 list \<Rightarrow> kerror + u32 \<times> u32 list" where
  "registerHandlerProcess irqno p hs =
     bindE (irq_index irqno hs) (\<lambda>i. if hs ! i \<noteq> 0 then Inr (0, hs) else Inr (1, hs[i := p]))"

definition resetHandlerProcess :: "u32 \<Rightarrow> u32 \<Rightarrow> u32 list \<Rightarrow> kerror + u32 \<times> u32 list" where
  "resetHandlerProcess irqno p hs =
     bindE (irq_index irqno hs) (\<lambda>i. if hs ! i = p then Inr (1, hs[i := 0]) else Inr (0, hs))"

definition removeHandlerProcess :: "u32 \<Rightarrow> u32 list \<Rightarrow> u32 list" where
  "removeHandlerProcess p hs = map (\<lambda>h. if h = p then 0 else h) hs"

section \<open>System calls\<close>

definition set_eax :: "u32 \<Rightarrow> u32 \<Rightarrow> machine \<Rightarrow> machine" where
  "set_eax frame x m = m\<lparr>kst := upd_cpu frame (\<lambda>c. c\<lparr>eax := x\<rparr>) (kst m)\<rparr>"

definition on_kernel :: "(kernel \<Rightarrow> kerror + 'a \<times> kernel) \<Rightarrow> machine \<Rightarrow> kerror + 'a \<times> machine" where
  "on_kernel f m = bindE (f (kst m)) (\<lambda>(x, s). Inr (x, m\<lparr>kst := s\<rparr>))"

definition running :: "machine \<Rightarrow> kerror + process" where
  "running m = bindE (derefE (current_process (kst m))) (\<lambda>_. Inr (proc_at (kst m) (current_process (kst m))))"

definition sys_send_message :: "layout \<Rightarrow> u32 \<Rightarrow> machine \<Rightarrow> kerror + u32 \<times> machine" where
  "sys_send_message L frame m =
     (let msg = ebx (cpu_at (kst m) frame) in
      bindE (derefE msg) (\<lambda>_.
      bindE (GetProcessByPid (receiver (msg_at (kst m) msg)) (kst m)) (\<lambda>proc.
      bindE (on_kernel (ksend_message L (current_process (kst m)) proc msg) m) (\<lambda>(r, m1).
      Inr (frame, set_eax frame r m1)))))"

definition sys_receive_message :: "layout \<Rightarrow> u32 \<Rightarrow> machine \<Rightarrow> kerror + u32 \<times> machine" where
  "sys_receive_message L frame m =
     (let c = cpu_at (kst m) frame in
      bindE (on_kernel (kreceive_message L (current_process (kst m)) (ebx c) (ecx c)) m) (\<lambda>(r, m1).
      Inr (frame, set_eax frame r m1)))"

text \<open>The size is unsigned, so only 0 is refused; neither the size nor the break is checked or rounded.\<close>

definition sys_sbrk :: "layout \<Rightarrow> u32 \<Rightarrow> machine \<Rightarrow> kerror + u32 \<times> machine" where
  "sys_sbrk L frame m =
     (let n = ebx (cpu_at (kst m) frame) in
      if n \<le> 0 then Inr (frame, set_eax frame (-1) m)
      else
        bindE (running m) (\<lambda>p.
        let base = USERSPACE_PAGEPOOL + sbrk_state p; c = current_process (kst m) in
        bindE (vmm_alloc L (p_context p) base n (vm (kst m))) (\<lambda>v.
        let m1 = set_eax frame base (m\<lparr>kst := (kst m)\<lparr>vm := v\<rparr>\<rparr>)
        in Inr (frame, m1\<lparr>kst := upd_proc c (\<lambda>p. p\<lparr>sbrk_state := sbrk_state p + n\<rparr>) (kst m1)\<rparr>))))"

definition sys_register_irq :: "u32 \<Rightarrow> machine \<Rightarrow> kerror + u32 \<times> machine" where
  "sys_register_irq frame m =
     bindE (running m) (\<lambda>p.
     if uid p \<noteq> ROOT_UID then Inr (frame, m)
     else
       bindE (registerHandlerProcess (ebx (cpu_at (kst m) frame)) (pid p) (irq_handlers m)) (\<lambda>(_, hs).
       Inr (frame, m\<lparr>irq_handlers := hs\<rparr>)))"

definition sys_reset_irq :: "u32 \<Rightarrow> machine \<Rightarrow> kerror + u32 \<times> machine" where
  "sys_reset_irq frame m =
     bindE (running m) (\<lambda>p.
     if uid p \<noteq> ROOT_UID then Inr (frame, m)
     else
       bindE (resetHandlerProcess (ebx (cpu_at (kst m) frame)) (pid p) (irq_handlers m)) (\<lambda>(_, hs).
       Inr (frame, m\<lparr>irq_handlers := hs\<rparr>)))"

definition sys_set_timer :: "u32 \<Rightarrow> machine \<Rightarrow> kerror + u32 \<times> machine" where
  "sys_set_timer frame m =
     (let s = kst m; c = current_process s in
      bindE (derefE c) (\<lambda>_.
      on_kernel (Schedule frame)
        (m\<lparr>kst := upd_proc c (\<lambda>p. p\<lparr>sleep_timer := ticks s + ebx (cpu_at s frame),
                                 status := PROCESS_SLEEPING\<rparr>) s\<rparr>)))"

definition sys_launch :: "layout \<Rightarrow> u32 \<Rightarrow> machine \<Rightarrow> kerror + u32 \<times> machine" where
  "sys_launch L frame m =
     bindE (CreateUsermodeContext L 0 (vm (kst m))) (\<lambda>(ctx, v).
     let s = (kst m)\<lparr>vm := v\<rparr> in
     bindE (ParseElf L (ebx (cpu_at s frame)) ctx s) (\<lambda>(entry_pt, s1).
     if entry_pt = 0 then Inr (frame, m\<lparr>kst := s1\<rparr>)
     else bindE (CreateUserProcess L entry_pt ctx s1) (\<lambda>(_, s2). Inr (frame, m\<lparr>kst := s2\<rparr>))))"

text \<open>\<open>frame\<close> is the address of the registers the caller was interrupted with.\<close>

definition Syscall :: "layout \<Rightarrow> u32 \<Rightarrow> machine \<Rightarrow> kerror + u32 \<times> machine" where
  "Syscall L frame m =
     (let c = cpu_at (kst m) frame in
      if eax c = 1 then Inr (frame, m\<lparr>console := kputch (ucast (ebx c)) (console m)\<rparr>)
      else if eax c = 2 then bindE (running m) (\<lambda>_. on_kernel (KillCurrentProcess L) m)
      else if eax c = 3 then sys_send_message L frame m
      else if eax c = 4 then sys_receive_message L frame m
      else if eax c = 5 then sys_sbrk L frame m
      else if eax c = 6 then sys_register_irq frame m
      else if eax c = 7 then sys_reset_irq frame m
      else if eax c = 8 then sys_set_timer frame m
      else if eax c = 9 then sys_launch L frame m
      else Inr (frame, m))"

section \<open>The dispatcher\<close>

definition set_kernel_stack :: "u32 \<Rightarrow> machine \<Rightarrow> machine" where
  "set_kernel_stack frame m = m\<lparr>task_state := (task_state m)[1 := frame + sizeof_cpu]\<rparr>"

definition out :: "u16 \<Rightarrow> u8 \<Rightarrow> machine \<Rightarrow> machine" where
  "out port b m = m\<lparr>console := outb port b (console m)\<rparr>"

definition errors :: "u8 list list" where
  "errors = [bytes ''Division by zero exception'', bytes ''Debug exception'', bytes ''Non maskable interrupt'',
     bytes ''Breakpoint exception'', bytes ''Into detected overflow'', bytes ''Out of bounds exception'',
     bytes ''Invalid opcode exception'', bytes ''No coprocessor exception'', bytes ''Double fault'',
     bytes ''Coprocessor segment overrun'', bytes ''Bad TSS'', bytes ''Segment not present'', bytes ''Stack fault'',
     bytes ''General protection fault'', bytes ''Page fault'', bytes ''Unknown interrupt exception'',
     bytes ''Coprocessor fault'', bytes ''Alignment check exception'', bytes ''Machine check exception'']"

lemma length_errors [simp]: "length errors = 19"
  by (simp add: errors_def)

text \<open>
  An exception. The table of messages is read without a check, though more numbers than it has entries
  count as exceptions. In the kernel an exception is a panic; otherwise the running process is killed. Before
  that C prints a stack trace (\<open>StackTrace\<close> of \<open>Debug\<close>) over the serial port, and the words it reads by
  following the frame pointers are left out here, as all serial output is: one that is not mapped would be
  another page fault.
\<close>

definition handle_exception :: "layout \<Rightarrow> u32 \<Rightarrow> machine \<Rightarrow> kerror + u32 \<times> machine" where
  "handle_exception L frame m =
     (let c = cpu_at (kst m) frame; n = unat (intr c) in
      bindE (if intr c = 14 then bindE (running m) (\<lambda>_. Inr ()) else Inr ()) (\<lambda>_.
      if kernel_mode m \<noteq> 0 then (if n < length errors then Inl (Halted ''kernel panic'') else Inl Out_Of_Bounds)
      else
        bindE (running m) (\<lambda>p.
        if \<not> n < length errors then Inl Out_Of_Bounds
        else
          bindE (kprintf
                   (10 # bytes ''ERROR: Process %d caused an error %d (%s) at 0x%x and will be terminated.'' @ [10])
                   [Num (pid p), Num (intr c), Str (errors ! n), Num (eip c)] (console m)) (\<lambda>v.
          bindE (on_kernel (KillCurrentProcess L) (m\<lparr>console := v\<rparr>)) (\<lambda>(new, m1).
          Inr (new, set_kernel_stack new m1))))))"

text \<open>
  A hardware interrupt: the timer counts and schedules; then the registered process gets a message, built
  in a local variable at \<open>msg_buf\<close> of the kernel's stack, of which only the signal is set and whose result
  is ignored; then the slave controller is told.
\<close>

definition irq_timer :: "u32 \<Rightarrow> machine \<Rightarrow> kerror + u32 \<times> machine" where
  "irq_timer frame m =
     (if intr (cpu_at (kst m) frame) = 0x20
      then
        bindE (on_kernel (Schedule frame) (m\<lparr>kst := (kst m)\<lparr>ticks := ticks (kst m) + 1\<rparr>\<rparr>)) (\<lambda>(new, m1).
        Inr (new, set_kernel_stack new m1))
      else Inr (frame, m))"

definition irq_notify :: "layout \<Rightarrow> u32 \<Rightarrow> u32 \<Rightarrow> machine \<Rightarrow> kerror + machine" where
  "irq_notify L msg_buf frame m =
     (let n = intr (cpu_at (kst m) frame);
          m1 = m\<lparr>kst := upd_msg msg_buf (\<lambda>msg. msg\<lparr>signal := n\<rparr>) (kst m)\<rparr> in
      bindE (irq_index n (irq_handlers m1)) (\<lambda>i.
      if 0 < irq_handlers m1 ! i
      then
        bindE (GetProcessByPid (irq_handlers m1 ! i) (kst m1)) (\<lambda>proc.
        bindE (on_kernel (ksend_message L (current_process (kst m1)) proc msg_buf) m1) (\<lambda>(_, m2). Inr m2))
      else Inr m1))"

definition handle_irq :: "layout \<Rightarrow> u32 \<Rightarrow> u32 \<Rightarrow> machine \<Rightarrow> kerror + u32 \<times> machine" where
  "handle_irq L msg_buf frame m =
     bindE (irq_timer frame m) (\<lambda>(new, m1).
     bindE (irq_notify L msg_buf frame m1) (\<lambda>m2.
     Inr (new, if 40 \<le> intr (cpu_at (kst m2) frame) then out 0xA0 0x20 m2 else m2)))"

definition int_handler ::
  "layout \<Rightarrow> u32 \<Rightarrow> u32 \<Rightarrow> machine \<Rightarrow> kerror + u32 \<times> machine" where
  "int_handler L msg_buf frame m =
     bindE (derefE frame) (\<lambda>_.
     let n = intr (cpu_at (kst m) frame) in
     bindE
       (if n < 32 then handle_exception L frame m
        else if 0x20 \<le> n \<and> n \<le> 0x2f then handle_irq L msg_buf frame m
        else if n = 0x30
        then
          bindE (Syscall L frame (m\<lparr>kernel_mode := 1\<rparr>)) (\<lambda>(new, m1).
          Inr (new, set_kernel_stack new m1))
        else
          bindE (kprintf (bytes ''Unknown interrupt: 0x%x'' @ [10]) [Num n] (console m)) (\<lambda>_.
          Inl (Halted ''unknown interrupt''))) (\<lambda>(new, m1).
     let m2 = out 0x20 0x20 m1 in
     Inr (new, m2\<lparr>kernel_mode := 0\<rparr>)))"

definition common_irq_handler :: "int \<Rightarrow> machine \<Rightarrow> machine" where
  "common_irq_handler irqno m = out 0x20 0x20 (if irqno \<ge> 40 then out 0xA0 0x20 m else m)"

section \<open>Properties of the system calls\<close>

text \<open>
  C26: Only processes of root can change the table of interrupt handlers by the system calls 6 and 7, and
  they only change the entry they name: registering takes a free entry and never one that is taken;
  resetting clears an entry of the caller and never one of another process. The entry number is used as
  an array index without a check: one outside the table leaves the array.
\<close>

theorem irq_registration_rules:
  assumes p: "current_process (kst m) \<noteq> 0" "p = proc_at (kst m) (current_process (kst m))"
    and len: "length (irq_handlers m) = NUM_HANDLERS"
    and c: "c = cpu_at (kst m) frame" "eax c = 6 \<or> eax c = 7" and i: "i = sint (ebx c)" "h = irq_handlers m ! nat i"
  shows "Syscall L frame m =
    (if uid p \<noteq> ROOT_UID then Inr (frame, m)
     else if \<not> (0 \<le> i \<and> i < 48) then Inl Out_Of_Bounds
     else if eax c = 6
     then Inr (frame, if h = 0 then m\<lparr>irq_handlers := (irq_handlers m)[nat i := pid p]\<rparr> else m)
     else Inr (frame, if h = pid p then m\<lparr>irq_handlers := (irq_handlers m)[nat i := 0]\<rparr> else m))"
proof -
  have range: "0 \<le> sint (ebx c) \<and> nat (sint (ebx c)) < 48 \<longleftrightarrow> 0 \<le> i \<and> i < 48" using i by auto
  have run: "running m = Inr p" using p by (simp add: running_def)
  have index: "irq_index (ebx c) (irq_handlers m) = (if 0 \<le> i \<and> i < 48 then Inr (nat i) else Inl Out_Of_Bounds)"
    using range i(1) by (simp add: irq_index_def len)
  show ?thesis
  proof (cases "eax c = 6")
    case True
    then show ?thesis
      using run index i(2)
      by (simp add: Syscall_def sys_register_irq_def registerHandlerProcess_def flip: c(1))
  next
    case False
    with c(2) have "eax c = 7" by simp
    then show ?thesis
      using run index i(2)
      by (simp add: Syscall_def sys_reset_irq_def resetHandlerProcess_def flip: c(1))
  qed
qed

definition example_machine :: "u32 \<Rightarrow> u32 \<Rightarrow> machine" where
  "example_machine call arg =
     \<lparr>kst = example_kernel\<lparr>cpu_at := (\<lambda>_. no_cpu)(0x5000 := no_cpu\<lparr>eax := call, ebx := arg\<rparr>)\<rparr>,
      console = example_video, irq_handlers = replicate 48 0, task_state = tss0, kernel_mode = 0\<rparr>"

theorem irq_registration_rules_witness:
  "irq_handlers (snd (projr (Syscall example_layout 0x5000 (example_machine 6 33)))) ! 33 = 1
   \<and> Syscall example_layout 0x5000 (example_machine 6 1000) = Inl Out_Of_Bounds"
proof -
  have e: "current_process (kst (example_machine a b)) = 0x10"
    "proc_at (kst (example_machine a b)) 0x10 = no_process\<lparr>pid := 1, p_next := 0x20\<rparr>"
    "irq_handlers (example_machine a b) = replicate 48 0"
    "cpu_at (kst (example_machine a b)) 0x5000 = no_cpu\<lparr>eax := a, ebx := b\<rparr>" for a b
    by (simp_all add: example_machine_def example_kernel_def)
  show ?thesis
    using irq_registration_rules [of "example_machine 6 33", OF _ refl _ refl _ refl refl, of "0x5000" example_layout]
      irq_registration_rules [of "example_machine 6 1000", OF _ refl _ refl _ refl refl, of "0x5000" example_layout]
    by (simp add: e) (simp add: no_process_def)
qed

section \<open>The timer\<close>

text \<open>
  C25: A timer interrupt in a running process, with no process registered for the timer, counts one tick,
  saves the interrupted frame in the running process, switches to the process the scheduler chooses at
  the new time and to its page directory, sets the kernel stack pointer for the next interrupt to the
  end of that process's frame, acknowledges the interrupt to the first controller only, and leaves
  kernel mode.
\<close>

theorem timer_interrupt:
  assumes ok: "processes_ok L (kst m) ps" and c: "current_process (kst m) = c" "c \<in> set ps"
    and irq: "intr (cpu_at (kst m) frame) = 0x20" "frame \<noteq> 0"
    and hs: "length (irq_handlers m) = NUM_HANDLERS" "irq_handlers m ! 32 = 0" "1 < length (task_state m)"
    and s: "s = (kst m)\<lparr>ticks := ticks (kst m) + 1\<rparr>" and k: "k = scheduled s (candidates c ps)"
    and idle: "idle_process s \<noteq> 0" and ctx: "p_context (proc_at s k) \<noteq> 0" and pid: "pid (proc_at s k) \<noteq> -1"
  shows "\<exists>m'. int_handler L msg_buf frame m =
        Inr (if k = c then frame else p_state (proc_at (kst m) k), m')
    \<and> ticks (kst m') = ticks (kst m) + 1 \<and> current_process (kst m') = k
    \<and> p_state (proc_at (kst m') c) = frame
    \<and> cr3 (vm (kst m')) = pagedir (mem (vm (kst m))) (p_context (proc_at (kst m) k))
    \<and> task_state m' ! 1 = (if k = c then frame else p_state (proc_at (kst m) k)) + sizeof_cpu
    \<and> ports (console m') = (0x20, 0x20) # ports (console m) \<and> kernel_mode m' = 0"
proof -
  have ok': "processes_ok L s ps" by (rule processes_ok_cong [OF ok]) (simp_all add: s)
  have c': "current_process s = c" using c(1) by (simp add: s)
  from Schedule_effect [OF ok' c' c(2) refl k idle ctx pid, of frame] obtain s' where
    run: "Schedule frame s = Inr (p_state (proc_at (upd_proc c (\<lambda>p. p\<lparr>p_state := frame\<rparr>) s) k), s')"
    and s': "current_process s' = k" "cr3 (vm s') = pagedir (mem (vm s)) (p_context (proc_at s k))"
      "p_state (proc_at s' c) = frame" "cpu_at s' = cpu_at s" "ticks s' = ticks s" by blast
  have new: "p_state (proc_at (upd_proc c (\<lambda>p. p\<lparr>p_state := frame\<rparr>) s) k) =
      (if k = c then frame else p_state (proc_at (kst m) k))"
    by (simp add: upd_proc_def s)
  have frame': "intr (cpu_at s' frame) = 0x20" using irq(1) by (simp add: s'(4) s)
  have index: "irq_index 0x20 (irq_handlers m) = Inr 32" by (simp add: irq_index_def hs)
  show ?thesis
    using irq hs(2,3) run [unfolded new, unfolded s] index frame' s'(1-3,5)
    by (simp add: int_handler_def handle_irq_def irq_timer_def irq_notify_def on_kernel_def set_kernel_stack_def upd_msg_def out_def
        outb_def Let_def s)
qed

theorem timer_interrupt_witness:
  "\<exists>m m'. int_handler example_layout 0x6000 0x5000 m = Inr (0x5000, m')
     \<and> current_process (kst m') = 0x352040 \<and> ticks (kst m') = 8"
proof -
  obtain s :: kernel where s: "processes_ok example_layout s [0x352040]" "pid (proc_at s 0x352040) = 3"
      "p_context (proc_at s 0x352040) = 0x160000" "status (proc_at s 0x352040) = PROCESS_RUNNABLE"
    by (rule example_created) (rule that)
  define m where "m = (example_machine 0 0)\<lparr>kst := s\<lparr>current_process := 0x352040, idle_process := 0x20,
    ticks := 7, cpu_at := \<lambda>_. no_cpu\<lparr>intr := 0x20\<rparr>\<rparr>\<rparr>"
  have ok: "processes_ok example_layout (kst m) [0x352040]"
    unfolding m_def by (simp, rule processes_ok_cong [OF s(1)]) simp_all
  have k: "0x352040 = scheduled ((kst m)\<lparr>ticks := ticks (kst m) + 1\<rparr>) (candidates 0x352040 [0x352040])"
    using s(4) by (simp add: scheduled_def candidates_def may_run_def m_def)
  from timer_interrupt [OF ok _ _ _ _ _ _ _ refl k, of "0x5000" "0x6000"] show ?thesis
    using s(2,3) by (auto simp: m_def example_machine_def tss0_def)
qed

end
