(* ===== verification/System.thy ===== *)
theory System
  imports Interrupts
begin

text \<open>
  The kernel as a whole. One invariant, \<open>kernel_inv\<close>, ties the heap of \<open>kheap.c\<close>, the process list of
  \<open>multitasking.c\<close> and the message queues of \<open>message.c\<close> together: all the heap blocks that process
  structures, stacks and queued messages occupy are in use and none is owned twice. The relation
  \<open>kernel_step\<close> has the operations of these modules as its steps, and every step keeps the invariant.
  What can still fail in a state of the invariant is stated at the end.
\<close>

section \<open>What the kernel owns\<close>

text \<open>
  A message buffer of a caller: memory outside the heap, or inside a block of it but not at a block's start.
\<close>

definition buffer :: "layout \<Rightarrow> kheap \<Rightarrow> u32 \<Rightarrow> bool" where
  "buffer L h a \<longleftrightarrow> outside_heap L a \<or> inside_block L h a"

lemma buffer_not_queued: "buffer L (heap s) a \<Longrightarrow> queue_ok L s p ns \<Longrightarrow> a \<notin> set ns"
  unfolding buffer_def using outside_not_live inside_not_live queue_okD(4) by blast

lemma buffer_not_new:
  assumes "buffer L h a" "heap_ok L h" "request_ok sz" "kmalloc L sz h = Inr (p, h')"
  shows "a \<noteq> p"
proof -
  have "live_block L h' p" using kmalloc_live(4) [OF assms(2-4)] by simp
  then show ?thesis using assms inside_not_new outside_not_live unfolding buffer_def by blast
qed

text \<open>
  The heap blocks of a process: its structure, its kernel stack, its user stack where it has one, and the
  message nodes queued for it, which \<open>Q\<close> gives for every process.
\<close>

definition owned :: "kernel \<Rightarrow> (u32 \<Rightarrow> u32 list) \<Rightarrow> u32 \<Rightarrow> u32 list" where
  "owned s Q p = [p, stack (proc_at s p)]
     @ (if user_stack (proc_at s p) = 0 then [] else [user_stack (proc_at s p)]) @ Q p"

definition all_owned :: "kernel \<Rightarrow> (u32 \<Rightarrow> u32 list) \<Rightarrow> u32 list \<Rightarrow> u32 list" where
  "all_owned s Q ps = concat (map (owned s Q) ps)"

text \<open>
  The structure of the kernel: the process list, a queue for every process of it, and no heap block that
  two of these owners share.
\<close>

definition system_ok :: "layout \<Rightarrow> kernel \<Rightarrow> u32 list \<Rightarrow> (u32 \<Rightarrow> u32 list) \<Rightarrow> bool" where
  "system_ok L s ps Q \<longleftrightarrow> processes_ok L s ps \<and> (\<forall>p \<in> set ps. queue_ok L s p (Q p))
     \<and> distinct (all_owned s Q ps) \<and> (\<forall>b \<in> set (all_owned s Q ps). live_block L (heap s) b)"

lemma owned_cong:
  assumes "\<And>p. p \<in> set ps \<Longrightarrow> stack (proc_at s' p) = stack (proc_at s p)
      \<and> user_stack (proc_at s' p) = user_stack (proc_at s p) \<and> Q' p = Q p"
  shows "all_owned s' Q' ps = all_owned s Q ps"
  using assms by (induction ps) (auto simp: all_owned_def owned_def)

lemma system_okD:
  assumes "system_ok L s ps Q"
  shows "processes_ok L s ps" "p \<in> set ps \<Longrightarrow> queue_ok L s p (Q p)" "distinct (all_owned s Q ps)"
    "b \<in> set (all_owned s Q ps) \<Longrightarrow> live_block L (heap s) b" "heap_ok L (heap s)"
  using assms by (auto simp: system_ok_def processes_ok_def)

lemma owned_in: "p \<in> set ps \<Longrightarrow> set (owned s Q p) \<subseteq> set (all_owned s Q ps)"
  by (auto simp: all_owned_def)

lemma owned_apart:
  assumes "distinct (all_owned s Q ps)" "p \<in> set ps" "q \<in> set ps" "p \<noteq> q"
  shows "set (owned s Q p) \<inter> set (owned s Q q) = {}" and "distinct (owned s Q p)"
proof -
  show "distinct (owned s Q p)"
    using assms(1,2) by (auto simp: all_owned_def distinct_concat_iff)
  have ne: "owned s Q p \<noteq> owned s Q q" using assms(4) by (simp add: owned_def)
  then show "set (owned s Q p) \<inter> set (owned s Q q) = {}"
    using assms(1-3) unfolding all_owned_def distinct_concat_iff by auto
qed

lemma all_owned_append: "all_owned s Q (us @ p # vs) = all_owned s Q us @ owned s Q p @ all_owned s Q vs"
  by (simp add: all_owned_def)

text \<open>What leaves lists, queues and heap alone keeps the structure.\<close>

lemma system_ok_same:
  assumes "system_ok L s ps Q" "same_structure s s'"
  shows "system_ok L s' ps Q"
proof -
  have "queue_ok L s' p ns \<longleftrightarrow> queue_ok L s p ns" for p ns
  proof -
    have "seg s' b a ns c \<longleftrightarrow> seg s b a ns c" for b a c
      by (rule seg_cong) (use assms(2) in \<open>simp add: same_structure_def\<close>)
    then show ?thesis using assms(2) by (simp add: queue_ok_def same_structure_def)
  qed
  moreover have "processes_ok L s' ps"
    by (rule processes_ok_cong [OF system_okD(1) [OF assms(1)]]) (use assms(2) in \<open>simp_all add: same_structure_def\<close>)
  moreover have "all_owned s' Q ps = all_owned s Q ps"
    by (rule owned_cong) (use assms(2) in \<open>simp add: same_structure_def\<close>)
  ultimately show ?thesis using assms by (simp add: system_ok_def same_structure_def)
qed

text \<open>So does any change of memory where no block in use starts.\<close>

lemma system_ok_memory:
  assumes ok: "system_ok L s ps Q"
    and same: "\<And>a. live_block L (heap s) a \<Longrightarrow> P a = proc_at s a \<and> n a = node_next s a \<and> q a = node_prev s a"
  shows "system_ok L (s\<lparr>proc_at := P, node_next := n, node_prev := q\<rparr>) ps Q"
proof -
  let ?s = "s\<lparr>proc_at := P, node_next := n, node_prev := q\<rparr>"
  note okD = system_okD [OF ok] and procs = processes_okD [OF system_okD(1) [OF ok]]
  have P: "P p = proc_at s p" if "p \<in> set ps" for p using same procs(4) that by blast
  have "queue_ok L ?s p (Q p)" if p: "p \<in> set ps" for p
  proof -
    have "seg ?s 0 a (Q p) 0 \<longleftrightarrow> seg s 0 a (Q p) 0" for a
      by (rule seg_cong) (use same queue_okD(4) [OF okD(2) [OF p]] in auto)
    then show ?thesis using okD(2) [OF p] P [OF p] by (simp add: queue_ok_def)
  qed
  moreover have "plist ?s a ps \<longleftrightarrow> plist s a ps" for a by (rule plist_cong) (simp add: P)
  then have "processes_ok L ?s ps" using okD(1) P by (simp add: processes_ok_def cong: map_cong)
  moreover have "all_owned ?s Q ps = all_owned s Q ps" by (rule owned_cong) (simp add: P)
  ultimately show ?thesis using ok by (simp add: system_ok_def)
qed

text \<open>A new process, on blocks that were free.\<close>

lemma system_ok_new:
  assumes ok: "system_ok L s ps Q" and procs: "processes_ok L s' (p # ps)"
    and heap: "heap_ok L (heap s')" "\<And>b. live_block L (heap s) b \<Longrightarrow> live_block L (heap s') b"
    and same: "\<And>q. q \<noteq> p \<Longrightarrow> proc_at s' q = proc_at s q" "node_next s' = node_next s" "node_prev s' = node_prev s"
    and own: "distinct (owned s' (\<lambda>_. []) p)"
      "\<And>b. b \<in> set (owned s' (\<lambda>_. []) p) \<Longrightarrow> live_block L (heap s') b \<and> \<not> live_block L (heap s) b"
    and queue: "messages (proc_at s' p) = \<lparr>ml_first = 0, ml_last = l, num_messages = 0\<rparr>"
  shows "system_ok L s' (p # ps) (Q(p := []))"
proof -
  have pn: "p \<notin> set ps" using processes_okD(3) [OF procs] by simp
  have old: "all_owned s' (Q(p := [])) ps = all_owned s Q ps"
    by (rule owned_cong) (use pn same(1) in auto)
  have new: "owned s' (Q(p := [])) p = owned s' (\<lambda>_. []) p" by (simp add: owned_def)
  have "set (owned s' (\<lambda>_. []) p) \<inter> set (all_owned s Q ps) = {}" using own(2) system_okD(4) [OF ok] by auto
  moreover have split: "all_owned s' (Q(p := [])) (p # ps) = owned s' (\<lambda>_. []) p @ all_owned s Q ps"
    using old new unfolding all_owned_def by simp
  ultimately have "distinct (all_owned s' (Q(p := [])) (p # ps))"
    using own(1) system_okD(3) [OF ok] by simp
  moreover have "live_block L (heap s') b" if "b \<in> set (all_owned s' (Q(p := [])) (p # ps))" for b
    using that own(2) heap(2) system_okD(4) [OF ok] unfolding split by auto
  moreover have "queue_ok L s' p []" using heap(1) queue by (simp add: queue_ok_def)
  moreover have "queue_ok L s' q (Q q)" if q: "q \<in> set ps" for q
  proof -
    have "q \<noteq> p" using q pn by auto
    moreover have "seg s' b a ns c \<longleftrightarrow> seg s b a ns c" for b a ns c
      by (rule seg_cong) (simp add: same)
    ultimately show ?thesis using system_okD(2) [OF ok q] heap same(1) by (simp add: queue_ok_def)
  qed
  ultimately show ?thesis using procs pn by (auto simp: system_ok_def)
qed

section \<open>Every operation keeps the structure\<close>

lemma system_ok_CreateKernelProcess:
  assumes ok: "system_ok L s ps Q" and wrap: "num_proc s \<noteq> -1" and run: "CreateKernelProcess L e s = Inr (p, s')"
    and clean: "ml_first (messages (proc_at s p)) = 0" "user_stack (proc_at s p) = 0"
  shows "system_ok L s' (p # ps) (Q(p := []))"
  using run
proof (rule CreateKernelProcess_run)
  fix stk h1 h2 ctx v
  assume k1: "kmalloc L 4096 (heap s) = Inr (stk, h1)" and k2: "kmalloc L sizeof_process h1 = Inr (p, h2)"
    and s': "s' = s\<lparr>vm := v, heap := h2,
      proc_at := (proc_at s)(p := (proc_at s p)\<lparr>stack := stk, sleep_timer := 0, status := PROCESS_RUNNABLE,
        p_state := stk + 4096 - sizeof_cpu, p_next := first_process s, pid := num_proc s,
        p_context := ctx, sbrk_state := 0, uid := ROOT_UID,
        messages := (messages (proc_at s p))\<lparr>num_messages := 0\<rparr>\<rparr>),
      cpu_at := (cpu_at s)(stk + 4096 - sizeof_cpu := kernel_frame e (stk + 4096)),
      first_process := p, num_proc := num_proc s + 1\<rparr>"
  have r: "request_ok 4096" "request_ok sizeof_process" by (simp_all add: request_ok_def)
  note l1 = kmalloc_live [OF system_okD(5) [OF ok] r(1) k1]
  note l2 = kmalloc_live [OF l1(1) r(2) k2]
  have heap: "heap_ok L (heap s')" "\<And>b. live_block L (heap s') b \<longleftrightarrow> b = p \<or> b = stk \<or> live_block L (heap s) b"
    using l2(1,4) l1(4) by (auto simp: s')
  have fresh: "\<not> live_block L (heap s) p" "\<not> live_block L (heap s) stk" "stk \<noteq> p"
    using l1(3,4) l2(3) by auto
  have own: "owned s' (\<lambda>_. []) p = [p, stk]" using clean by (simp add: owned_def s')
  show ?thesis
  proof (rule system_ok_new [OF ok])
    show "processes_ok L s' (p # ps)"
      by (rule processes_ok_cons [OF system_okD(1) [OF ok] wrap])
        (use heap fresh l2(2) in \<open>simp_all add: s'\<close>)
    show "messages (proc_at s' p) = \<lparr>ml_first = 0, ml_last = ml_last (messages (proc_at s p)), num_messages = 0\<rparr>"
      using clean by (simp add: s')
    show "distinct (owned s' (\<lambda>_. []) p)" using own fresh(3) by simp
    show "live_block L (heap s') b \<and> \<not> live_block L (heap s) b" if "b \<in> set (owned s' (\<lambda>_. []) p)" for b
      using that fresh own heap(2) by auto
  qed (use heap in \<open>simp_all add: s'\<close>)
qed

lemma system_ok_CreateUserProcess:
  assumes ok: "system_ok L s ps Q" and wrap: "num_proc s \<noteq> -1" and run: "CreateUserProcess L e ctx s = Inr (p, s')"
    and clean: "ml_first (messages (proc_at s p)) = 0"
  shows "system_ok L s' (p # ps) (Q(p := []))"
  using run
proof (rule CreateUserProcess_run)
  fix stk h1 ustk h2 h3 owner
  assume k1: "kmalloc L 4096 (heap s) = Inr (stk, h1)" and k2: "kmalloc L 4096 h1 = Inr (ustk, h2)"
    and k3: "kmalloc L sizeof_process h2 = Inr (p, h3)"
    and s': "s' = s\<lparr>heap := h3,
      proc_at := (proc_at s)(p := (proc_at s p)\<lparr>stack := stk, user_stack := ustk, sleep_timer := 0,
        status := PROCESS_RUNNABLE, p_state := stk + 4096 - sizeof_cpu, p_next := first_process s,
        pid := num_proc s, p_context := ctx, messages := (messages (proc_at s p))\<lparr>num_messages := 0\<rparr>,
        sbrk_state := 0, uid := owner\<rparr>),
      cpu_at := (cpu_at s)(stk + 4096 - sizeof_cpu := user_frame e (ustk + 4096)),
      first_process := p, num_proc := num_proc s + 1\<rparr>"
  have r: "request_ok 4096" "request_ok sizeof_process" by (simp_all add: request_ok_def)
  note l1 = kmalloc_live [OF system_okD(5) [OF ok] r(1) k1]
  note l2 = kmalloc_live [OF l1(1) r(1) k2]
  note l3 = kmalloc_live [OF l2(1) r(2) k3]
  have heap: "heap_ok L (heap s')"
    "\<And>b. live_block L (heap s') b \<longleftrightarrow> b = p \<or> b = ustk \<or> b = stk \<or> live_block L (heap s) b"
    using l3(1,4) l2(4) l1(4) by (auto simp: s')
  have fresh: "\<not> live_block L (heap s) p" "\<not> live_block L (heap s) stk" "\<not> live_block L (heap s) ustk"
    "distinct [p, stk, ustk]"
    using l1(3,4) l2(3,4) l3(3) by auto
  have own: "owned s' (\<lambda>_. []) p = [p, stk, ustk]" using l2(2) by (simp add: owned_def s')
  show ?thesis
  proof (rule system_ok_new [OF ok])
    show "processes_ok L s' (p # ps)"
      by (rule processes_ok_cons [OF system_okD(1) [OF ok] wrap])
        (use heap fresh l3(2) in \<open>simp_all add: s'\<close>)
    show "messages (proc_at s' p) = \<lparr>ml_first = 0, ml_last = ml_last (messages (proc_at s p)), num_messages = 0\<rparr>"
      using clean by (simp add: s')
    show "distinct (owned s' (\<lambda>_. []) p)" using own fresh(4) by simp
    show "live_block L (heap s') b \<and> \<not> live_block L (heap s) b" if "b \<in> set (owned s' (\<lambda>_. []) p)" for b
      using that fresh own heap(2) by auto
  qed (use heap in \<open>simp_all add: s'\<close>)
qed

lemma owned_at: "p \<in> set ps \<Longrightarrow> b \<in> set (Q p) \<Longrightarrow> b \<in> set (all_owned s Q ps)"
  "p \<in> set ps \<Longrightarrow> p \<in> set (all_owned s Q ps)"
  "p \<in> set ps \<Longrightarrow> stack (proc_at s p) \<in> set (all_owned s Q ps)"
  by (auto simp: all_owned_def owned_def)

lemma queues_apart:
  assumes "system_ok L s ps Q" "p \<in> set ps" "q \<in> set ps" "p \<noteq> q"
  shows "set (Q p) \<inter> set (Q q) = {}"
  using owned_apart(1) [OF system_okD(3) [OF assms(1)] assms(2-4)] by (auto simp: owned_def)

text \<open>Changing one queue: the blocks owned change by what the queue gains or loses.\<close>

lemma system_ok_queue:
  assumes ok: "system_ok L s ps Q" and t: "t \<in> set ps"
    and q: "queue_ok L s' t ns" "\<And>p. p \<in> set ps \<Longrightarrow> p \<noteq> t \<Longrightarrow> queue_ok L s' p (Q p)"
    and live: "\<And>b. b \<in> set ns \<Longrightarrow> b \<notin> set (Q t) \<Longrightarrow> \<not> live_block L (heap s) b"
      "\<And>b. live_block L (heap s) b \<Longrightarrow> b \<in> set ns \<or> b \<notin> set (Q t) \<Longrightarrow> live_block L (heap s') b"
    and procs: "\<And>r. proc_at s' r = (proc_at s r)\<lparr>messages := messages (proc_at s' r)\<rparr>"
    and glob: "first_process s' = first_process s" "num_proc s' = num_proc s"
  shows "system_ok L s' ps (Q(t := ns))"
proof -
  obtain us vs where ps: "ps = us @ t # vs" using split_list [OF t] by blast
  have tn: "t \<notin> set us" "t \<notin> set vs" using processes_okD(3) [OF system_okD(1) [OF ok]] ps by auto
  have fields: "p_next (proc_at s' r) = p_next (proc_at s r)" "pid (proc_at s' r) = pid (proc_at s r)"
    "stack (proc_at s' r) = stack (proc_at s r)" "user_stack (proc_at s' r) = user_stack (proc_at s r)" for r
    using procs [of r] by (metis process.select_convs process.update_convs(4) process.surjective)+
  have split: "all_owned s' (Q(t := ns)) ps = all_owned s Q us @ owned s (\<lambda>_. []) t @ ns @ all_owned s Q vs"
  proof -
    have "all_owned s' (Q(t := ns)) us = all_owned s Q us" "all_owned s' (Q(t := ns)) vs = all_owned s Q vs"
      by (rule owned_cong, use tn fields in auto)+
    then show ?thesis unfolding ps all_owned_append by (simp add: owned_def fields)
  qed
  have split0: "all_owned s Q ps = all_owned s Q us @ owned s (\<lambda>_. []) t @ Q t @ all_owned s Q vs"
    unfolding ps all_owned_append by (simp add: owned_def)
  let ?rest = "set (all_owned s Q us) \<union> set (owned s (\<lambda>_. []) t) \<union> set (all_owned s Q vs)"
  have d: "distinct (all_owned s Q ps)" "\<And>b. b \<in> set (all_owned s Q ps) \<Longrightarrow> live_block L (heap s) b"
    using system_okD(3,4) [OF ok] by auto
  have rest: "b \<notin> set (Q t)" "live_block L (heap s) b" if "b \<in> ?rest" for b
    using d that unfolding split0 by auto
  have ns: "set ns \<inter> ?rest = {}" using live(1) rest by blast
  have "distinct (all_owned s' (Q(t := ns)) ps)"
    using d(1) ns queue_okD(3) [OF q(1)] unfolding split split0 by auto
  moreover have "live_block L (heap s') b" if "b \<in> set (all_owned s' (Q(t := ns)) ps)" for b
    using that rest live(2) queue_okD(4) [OF q(1)] unfolding split by auto
  moreover have "processes_ok L s' ps"
    unfolding processes_ok_def
  proof (intro conjI ballI)
    note okD = processes_okD [OF system_okD(1) [OF ok]]
    show "heap_ok L (heap s')" by (rule queue_okD(1) [OF q(1)])
    show "plist s' (first_process s') ps"
      using okD(2) glob by (subst plist_cong [where s = s]) (auto simp: fields)
    show "distinct ps" "distinct (map (\<lambda>p. pid (proc_at s' p)) ps)" using okD(3,5) by (simp_all add: fields)
    show "pid (proc_at s' p) < num_proc s'" if "p \<in> set ps" for p using okD(6) [OF that] by (simp add: fields glob)
    show "live_block L (heap s') p" if "p \<in> set ps" for p
    proof -
      have "p \<in> ?rest" using that ps by (auto simp: all_owned_def owned_def)
      then show ?thesis using rest live(2) by blast
    qed
  qed
  ultimately show ?thesis using q by (auto simp: system_ok_def)
qed

text \<open>Sending, receiving and killing.\<close>

lemma ksend_message_cases:
  assumes "ksend_message L from to msg s = Inr (r, s')"
  obtains (refused) "s' = s" "r = MESSAGE_ERR_SEND" "msg = 0 \<or> from = 0 \<or> to = 0"
  | (called) new h where "msg \<noteq> 0" "from \<noteq> 0" "to \<noteq> 0" "kmalloc L sizeof_MESSAGE_NODE (heap s) = Inr (new, h)"
  using assms
  by (auto simp: ksend_message_def Let_def k_malloc_def kernel_simps upd_msg_def split: if_splits)

lemma system_ok_send:
  assumes ok: "system_ok L s ps Q" and ids: "to = 0 \<or> to \<in> set ps"
    and buf: "msg = 0 \<or> buffer L (heap s) msg" and run: "ksend_message L from to msg s = Inr (r, s')"
  shows "\<exists>Q'. system_ok L s' ps Q'"
  using run
proof (cases rule: ksend_message_cases)
  case (called new h)
  then have to: "to \<in> set ps" and out: "buffer L (heap s) msg" using ids buf by auto
  note q = system_okD(2) [OF ok to]
  note fresh = kmalloc_fresh [OF system_okD(5) [OF ok] called(4)]
  have "msg \<notin> set (Q to)" using buffer_not_queued [OF out q] .
  moreover have "msg \<noteq> new" using buffer_not_new [OF out system_okD(5) [OF ok] _ called(4)] by (simp add: request_ok_def)
  ultimately have msg: "msg \<notin> set (Q to)" "msg \<noteq> new" by simp_all
  from ksend_message_eq [OF q called fresh(2) msg(2)] run have s': "s' = sent from to msg new h (Q to) s" by simp
  from ksend_message_effect [OF q called msg] run
  have eff: "queue_ok L s' to (Q to @ [new])"
    "\<And>p ms. p \<noteq> to \<Longrightarrow> queue_ok L s p ms \<Longrightarrow> set ms \<inter> set (Q to) = {} \<Longrightarrow> msg \<notin> set ms \<Longrightarrow> queue_ok L s' p ms"
    "\<And>r. proc_at s' r = (proc_at s r)\<lparr>messages := messages (proc_at s' r)\<rparr>" by auto
  have "system_ok L s' ps (Q(to := Q to @ [new]))"
  proof (rule system_ok_queue [OF ok to eff(1)])
    show "queue_ok L s' p (Q p)" if "p \<in> set ps" "p \<noteq> to" for p
      using that eff(2) system_okD(2) [OF ok that(1)] queues_apart [OF ok that(1) to that(2)]
        buffer_not_queued [OF out] by blast
    show "live_block L (heap s') b" if "live_block L (heap s) b" for b
      using that fresh(4) by (simp add: s' sent_def Let_def)
    show "proc_at s' r = (proc_at s r)\<lparr>messages := messages (proc_at s' r)\<rparr>" for r by (rule eff(3))
  qed (use fresh(3) in \<open>auto simp: s' sent_def Let_def\<close>)
  then show ?thesis by blast
qed (use ok in blast)

lemma system_ok_receive:
  assumes ok: "system_ok L s ps Q" and p: "p \<in> set ps"
    and buf: "msg = 0 \<or> buffer L (heap s) msg" and run: "kreceive_message L p msg who s = Inr (r, s')"
  shows "\<exists>Q'. system_ok L s' ps Q'"
proof -
  note q = system_okD(2) [OF ok p]
  have p0: "p \<noteq> 0" using plist_nonzero [OF processes_okD(2) [OF system_okD(1) [OF ok]] p] .
  from kreceive_message_returned [OF q p0 run] show ?thesis
  proof (elim disjE conjE exE)
    fix us n vs
    assume r0: "r = MESSAGE_RECEIVED" and ns: "Q p = us @ n # vs" and rec: "received L s p msg us n vs s'"
    have buf': "msg \<noteq> 0" using run r0 by (auto simp: kreceive_message_def)
    then have out: "buffer L (heap s) msg" using buf by simp
    note r = rec [unfolded received_def]
    have "system_ok L s' ps (Q(p := us @ vs))"
    proof (rule system_ok_queue [OF ok p])
      show "queue_ok L s' p (us @ vs)" using r by blast
      show "queue_ok L s' q (Q q)" if "q \<in> set ps" "q \<noteq> p" for q
        using that r system_okD(2) [OF ok that(1)] queues_apart [OF ok that(1) p that(2)] ns
          buffer_not_queued [OF out] by metis
      show "live_block L (heap s') b" if "live_block L (heap s) b" "b \<in> set (us @ vs) \<or> b \<notin> set (Q p)" for b
      proof -
        have "b \<noteq> n" using that(2) ns queue_okD(3) [OF q] by auto
        then show ?thesis using r that(1) by blast
      qed
      show "proc_at s' q = (proc_at s q)\<lparr>messages := messages (proc_at s' q)\<rparr>" for q using r by blast
    qed (use ns kreceive_message_globals [OF run] in \<open>auto simp: same_globals_def\<close>)
    then show ?thesis by blast
  qed (use ok in blast)
qed

text \<open>The three blocks of one process are live and apart.\<close>

lemma owned_blocks:
  assumes ok: "system_ok L s ps Q" and p: "p \<in> set ps"
  defines "stk \<equiv> stack (proc_at s p)" and "ustk \<equiv> user_stack (proc_at s p)"
  shows "live_block L (heap s) p" "live_block L (heap s) stk" "ustk = 0 \<or> live_block L (heap s) ustk"
    "p \<noteq> stk" "p \<noteq> ustk" "stk \<noteq> ustk"
proof -
  have own: "distinct (owned s Q p)" "\<And>b. b \<in> set (owned s Q p) \<Longrightarrow> live_block L (heap s) b"
    using system_okD(3,4) [OF ok] p owned_in unfolding all_owned_def by (auto simp: distinct_concat_iff)
  show live: "live_block L (heap s) p" "live_block L (heap s) stk" by (rule own(2), simp add: owned_def stk_def)+
  show "ustk = 0 \<or> live_block L (heap s) ustk"
    using own(2) [of ustk] by (cases "ustk = 0") (simp_all add: owned_def ustk_def)
  have "p \<noteq> 0" "stk \<noteq> 0" using live live_zero by metis+
  with own(1) show "p \<noteq> stk" "p \<noteq> ustk" "stk \<noteq> ustk"
    by (auto simp: owned_def stk_def ustk_def split: if_splits)
qed

lemma system_ok_kill:
  assumes ok: "system_ok L s ps Q" and p: "p \<in> set ps" and run: "KillProcess L p s = Inr s'"
  shows "\<exists>ps'. system_ok L s' ps' Q \<and> set ps' = set ps - {p}"
proof -
  obtain us vs where ps: "ps = us @ p # vs" using split_list [OF p] by blast
  note procs = system_okD(1) [OF ok]
  have okp: "processes_ok L s (us @ p # vs)" using procs ps by simp
  from run obtain v where d: "destroy_context L (p_context (proc_at s p)) (vm s) = Inr v"
    and fr: "free_process L p (bypassed us p v s) = Inr s'"
    unfolding KillProcess_eq [OF okp] by (auto simp: kernel_simps)
  let ?s1 = "bypassed us p v s" and ?stk = "stack (proc_at s p)" and ?ustk = "user_stack (proc_at s p)"
  note blocks = owned_blocks [OF ok p]
  then have live: "live_block L (heap ?s1) p" "live_block L (heap ?s1) ?stk"
    "?ustk = 0 \<or> live_block L (heap ?s1) ?ustk" and apart: "p \<noteq> ?stk" "p \<noteq> ?ustk" "?stk \<noteq> ?ustk" by simp_all
  from free_process_returned [OF _ _ _ live apart fr] system_okD(5) [OF ok] obtain h where
    h: "s' = ?s1\<lparr>heap := h\<rparr>" "heap_ok L h"
      "\<And>b. live_block L h b \<longleftrightarrow> b \<notin> {p, ?stk, ?ustk} \<and> live_block L (heap s) b" by auto
  have split: "all_owned s Q ps = all_owned s Q us @ owned s Q p @ all_owned s Q vs"
    unfolding ps all_owned_append ..
  have same: "all_owned s' Q (us @ vs) = all_owned s Q us @ all_owned s Q vs"
    using owned_cong [of "us @ vs" s' s Q Q] h(1) by (simp add: all_owned_def)
  have kept: "live_block L h b" if "b \<in> set (all_owned s Q us @ all_owned s Q vs)" for b
  proof -
    have "b \<notin> set (owned s Q p)" "live_block L (heap s) b"
      using that system_okD(3,4) [OF ok] unfolding split by auto
    then have "b \<noteq> p" "b \<noteq> ?stk" "?ustk \<noteq> 0 \<Longrightarrow> b \<noteq> ?ustk" by (simp_all add: owned_def)
    moreover have "?ustk = 0 \<Longrightarrow> b \<noteq> ?ustk" using \<open>live_block L (heap s) b\<close> by auto
    ultimately show ?thesis unfolding h(3) using \<open>live_block L (heap s) b\<close> by blast
  qed
  have qs: "queue_ok L s' q (Q q)" if q: "q \<in> set (us @ vs)" for q
  proof -
    have "seg s' b a ns c \<longleftrightarrow> seg s b a ns c" for b a ns c by (rule seg_cong) (simp add: h(1))
    moreover have "\<forall>b \<in> set (Q q). live_block L h b"
    proof
      fix b assume "b \<in> set (Q q)"
      then have "b \<in> set (all_owned s Q us @ all_owned s Q vs)"
        using q owned_at(1) [of q us b Q s] owned_at(1) [of q vs b Q s] by auto
      then show "live_block L h b" by (rule kept)
    qed
    moreover have "queue_ok L s q (Q q)" using system_okD(2) [OF ok, of q] q ps by auto
    ultimately show ?thesis using h(2) by (simp add: queue_ok_def h(1))
  qed
  have "processes_ok L s' (us @ vs)"
    unfolding h(1)
  proof (rule processes_bypassed [OF okp h(2)])
    fix q assume "q \<in> set (us @ vs)"
    then have "q \<in> set (all_owned s Q us @ all_owned s Q vs)" using owned_at(2) by fastforce
    then show "live_block L h q" by (rule kept)
  qed
  moreover have "distinct (all_owned s Q us @ all_owned s Q vs)"
    using system_okD(3) [OF ok] unfolding split by auto
  ultimately have "system_ok L s' (us @ vs) Q"
    using qs kept unfolding system_ok_def same by (simp add: h(1))
  moreover have "set (us @ vs) = set ps - {p}" using processes_okD(3) [OF okp] ps by auto
  ultimately show ?thesis by blast
qed

text \<open>Loading a segment takes one block and gives it back.\<close>

lemma on_vm_returned: "on_vm f s = Inr s' \<Longrightarrow> \<exists>v. f (vm s) = Inr v \<and> s' = s\<lparr>vm := v\<rparr>"
  by (auto simp: on_vm_def kernel_simps)

lemma load_segment_run:
  assumes run: "load_segment L addr ctx program s = Inr s'"
  obtains (skipped) "s' = s"
  | (loaded) fsize buf h1 h2 v where "read32 (program + 16) (vm s) = Inr fsize"
      "kmalloc L fsize (heap s) = Inr (buf, h1)" "kfree L buf h1 = Inr h2" "s' = s\<lparr>vm := v, heap := h2\<rparr>"
proof (cases "s' = s")
  case False
  obtain vaddr offset ty where "read32 (program + 8) (vm s) = Inr vaddr" "read32 (program + 4) (vm s) = Inr offset"
    "read32 program (vm s) = Inr ty" "\<not> (ty \<noteq> 1 \<or> vaddr = 0 \<or> addr + offset = 0)"
    using run False by (auto simp: load_segment_def Let_def bindE_Inr_iff split: if_splits)
  with run obtain fsize where fsize: "read32 (program + 16) (vm s) = Inr fsize"
    and "bindE (k_malloc L fsize s) (\<lambda>(buf, s1).
       bindE (read32 (program + 20) (vm s1)) (\<lambda>msize.
       bindE (on_vm (memcpy buf (addr + offset) fsize) s1) (\<lambda>s2.
       bindE (on_vm (vmm_alloc L ctx vaddr msize) s2) (\<lambda>s3.
       bindE (on_vm (activate_memory_context ctx) s3) (\<lambda>s4.
       bindE (on_vm (memset vaddr 0 msize) s4) (\<lambda>s5.
       bindE (on_vm (memcpy vaddr buf fsize) s5) (\<lambda>s6.
       bindE (on_vm (activate_memory_context (current_context (vm s3))) s6) (k_free L buf)))))))) = Inr s'"
    by (auto simp: load_segment_def Let_def bindE_Inr_iff)
  then obtain buf s1 s7 v where "k_malloc L fsize s = Inr (buf, s1)" and s7: "s7 = s1\<lparr>vm := v\<rparr>"
    and "k_free L buf s7 = Inr s'"
    by (auto simp: bindE_Inr_iff dest!: on_vm_returned)
  then show ?thesis using loaded [OF fsize] by (auto simp: k_malloc_def k_free_def bindE_Inr_iff)
qed (rule skipped)

lemma load_segment_heap:
  assumes ok: "heap_ok L (heap s)" and run: "load_segment L addr ctx program s = Inr s'"
    and req: "\<And>n. read32 (program + 16) (vm s) = Inr n \<Longrightarrow> request_ok n"
  shows "\<exists>h v. s' = s\<lparr>vm := v, heap := h\<rparr> \<and> heap_ok L h \<and> (\<forall>b. live_block L h b \<longleftrightarrow> live_block L (heap s) b)"
  using run
proof (cases rule: load_segment_run)
  case skipped
  then show ?thesis using ok by (intro exI [of _ "heap s"] exI [of _ "vm s"]) simp
next
  case (loaded fsize buf h1 h2 v)
  note l1 = kmalloc_live [OF ok req [OF loaded(1)] loaded(2)]
  from kfree_returned [OF l1(1) _ loaded(3)] l1 have "heap_ok L h2" "\<And>b. live_block L h2 b \<longleftrightarrow> live_block L (heap s) b"
    by auto
  then show ?thesis using loaded(4) by blast
qed

lemma system_ok_heap:
  assumes ok: "system_ok L s ps Q" and "heap_ok L h" "\<And>b. live_block L (heap s) b \<Longrightarrow> live_block L h b"
  shows "system_ok L (s\<lparr>vm := v, heap := h\<rparr>) ps Q"
proof -
  let ?s = "s\<lparr>vm := v, heap := h\<rparr>"
  have "seg ?s b a ns c \<longleftrightarrow> seg s b a ns c" for b a ns c by (rule seg_cong) simp
  then have "queue_ok L ?s p (Q p)" if "p \<in> set ps" for p
    using system_okD(2) [OF ok that] assms(2,3) by (auto simp: queue_ok_def)
  moreover have "plist ?s a ps \<longleftrightarrow> plist s a ps" for a by (rule plist_cong) simp
  then have "processes_ok L ?s ps" using system_okD(1) [OF ok] assms(2,3) by (auto simp: processes_ok_def)
  moreover have "all_owned ?s Q ps = all_owned s Q ps" by (rule owned_cong) simp
  ultimately show ?thesis using ok assms(3) by (simp add: system_ok_def)
qed

section \<open>The steps of the kernel\<close>

text \<open>
  What the kernel does to its state between two observations: the environment (programs, page tables, the
  clock) changes memory outside the kernel's structures, and memory where no block in use starts may hold
  anything; a process goes to sleep or its break moves; and the operations of the process and message
  modules run, with the arguments the dispatcher gives them. \<open>CreateUserProcess\<close> never sets
  \<open>messages.first\<close>: its step asks that the block of the new structure held a null there.
\<close>

inductive kernel_step :: "layout \<Rightarrow> kernel \<Rightarrow> kernel \<Rightarrow> bool" for L where
  environment: "kernel_step L s (s\<lparr>vm := v, cpu_at := c, msg_at := m, ticks := t\<rparr>)"
| sleep: "kernel_step L s (upd_proc p (\<lambda>q. q\<lparr>sbrk_state := b, sleep_timer := t, status := st\<rparr>) s)"
| schedule: "Schedule old s = Inr (frame, s') \<Longrightarrow> kernel_step L s s'"
| send: "GetProcessByPid k s = Inr to \<Longrightarrow> msg = 0 \<or> buffer L (heap s) msg \<Longrightarrow>
    ksend_message L (current_process s) to msg s = Inr (r, s') \<Longrightarrow> kernel_step L s s'"
| receive: "msg = 0 \<or> buffer L (heap s) msg \<Longrightarrow>
    kreceive_message L (current_process s) msg who s = Inr (r, s') \<Longrightarrow> kernel_step L s s'"
| memory: "(\<And>a. live_block L (heap s) a \<Longrightarrow> P a = proc_at s a \<and> n a = node_next s a \<and> q a = node_prev s a) \<Longrightarrow>
    kernel_step L s (s\<lparr>proc_at := P, node_next := n, node_prev := q\<rparr>)"
| create: "CreateUserProcess L e ctx s = Inr (p, s') \<Longrightarrow> num_proc s \<noteq> -1 \<Longrightarrow>
    ml_first (messages (proc_at s p)) = 0 \<Longrightarrow> kernel_step L s s'"
| kill: "current_process s \<noteq> idle_process s \<Longrightarrow> KillProcess L (current_process s) s = Inr s' \<Longrightarrow>
    kernel_step L s (s'\<lparr>current_process := 0\<rparr>)"
| segment: "load_segment L addr ctx program s = Inr s' \<Longrightarrow>
    (\<And>n. read32 (program + 16) (vm s) = Inr n \<Longrightarrow> request_ok n) \<Longrightarrow> kernel_step L s s'"

text \<open>
  The invariant of the running kernel: the structure, the idle process among the processes, and a current
  process that is one of them or none.
\<close>

definition kernel_inv :: "layout \<Rightarrow> kernel \<Rightarrow> u32 list \<Rightarrow> (u32 \<Rightarrow> u32 list) \<Rightarrow> bool" where
  "kernel_inv L s ps Q \<longleftrightarrow> system_ok L s ps Q \<and> idle_process s \<in> set ps
     \<and> (current_process s = 0 \<or> current_process s \<in> set ps)"

lemma set_candidates: "set (candidates c ps) \<subseteq> set ps"
proof -
  have "x \<in> set (tl xs) \<Longrightarrow> x \<in> set xs" for x :: u32 and xs by (cases xs) auto
  then have "set (tl (dropWhile (\<lambda>p. p \<noteq> c) ps)) \<subseteq> set ps" using set_dropWhileD by fastforce
  then show ?thesis by (cases "tl (dropWhile (\<lambda>p. p \<noteq> c) ps)") (auto simp: candidates_def)
qed

lemma Schedule_current:
  assumes ok: "processes_ok L s ps" and idle: "idle_process s \<in> set ps"
    and cur: "current_process s = 0 \<or> current_process s \<in> set ps"
    and run: "Schedule old s = Inr (frame, s')"
  shows "current_process s' \<in> set ps"
proof -
  let ?c = "current_process s"
  define s1 where "s1 = (if ?c \<noteq> 0 then upd_proc ?c (\<lambda>p. p\<lparr>p_state := old\<rparr>) s else s)"
  from run obtain s2 where s2: "schedule_next s1 = Inr s2" "current_process s' = current_process s2"
    unfolding s1_def by (auto simp: Schedule_def Let_def kernel_simps split: if_splits)
  have s1: "first_process s1 = first_process s" "idle_process s1 = idle_process s" "current_process s1 = ?c"
    "p_next (proc_at s1 q) = p_next (proc_at s q)" for q
    by (simp_all add: s1_def upd_proc_def)
  have pl: "plist s1 (first_process s1) ps"
    using processes_okD(2) [OF ok] by (subst plist_cong [where s = s]) (auto simp: s1)
  show ?thesis
  proof (cases "?c = 0")
    case True
    have "ps \<noteq> []" using idle by auto
    then have "first_process s \<in> set ps" using plist_head [OF processes_okD(2) [OF ok]] by simp
    then show ?thesis using s2 True by (auto simp: schedule_next_def s1)
  next
    case False
    then have c: "?c \<in> set ps" using cur by simp
    note cand = candidates_plist [OF pl c]
    note set_candidates [of ?c ps]
    moreover have "s2 = wake s1 (candidates ?c ps) (s1\<lparr>current_process := scheduled s1 (candidates ?c ps)\<rparr>)"
      using s2(1) schedule_loop_find [OF cand, unfolded s1] False by (simp add: schedule_next_def Let_def s1 cong: if_cong)
    then have "current_process s2 = scheduled s1 (candidates ?c ps)" by simp
    moreover have "scheduled s1 qs \<in> insert (idle_process s1) (set qs)" for qs
      by (auto simp: scheduled_def find_Some_iff split: option.split)
    ultimately show ?thesis using s2(2) idle s1(2) by (metis insert_iff subsetD)
  qed
qed

lemma current_after:
  assumes "kernel_inv L s ps Q" "GetProcessByPid k s = Inr to"
  shows "to = 0 \<or> to \<in> set ps"
proof -
  have "GetProcessByPid k s = Inr (case find (\<lambda>p. pid (proc_at s p) = k) ps of None \<Rightarrow> 0 | Some p \<Rightarrow> p)"
    using pid_loop_find [OF processes_okD(2), of L s ps k] assms(1)
    by (simp add: GetProcessByPid_def kernel_inv_def system_ok_def)
  with assms(2) show ?thesis by (auto simp: find_Some_iff split: option.splits)
qed

lemma KillProcess_globals:
  assumes "KillProcess L p s = Inr s'"
  shows "idle_process s' = idle_process s"
  using assms
  by (auto simp: KillProcess_def k_destroy_context_def free_process_def k_free_def upd_proc_def Let_def kernel_simps
      split: if_splits)

lemma kernel_step_inv:
  assumes "kernel_step L s s'" "kernel_inv L s ps Q"
  shows "\<exists>ps' Q'. kernel_inv L s' ps' Q'"
  using assms
proof (induction rule: kernel_step.induct)
  case (environment s t m c v)
  have "same_structure s (s\<lparr>vm := v, cpu_at := c, msg_at := m, ticks := t\<rparr>)" by (simp add: same_structure_def)
  then show ?case using environment system_ok_same by (fastforce simp: kernel_inv_def)
next
  case (sleep s p st t b)
  have "same_structure s (upd_proc p (\<lambda>q. q\<lparr>sbrk_state := b, sleep_timer := t, status := st\<rparr>) s)"
    by (simp add: same_structure_def upd_proc_def)
  moreover have "current_process (upd_proc p f s) = current_process s" for f by (simp add: upd_proc_def)
  ultimately show ?case using sleep system_ok_same unfolding kernel_inv_def same_structure_def by metis
next
  case (schedule old s frame s')
  note same = Schedule_same [OF schedule.hyps]
  have "processes_ok L s ps" "idle_process s \<in> set ps" "current_process s = 0 \<or> current_process s \<in> set ps"
    using schedule.prems by (auto simp: kernel_inv_def system_ok_def)
  then have "current_process s' \<in> set ps" by (rule Schedule_current [OF _ _ _ schedule.hyps])
  then show ?case
    using schedule.prems system_ok_same [OF _ same] same unfolding kernel_inv_def same_structure_def by metis
next
  case (send k s to msg r s')
  from system_ok_send [OF _ current_after [OF send.prems send.hyps(1)] send.hyps(2,3)] send.prems
  obtain Q' where "system_ok L s' ps Q'" by (auto simp: kernel_inv_def)
  then show ?case using send.prems ksend_message_globals [OF send.hyps(3)]
    by (auto simp: kernel_inv_def same_globals_def)
next
  case (receive msg s who r s')
  show ?case
  proof (cases "current_process s = 0")
    case True
    then have "s' = s" using receive.hyps(2) by (auto simp: kreceive_message_def kernel_simps split: if_splits)
    then show ?thesis using receive.prems by blast
  next
    case False
    then obtain Q' where "system_ok L s' ps Q'"
      using system_ok_receive [OF _ _ receive.hyps] receive.prems by (auto simp: kernel_inv_def)
    then show ?thesis using receive.prems kreceive_message_globals [OF receive.hyps(2)]
      by (auto simp: kernel_inv_def same_globals_def)
  qed
next
  case (memory s P n q)
  then have "system_ok L (s\<lparr>proc_at := P, node_next := n, node_prev := q\<rparr>) ps Q"
    by (intro system_ok_memory) (auto simp: kernel_inv_def)
  then show ?case using memory.prems by (auto simp: kernel_inv_def)
next
  case (create e ctx s p s')
  have keep: "idle_process s' = idle_process s" "current_process s' = current_process s"
    using create.hyps(1) by (auto elim!: CreateUserProcess_run)
  have "system_ok L s' (p # ps) (Q(p := []))"
    using system_ok_CreateUserProcess [OF _ create.hyps(2,1,3)] create.prems by (simp add: kernel_inv_def)
  then show ?case using create.prems keep by (auto simp: kernel_inv_def)
next
  case (kill s s')
  have p: "current_process s \<in> set ps"
  proof -
    have "current_process s \<noteq> 0" using kill.hyps(2) by (auto simp: KillProcess_def kernel_simps)
    then show ?thesis using kill.prems by (simp add: kernel_inv_def)
  qed
  from system_ok_kill [OF _ p kill.hyps(2)] kill.prems obtain ps' where
    ps': "system_ok L s' ps' Q" "set ps' = set ps - {current_process s}" by (auto simp: kernel_inv_def)
  have "same_structure s' (s'\<lparr>current_process := 0\<rparr>)" by (simp add: same_structure_def)
  from system_ok_same [OF ps'(1) this] ps'(2) kill.prems kill.hyps(1) KillProcess_globals [OF kill.hyps(2)]
  show ?case by (auto simp: kernel_inv_def)
next
  case (segment addr ctx program s s')
  from load_segment_heap [OF _ segment.hyps] segment.prems obtain h v where
    h: "s' = s\<lparr>vm := v, heap := h\<rparr>" "heap_ok L h" "\<And>b. live_block L h b \<longleftrightarrow> live_block L (heap s) b"
    by (auto simp: kernel_inv_def dest: system_okD(5))
  have "system_ok L s' ps Q" unfolding h(1)
    by (rule system_ok_heap) (use segment.prems h in \<open>auto simp: kernel_inv_def\<close>)
  then show ?case using segment.prems by (auto simp: kernel_inv_def h(1))
qed

lemma kernel_steps_inv:
  assumes "(kernel_step L)\<^sup>*\<^sup>* s s'" "kernel_inv L s ps Q"
  shows "\<exists>ps' Q'. kernel_inv L s' ps' Q'"
  using assms
proof (induction rule: rtranclp_induct)
  case (step t u)
  then show ?case using kernel_step_inv by blast
qed blast

section \<open>What can fail\<close>

abbreviation heap_end_error :: kerror where
  "heap_end_error \<equiv> Assert_Failed ''(uintptr_t) addr < HEAP_END''"

lemma kfree_live_fails:
  assumes "heap_ok L h" "live_block L h b" "kfree L b h = Inl e"
  shows "e = Assert_Failed ''(uintptr_t) addr < HEAP_END''"
proof (cases "b < HEAP_END L")
  case True
  then show ?thesis using kheap.mfree_live [OF assms(1,2)] assms(3) by auto
next
  case False
  have "b \<noteq> 0" using assms(2) by auto
  with False assms(3) show ?thesis by (simp add: kfree_def)
qed

lemma ksend_message_fails:
  assumes q: "queue_ok L s to ns" and buf: "buffer L (heap s) msg" and ids: "from \<noteq> 0" "to \<noteq> 0"
    and run: "ksend_message L from to msg s = Inl e"
  shows "kmalloc L sizeof_MESSAGE_NODE (heap s) = Inl e"
proof (cases "kmalloc L sizeof_MESSAGE_NODE (heap s)")
  case (Inl e')
  show ?thesis
  proof (cases "msg = 0")
    case False
    then show ?thesis using Inl run ids by (simp add: ksend_message_def k_malloc_def Let_def upd_msg_def)
  qed (use run ids in \<open>simp add: ksend_message_def derefE_def\<close>)
next
  case (Inr x)
  then obtain new h where k: "kmalloc L sizeof_MESSAGE_NODE (heap s) = Inr (new, h)" by (cases x) simp
  note fresh = kmalloc_fresh [OF queue_okD(1) [OF q] k]
  have "msg \<noteq> new" using buffer_not_new [OF buf queue_okD(1) [OF q] _ k] by (simp add: request_ok_def)
  then show ?thesis using run ids ksend_message_eq [OF q _ ids k fresh(2)]
    by (cases "msg = 0") (simp_all add: ksend_message_def derefE_def)
qed

lemma take_message_fails:
  assumes q: "queue_ok L s p ns" and n: "n \<in> set ns" and heap: "heap s1 = heap s"
    and run: "take_message L p msg n s1 = Inl e"
  shows "e = heap_end_error"
proof -
  have "heap (copy_message msg n s1) = heap s" using heap by (simp add: copy_message_def Let_def upd_msg_def)
  then have "kfree L n (heap s) = Inl e"
    using run by (auto simp: take_message_def k_free_def bindE_Inl_iff)
  then show ?thesis using kfree_live_fails queue_okD(1,4) [OF q] n by blast
qed

lemma kreceive_message_fails:
  assumes q: "queue_ok L s p ns" and p0: "p \<noteq> 0" and run: "kreceive_message L p msg who s = Inl e"
  shows "e = heap_end_error \<or> e = Null_Deref \<and> who \<noteq> MESSAGE_ANY \<and> (\<exists>n. ns = [n] \<and> sender (msg_at s n) = who)"
proof -
  have msg: "msg \<noteq> 0" using run by (auto simp: kreceive_message_def)
  show ?thesis
  proof (cases "who = MESSAGE_ANY")
    case True
    with run kreceive_any_eq [OF q msg p0] obtain n vs where ns: "ns = n # vs"
      and tk: "take_message L p msg n (unlink_first p n s) = Inl e" by (auto split: list.splits)
    have "heap (unlink_first p n s) = heap s" by (simp add: unlink_first_def Let_def upd_defs)
    from take_message_fails [OF q _ this tk] ns show ?thesis by simp
  next
    case False
    with run kreceive_from_eq [OF q msg p0] obtain n where n: "find (\<lambda>n. sender (msg_at s n) = who) ns = Some n"
      and fail: "bindE (unlink_found p n s) (take_message L p msg n) = Inl e" by (auto split: option.splits)
    from n obtain us vs where ns: "ns = us @ n # vs" "sender (msg_at s n) = who"
      by (auto simp: find_Some_iff) (metis id_take_nth_drop)
    show ?thesis
    proof (cases "us @ vs = []")
      case True
      with ns fail unlink_found_single [of L s p n] q False show ?thesis by auto
    next
      case more: False
      obtain s1 where s1: "unlink_found p n s = Inr s1" "unlinked s p us n vs s1"
        using unlink_found_unlinked [OF q [unfolded ns(1)] more] by blast
      then have "heap s1 = heap s" by (simp add: unlinked_def)
      moreover have "take_message L p msg n s1 = Inl e" "n \<in> set ns" using fail s1(1) ns(1) by simp_all
      ultimately show ?thesis using take_message_fails [OF q] by blast
    qed
  qed
qed

lemma KillProcess_fails:
  assumes ok: "system_ok L s ps Q" and p: "p \<in> set ps" and run: "KillProcess L p s = Inl e"
  shows "e = heap_end_error \<or> destroy_context L (p_context (proc_at s p)) (vm s) = Inl e"
proof -
  obtain us vs where ps: "ps = us @ p # vs" using split_list [OF p] by blast
  have okp: "processes_ok L s (us @ p # vs)" using system_okD(1) [OF ok] ps by simp
  show ?thesis
  proof (cases "destroy_context L (p_context (proc_at s p)) (vm s)")
    case (Inl e')
    then show ?thesis using run unfolding KillProcess_eq [OF okp] by simp
  next
    case (Inr v)
    with run have fr: "free_process L p (bypassed us p v s) = Inl e" unfolding KillProcess_eq [OF okp] by simp
    let ?stk = "stack (proc_at s p)" and ?ustk = "user_stack (proc_at s p)"
    note blocks = owned_blocks [OF ok p]
    have fail: "e' = heap_end_error" if "heap_ok L h" "b \<noteq> 0 \<Longrightarrow> live_block L h b" "kfree L b h = Inl e'" for b h e'
      using that kfree_live_fails by (cases "b = 0") (auto simp: kfree_def)
    consider "kfree L ?stk (heap s) = Inl e"
      | h1 where "kfree L ?stk (heap s) = Inr h1" "kfree L ?ustk h1 = Inl e"
      | h1 h2 where "kfree L ?stk (heap s) = Inr h1" "kfree L ?ustk h1 = Inr h2" "kfree L p h2 = Inl e"
      using fr by (auto simp: free_process_def k_free_def bindE_Inl_iff bindE_Inr_iff)
    then show ?thesis
    proof cases
      case 1
      then show ?thesis using fail [OF system_okD(5) [OF ok]] blocks(2) by blast
    next
      case 2
      note l1 = kfree_returned [OF system_okD(5) [OF ok] _ 2(1)]
      have "heap_ok L h1" "\<And>b. live_block L h1 b \<longleftrightarrow> b \<noteq> ?stk \<and> live_block L (heap s) b" using l1 blocks(2) by auto
      then show ?thesis using fail [OF _ _ 2(2)] blocks(3,6) by metis
    next
      case 3
      note l1 = kfree_returned [OF system_okD(5) [OF ok] _ 3(1)]
      have h1: "heap_ok L h1" "\<And>b. live_block L h1 b \<longleftrightarrow> b \<noteq> ?stk \<and> live_block L (heap s) b" using l1 blocks(2) by auto
      have u: "?ustk = 0 \<or> live_block L h1 ?ustk" using h1(2) blocks(3,6) by metis
      have "heap_ok L h2" "live_block L h2 p"
        using kfree_returned [OF h1(1) u 3(2)] h1(2) blocks(1,4,5) by (cases "?ustk = 0"; auto)+
      then show ?thesis using fail [OF _ _ 3(3)] by blast
    qed
  qed
qed

text \<open>
  C14: In every state the kernel's invariant allows, the operations fail only in these ways. Looking up a PID
  never fails. Sending to a process of the list fails only when the heap has no room for the node, with the
  allocator's own error. Receiving fails only by the assertion of \<open>kfree\<close> for a block at the very end of
  the heap, or, when a sender is named, by the null pointer the code follows for a queue of one message.
  Killing fails only by that assertion or because the page directory cannot be destroyed.
\<close>

theorem kernel_inv_failures:
  assumes inv: "kernel_inv L s ps Q" and p: "p \<in> set ps"
  shows "(\<exists>q. GetProcessByPid k s = Inr q)
    \<and> (\<forall>from msg e. from \<noteq> 0 \<and> buffer L (heap s) msg \<and> ksend_message L from p msg s = Inl e \<longrightarrow>
         kmalloc L sizeof_MESSAGE_NODE (heap s) = Inl e)
    \<and> (\<forall>msg e. kreceive_message L p msg who s = Inl e \<longrightarrow>
         e = heap_end_error
         \<or> e = Null_Deref \<and> who \<noteq> MESSAGE_ANY \<and> (\<exists>n. Q p = [n] \<and> sender (msg_at s n) = who))
    \<and> (\<forall>e. KillProcess L p s = Inl e \<longrightarrow>
         e = heap_end_error \<or> destroy_context L (p_context (proc_at s p)) (vm s) = Inl e)"
proof (intro conjI allI impI)
  have ok: "system_ok L s ps Q" using inv by (simp add: kernel_inv_def)
  note q = system_okD(2) [OF ok p]
  have p0: "p \<noteq> 0" by (rule plist_nonzero [OF processes_okD(2) [OF system_okD(1) [OF ok]] p])
  show "\<exists>q. GetProcessByPid k s = Inr q"
    using pid_loop_find [OF processes_okD(2) [OF system_okD(1) [OF ok]], of k] by (simp add: GetProcessByPid_def)
  show "kmalloc L sizeof_MESSAGE_NODE (heap s) = Inl e"
    if "from \<noteq> 0 \<and> buffer L (heap s) msg \<and> ksend_message L from p msg s = Inl e" for "from" msg e
    using that ksend_message_fails [OF q _ _ p0] by blast
  show "e = heap_end_error \<or> e = Null_Deref \<and> who \<noteq> MESSAGE_ANY \<and> (\<exists>n. Q p = [n] \<and> sender (msg_at s n) = who)"
    if "kreceive_message L p msg who s = Inl e" for msg e
    by (rule kreceive_message_fails [OF q p0 that])
  show "e = heap_end_error \<or> destroy_context L (p_context (proc_at s p)) (vm s) = Inl e"
    if "KillProcess L p s = Inl e" for e
    by (rule KillProcess_fails [OF ok p that])
qed

end
