(* ===== verification/Execution.thy ===== *)
theory Execution
  imports System
begin

text \<open>
  Whole runs of the kernel. \<open>machine_step\<close> lets interrupts, exceptions and system calls reach
  \<open>int_handler\<close> in any order, with programs running in between. Each of them is shown to be a sequence of
  the kernel's steps of \<open>System\<close>, so the invariant that \<open>InitMultitasking\<close> establishes holds for ever;
  and \<open>InitMultitasking\<close> is shown to succeed on a fresh heap.
\<close>

section \<open>Sequences of steps\<close>

abbreviation kernel_steps :: "layout \<Rightarrow> kernel \<Rightarrow> kernel \<Rightarrow> bool" where
  "kernel_steps L \<equiv> (kernel_step L)\<^sup>*\<^sup>*"

lemma environment_step:
  assumes "s' = s\<lparr>vm := vm s', cpu_at := cpu_at s', msg_at := msg_at s', ticks := ticks s'\<rparr>"
  shows "kernel_steps L s s'"
  using kernel_step.environment [of L s "ticks s'" "msg_at s'" "cpu_at s'" "vm s'"] assms by (metis r_into_rtranclp)

lemma sleep_step:
  assumes "\<And>q. f q = q\<lparr>sbrk_state := sbrk_state (f q), sleep_timer := sleep_timer (f q), status := status (f q)\<rparr>"
  shows "kernel_steps L s (upd_proc p f s)"
proof -
  have "upd_proc p f s = upd_proc p (\<lambda>q. q\<lparr>sbrk_state := sbrk_state (f (proc_at s p)),
      sleep_timer := sleep_timer (f (proc_at s p)), status := status (f (proc_at s p))\<rparr>) s"
    using assms [of "proc_at s p"] by (simp add: upd_proc_def)
  then show ?thesis using kernel_step.sleep r_into_rtranclp by metis
qed

text \<open>
  Loading an image: every segment the loader reaches asks the heap for a size that does not wrap around.
\<close>

fun segments_ok :: "layout \<Rightarrow> u32 \<Rightarrow> u32 \<Rightarrow> nat \<Rightarrow> u32 \<Rightarrow> kernel \<Rightarrow> bool" where
  "segments_ok L addr ctx 0 program s \<longleftrightarrow> True"
| "segments_ok L addr ctx (Suc n) program s \<longleftrightarrow>
     (case read32 (program + 16) (vm s) of Inl _ \<Rightarrow> True | Inr fsize \<Rightarrow> request_ok fsize)
   \<and> (case load_segment L addr ctx program s of Inl _ \<Rightarrow> True
      | Inr s' \<Rightarrow> segments_ok L addr ctx n (program + 32) s')"

lemma load_segment_num_proc:
  "load_segment L addr ctx program s = Inr s' \<Longrightarrow> num_proc s' = num_proc s \<and> proc_at s' = proc_at s"
  by (erule load_segment_run) simp_all

lemma elf_loop_cases:
  assumes "elf_loop L addr ctx i program s = Some (Inr s')"
  shows "s' = s \<or> (\<exists>c s1. read16 (addr + 44) (vm s) = Inr c \<and> i < unat c
    \<and> load_segment L addr ctx program s = Inr s1 \<and> elf_loop L addr ctx (i + 1) (program + 32) s1 = Some (Inr s'))"
  using assms unfolding elf_loop.simps [of L addr ctx i program s]
  by (cases "read16 (addr + 44) (vm s)"; cases "load_segment L addr ctx program s") (simp_all split: if_splits)

lemma elf_loop_steps:
  assumes "elf_loop L addr ctx i program s = Some (Inr s')" "segments_ok L addr ctx (65536 - i) program s"
  shows "kernel_steps L s s' \<and> num_proc s' = num_proc s \<and> proc_at s' = proc_at s"
  using assms
proof (induction "65536 - i" arbitrary: i program s)
  case 0
  have "\<not> i < unat c" for c :: u16 using unsigned_less [of c, where 'a = nat] 0(1) by simp
  then show ?case using elf_loop_cases [OF 0(2)] by auto
next
  case (Suc n)
  have k: "65536 - i = Suc n" "65536 - (i + 1) = n" using Suc.hyps(2) by simp_all
  from elf_loop_cases [OF Suc.prems(1)] consider "s' = s" | s1 where "load_segment L addr ctx program s = Inr s1"
      "elf_loop L addr ctx (i + 1) (program + 32) s1 = Some (Inr s')" by auto
  then show ?case
  proof cases
    case 2
    have "segments_ok L addr ctx (65536 - (i + 1)) (program + 32) s1"
      using Suc.prems(2) 2(1) k by simp
    moreover have "kernel_step L s s1"
      by (rule kernel_step.segment [OF 2(1)]) (use Suc.prems(2) k in \<open>auto split: sum.splits\<close>)
    ultimately show ?thesis
      using Suc.hyps(1) [OF k(2) [symmetric] 2(2)] load_segment_num_proc [OF 2(1)]
      by (simp add: converse_rtranclp_into_rtranclp)
  qed simp
qed

lemma ParseElf_steps:
  assumes run: "ParseElf L addr ctx s = Inr (e, s')"
    and ok: "\<And>offset. read32 (addr + 28) (vm s) = Inr offset \<Longrightarrow> segments_ok L addr ctx 65536 (addr + offset) s"
  shows "kernel_steps L s s' \<and> num_proc s' = num_proc s \<and> proc_at s' = proc_at s"
proof -
  from run consider "s' = s" | offset where "read32 (addr + 28) (vm s) = Inr offset"
      "elf_loop L addr ctx 0 (addr + offset) s = Some (Inr s')"
    by (auto simp: ParseElf_def bindE_Inr_iff returned_Inr_iff split: if_splits)
  then show ?thesis
  proof cases
    case 2
    then show ?thesis using elf_loop_steps [OF 2(2)] ok by simp
  qed simp
qed

section \<open>System calls and interrupts\<close>

text \<open>
  What is assumed of the machine that an interrupt finds. \<open>well_behaved L m frame\<close>: the idle process, an endless
  loop around \<open>hlt\<close>, neither exits nor faults; the buffer of a message call lies outside the kernel's heap or
  inside a block of it; an image to be launched has segments whose sizes in the file can be rounded up in 32
  bits; fewer than \<open>2^32 - 1\<close> processes were created; and the block that the heap will hand out for the new
  process structure holds a null where \<open>messages.first\<close> comes to lie, because \<open>CreateUserProcess\<close> does not set
  it. All of it is a condition on the state before the interrupt.
\<close>

definition new_block_clear :: "layout \<Rightarrow> machine \<Rightarrow> u32 \<Rightarrow> bool" where
  "new_block_clear L m frame \<longleftrightarrow>
     (\<forall>ctx v e s1 p s2. CreateUsermodeContext L 0 (vm (kst m)) = Inr (ctx, v)
        \<and> ParseElf L (ebx (cpu_at (kst m) frame)) ctx ((kst m)\<lparr>vm := v\<rparr>) = Inr (e, s1)
        \<and> CreateUserProcess L e ctx s1 = Inr (p, s2) \<longrightarrow> ml_first (messages (proc_at (kst m) p)) = 0)"

definition well_behaved :: "layout \<Rightarrow> machine \<Rightarrow> u32 \<Rightarrow> bool" where
  "well_behaved L m frame \<longleftrightarrow>
     (let s = kst m; c = cpu_at s frame in
       (intr c < 32 \<or> intr c = 0x30 \<and> eax c = 2 \<longrightarrow> current_process s \<noteq> idle_process s)
     \<and> (intr c = 0x30 \<and> eax c \<in> {3, 4} \<longrightarrow> ebx c = 0 \<or> buffer L (heap s) (ebx c))
     \<and> (intr c = 0x30 \<and> eax c = 9 \<longrightarrow> num_proc s \<noteq> -1 \<and> new_block_clear L m frame
         \<and> (\<forall>ctx v offset. CreateUsermodeContext L 0 (vm s) = Inr (ctx, v) \<and> read32 (ebx c + 28) v = Inr offset \<longrightarrow>
              segments_ok L (ebx c) ctx 65536 (ebx c + offset) (s\<lparr>vm := v\<rparr>))))"

lemma on_kernel_Inr: "on_kernel f m = Inr (x, m') \<longleftrightarrow> (\<exists>s. f (kst m) = Inr (x, s) \<and> m' = m\<lparr>kst := s\<rparr>)"
  by (auto simp: on_kernel_def kernel_simps)

lemma kill_current_steps:
  assumes "KillCurrentProcess L s = Inr (f, s')" "current_process s \<noteq> idle_process s"
  shows "kernel_steps L s s'"
proof -
  from assms(1) obtain s1 where s1: "KillProcess L (current_process s) s = Inr s1"
      "Schedule 0 (s1\<lparr>current_process := 0\<rparr>) = Inr (f, s')"
    by (auto simp: KillCurrentProcess_def kernel_simps)
  show ?thesis
    using kernel_step.kill [OF assms(2) s1(1)] kernel_step.schedule [OF s1(2)]
    by (rule converse_rtranclp_into_rtranclp [OF _ r_into_rtranclp])
qed

lemma set_eax_steps: "kernel_steps L (kst m) (kst (set_eax frame x m))"
  by (rule environment_step) (simp add: set_eax_def upd_cpu_def)

lemma kst_simps [simp]: "kst (set_kernel_stack f m) = kst m" "kst (out p b m) = kst m"
  by (simp_all add: set_kernel_stack_def out_def)

lemma sys_send_message_steps:
  assumes run: "sys_send_message L frame m = Inr (f, m')"
    and buf: "ebx (cpu_at (kst m) frame) = 0 \<or> buffer L (heap (kst m)) (ebx (cpu_at (kst m) frame))"
  shows "kernel_steps L (kst m) (kst m')"
proof -
  let ?msg = "ebx (cpu_at (kst m) frame)"
  from run obtain to r s1 where "GetProcessByPid (receiver (msg_at (kst m) ?msg)) (kst m) = Inr to"
    "ksend_message L (current_process (kst m)) to ?msg (kst m) = Inr (r, s1)"
    and m': "m' = set_eax frame r (m\<lparr>kst := s1\<rparr>)"
    by (auto simp: sys_send_message_def Let_def kernel_simps on_kernel_Inr)
  then have "kernel_step L (kst m) s1" using kernel_step.send buf by blast
  moreover have "kernel_steps L s1 (kst m')" using set_eax_steps [of L "m\<lparr>kst := s1\<rparr>"] m' by simp
  ultimately show ?thesis by (rule converse_rtranclp_into_rtranclp)
qed

lemma sys_receive_message_steps:
  assumes run: "sys_receive_message L frame m = Inr (f, m')"
    and buf: "ebx (cpu_at (kst m) frame) = 0 \<or> buffer L (heap (kst m)) (ebx (cpu_at (kst m) frame))"
  shows "kernel_steps L (kst m) (kst m')"
proof -
  let ?c = "cpu_at (kst m) frame"
  from run obtain r s1 where "kreceive_message L (current_process (kst m)) (ebx ?c) (ecx ?c) (kst m) = Inr (r, s1)"
    and m': "m' = set_eax frame r (m\<lparr>kst := s1\<rparr>)"
    by (auto simp: sys_receive_message_def Let_def kernel_simps on_kernel_Inr)
  then have "kernel_step L (kst m) s1" using kernel_step.receive buf by blast
  moreover have "kernel_steps L s1 (kst m')" using set_eax_steps [of L "m\<lparr>kst := s1\<rparr>"] m' by simp
  ultimately show ?thesis by (rule converse_rtranclp_into_rtranclp)
qed

lemma sys_sbrk_steps:
  assumes run: "sys_sbrk L frame m = Inr (f, m')"
  shows "kernel_steps L (kst m) (kst m')"
proof (cases "ebx (cpu_at (kst m) frame) \<le> 0")
  case True
  then show ?thesis using run set_eax_steps by (auto simp: sys_sbrk_def Let_def)
next
  case False
  let ?s = "kst m" and ?n = "ebx (cpu_at (kst m) frame)"
  from run False obtain x v where m': "kst m' = upd_proc (current_process ?s)
      (\<lambda>p. p\<lparr>sbrk_state := sbrk_state p + ?n\<rparr>) (kst (set_eax frame x (m\<lparr>kst := ?s\<lparr>vm := v\<rparr>\<rparr>)))"
    by (auto simp: sys_sbrk_def Let_def kernel_simps)
  have "kernel_steps L ?s (?s\<lparr>vm := v\<rparr>)" by (rule environment_step) simp
  moreover have "kernel_steps L (?s\<lparr>vm := v\<rparr>) (kst (set_eax frame x (m\<lparr>kst := ?s\<lparr>vm := v\<rparr>\<rparr>)))"
    using set_eax_steps [of L "m\<lparr>kst := ?s\<lparr>vm := v\<rparr>\<rparr>"] by simp
  moreover have "kernel_steps L s (upd_proc p (\<lambda>p. p\<lparr>sbrk_state := sbrk_state p + n\<rparr>) s)" for s p n
    by (rule sleep_step) simp
  ultimately show ?thesis unfolding m' by (blast intro: rtranclp_trans)
qed

lemma sys_set_timer_steps:
  assumes run: "sys_set_timer frame m = Inr (f, m')"
  shows "kernel_steps L (kst m) (kst m')"
proof -
  let ?s = "kst m"
  from run obtain t where "Schedule frame (upd_proc (current_process ?s)
      (\<lambda>p. p\<lparr>sleep_timer := t, status := PROCESS_SLEEPING\<rparr>) ?s) = Inr (f, kst m')"
    by (auto simp: sys_set_timer_def Let_def kernel_simps on_kernel_Inr)
  then have "kernel_step L (upd_proc (current_process ?s)
      (\<lambda>p. p\<lparr>sleep_timer := t, status := PROCESS_SLEEPING\<rparr>) ?s) (kst m')" by (rule kernel_step.schedule)
  moreover have "kernel_steps L ?s (upd_proc p (\<lambda>p. p\<lparr>sleep_timer := t, status := PROCESS_SLEEPING\<rparr>) ?s)" for p
    by (rule sleep_step) simp
  ultimately show ?thesis by (blast intro: rtranclp.rtrancl_into_rtrancl)
qed

lemma sys_launch_steps:
  assumes run: "sys_launch L frame m = Inr (f, m')" and wrap: "num_proc (kst m) \<noteq> -1"
    and clear: "new_block_clear L m frame"
    and ok: "\<And>ctx v offset. CreateUsermodeContext L 0 (vm (kst m)) = Inr (ctx, v) \<Longrightarrow>
      read32 (ebx (cpu_at (kst m) frame) + 28) v = Inr offset \<Longrightarrow>
      segments_ok L (ebx (cpu_at (kst m) frame)) ctx 65536 (ebx (cpu_at (kst m) frame) + offset) ((kst m)\<lparr>vm := v\<rparr>)"
  shows "kernel_steps L (kst m) (kst m')"
proof -
  let ?s = "kst m" and ?c = "cpu_at (kst m) frame"
  from run obtain ctx v e s1 where ctx: "CreateUsermodeContext L 0 (vm ?s) = Inr (ctx, v)"
    and elf: "ParseElf L (ebx ?c) ctx (?s\<lparr>vm := v\<rparr>) = Inr (e, s1)"
    and rest: "kst m' = s1 \<or> (\<exists>p. CreateUserProcess L e ctx s1 = Inr (p, kst m'))"
    by (auto simp: sys_launch_def Let_def bindE_Inr_iff split: if_splits)
  have "kernel_steps L ?s (?s\<lparr>vm := v\<rparr>)" by (rule environment_step) simp
  moreover have elf_steps: "kernel_steps L (?s\<lparr>vm := v\<rparr>) s1" "num_proc s1 = num_proc ?s"
    "proc_at s1 = proc_at ?s"
    using ParseElf_steps [OF elf] ok [OF ctx] by auto
  moreover have "kernel_steps L s1 (kst m')"
    using rest
  proof (elim disjE exE)
    fix p
    assume c: "CreateUserProcess L e ctx s1 = Inr (p, kst m')"
    have "ml_first (messages (proc_at ?s p)) = 0"
      using clear ctx elf c unfolding new_block_clear_def by blast
    then show ?thesis using kernel_step.create [OF c] wrap elf_steps(2,3) by auto
  qed simp
  ultimately show ?thesis by (blast intro: rtranclp_trans)
qed

lemma Syscall_steps:
  assumes run: "Syscall L frame m = Inr (f, m')" and adm: "well_behaved L m frame"
    and k: "intr (cpu_at (kst m) frame) = 0x30"
  shows "kernel_steps L (kst m) (kst m')"
proof -
  let ?s = "kst m" and ?c = "cpu_at (kst m) frame"
  have a: "eax ?c = 2 \<Longrightarrow> current_process ?s \<noteq> idle_process ?s"
    "eax ?c = 3 \<or> eax ?c = 4 \<Longrightarrow> ebx ?c = 0 \<or> buffer L (heap ?s) (ebx ?c)"
    using adm k by (auto simp: well_behaved_def Let_def)
  have exit: "kernel_steps L ?s (kst m')" if "on_kernel (KillCurrentProcess L) m = Inr (f, m')" "eax ?c = 2"
    using that a(1) kill_current_steps by (auto simp: on_kernel_Inr)
  have launch: "kernel_steps L ?s (kst m')" if "sys_launch L frame m = Inr (f, m')" "eax ?c = 9"
    by (rule sys_launch_steps [OF that(1)]) (use adm k that(2) in \<open>auto simp: well_behaved_def Let_def\<close>)
  have irq: "kst m' = ?s" if "sys_register_irq frame m = Inr (f, m') \<or> sys_reset_irq frame m = Inr (f, m')"
    using that by (auto simp: sys_register_irq_def sys_reset_irq_def bindE_Inr_iff split: if_splits)
  consider "eax ?c = 2" | "eax ?c = 3" | "eax ?c = 4" | "eax ?c = 5" | "eax ?c = 6" | "eax ?c = 7"
    | "eax ?c = 8" | "eax ?c = 9" | "eax ?c \<notin> {2, 3, 4, 5, 6, 7, 8, 9}" by auto
  then show ?thesis
  proof cases
    case 1
    then show ?thesis using run exit by (simp add: Syscall_def Let_def bindE_Inr_iff)
  next
    case 2
    then show ?thesis using run a(2) sys_send_message_steps by (simp add: Syscall_def)
  next
    case 3
    then show ?thesis using run a(2) sys_receive_message_steps by (simp add: Syscall_def)
  next
    case 4
    then show ?thesis using run sys_sbrk_steps by (simp add: Syscall_def)
  next
    case 5
    then show ?thesis using run irq by (simp add: Syscall_def)
  next
    case 6
    then show ?thesis using run irq by (simp add: Syscall_def)
  next
    case 7
    then show ?thesis using run sys_set_timer_steps by (simp add: Syscall_def)
  next
    case 8
    then show ?thesis using run launch by (simp add: Syscall_def)
  next
    case 9
    then have "kst m' = ?s" using run by (auto simp: Syscall_def Let_def split: if_splits)
    then show ?thesis by simp
  qed
qed

lemma handle_exception_steps:
  assumes "handle_exception L frame m = Inr (f, m')" "current_process (kst m) \<noteq> idle_process (kst m)"
  shows "kernel_steps L (kst m) (kst m')"
proof -
  from assms(1) obtain v where "on_kernel (KillCurrentProcess L) (m\<lparr>console := v\<rparr>) = Inr (f, m')
      \<or> (\<exists>b. on_kernel (KillCurrentProcess L) (m\<lparr>console := v\<rparr>) = Inr (f, b) \<and> m' = set_kernel_stack f b)"
    by (auto simp: handle_exception_def Let_def bindE_Inr_iff split: if_splits)
  then have "KillCurrentProcess L (kst m) = Inr (f, kst m')" by (auto simp: on_kernel_Inr)
  then show ?thesis by (rule kill_current_steps [OF _ assms(2)])
qed

lemma irq_timer_steps:
  assumes "irq_timer frame m = Inr (f, m')"
  shows "kernel_steps L (kst m) (kst m') \<and> heap (kst m') = heap (kst m)"
proof -
  let ?s = "(kst m)\<lparr>ticks := ticks (kst m) + 1\<rparr>"
  from assms consider "m' = m" | "Schedule frame ?s = Inr (f, kst m')"
    by (auto simp: irq_timer_def bindE_Inr_iff on_kernel_Inr split: if_splits)
  then show ?thesis
  proof cases
    case 2
    have "kernel_steps L (kst m) ?s" by (rule environment_step) simp
    with kernel_step.schedule [OF 2] have "kernel_steps L (kst m) (kst m')" by (blast intro: rtranclp.rtrancl_into_rtrancl)
    then show ?thesis using Schedule_same [OF 2] by (simp add: same_structure_def)
  qed simp
qed

lemma irq_notify_steps:
  assumes run: "irq_notify L msg_buf frame m = Inr m'" and buf: "buffer L (heap (kst m)) msg_buf"
  shows "kernel_steps L (kst m) (kst m')"
proof -
  let ?s = "upd_msg msg_buf (\<lambda>msg. msg\<lparr>signal := intr (cpu_at (kst m) frame)\<rparr>) (kst m)"
  have s: "kernel_steps L (kst m) ?s" by (rule environment_step) (simp add: upd_msg_def)
  from run obtain i where "(if 0 < irq_handlers m ! i
      then bindE (GetProcessByPid (irq_handlers m ! i) ?s) (\<lambda>proc.
           bindE (on_kernel (ksend_message L (current_process ?s) proc msg_buf) (m\<lparr>kst := ?s\<rparr>)) (\<lambda>(_, m2). Inr m2))
      else Inr (m\<lparr>kst := ?s\<rparr>)) = Inr m'"
    unfolding irq_notify_def Let_def by (subst (asm) bindE_Inr_iff) (simp cong: if_cong, blast)
  then consider "kst m' = ?s" | k to r where "GetProcessByPid k ?s = Inr to"
      "ksend_message L (current_process ?s) to msg_buf ?s = Inr (r, kst m')"
    by (cases "0 < irq_handlers m ! i") (auto simp: bindE_Inr_iff on_kernel_Inr)
  then show ?thesis
  proof cases
    case 2
    have "heap ?s = heap (kst m)" by (simp add: upd_msg_def)
    with kernel_step.send [OF 2(1) _ 2(2)] buf have "kernel_step L ?s (kst m')" by simp
    with s show ?thesis by (rule rtranclp.rtrancl_into_rtrancl)
  qed (use s in simp)
qed

lemma handle_irq_steps:
  assumes run: "handle_irq L msg_buf frame m = Inr (f, m')" and buf: "buffer L (heap (kst m)) msg_buf"
  shows "kernel_steps L (kst m) (kst m')"
proof -
  from run obtain m1 m2 where "irq_timer frame m = Inr (f, m1)" "irq_notify L msg_buf frame m1 = Inr m2" "kst m' = kst m2"
    by (auto simp: handle_irq_def bindE_Inr_iff)
  with irq_timer_steps irq_notify_steps buf show ?thesis by (metis rtranclp_trans)
qed

lemma int_handler_steps:
  assumes run: "int_handler L msg_buf frame m = Inr (f, m')" and adm: "well_behaved L m frame"
    and buf: "buffer L (heap (kst m)) msg_buf"
  shows "kernel_steps L (kst m) (kst m')"
proof -
  let ?n = "intr (cpu_at (kst m) frame)"
  consider "?n < 32" | "\<not> ?n < 32" "0x20 \<le> ?n" "?n \<le> 0x2f" | "\<not> ?n < 32" "\<not> ?n \<le> 0x2f" by fastforce
  then show ?thesis
  proof cases
    case 1
    with run obtain m1 where "handle_exception L frame m = Inr (f, m1)" "kst m' = kst m1"
      by (auto simp: int_handler_def Let_def bindE_Inr_iff)
    with 1 adm show ?thesis using handle_exception_steps [of L frame m f m1] by (simp add: well_behaved_def Let_def)
  next
    case 2
    with run obtain m1 where "handle_irq L msg_buf frame m = Inr (f, m1)" "kst m' = kst m1"
      by (auto simp: int_handler_def Let_def bindE_Inr_iff)
    with handle_irq_steps buf show ?thesis by metis
  next
    case 3
    with run obtain m1 where n: "?n = 0x30" and sys: "Syscall L frame (m\<lparr>kernel_mode := 1\<rparr>) = Inr (f, m1)" "kst m' = kst m1"
      by (auto simp: int_handler_def Let_def bindE_Inr_iff split: if_splits)
    have "well_behaved L (m\<lparr>kernel_mode := 1\<rparr>) frame" using adm by (simp add: well_behaved_def new_block_clear_def)
    from Syscall_steps [OF sys(1) this] n sys(2) show ?thesis by simp
  qed
qed

section \<open>Booting\<close>

text \<open>Memory the heap has never handed out is clear.\<close>

definition clean :: "kernel \<Rightarrow> bool" where
  "clean s \<longleftrightarrow> (\<forall>a. ml_first (messages (proc_at s a)) = 0 \<and> user_stack (proc_at s a) = 0)"

lemma boot_create:
  assumes ok: "system_ok L s ps Q" and run: "CreateKernelProcess L e s = Inr (p, s')" and wrap: "num_proc s \<noteq> -1"
    and "clean s" and Q: "Q = (\<lambda>_. [])"
  shows "system_ok L s' (p # ps) Q \<and> clean s' \<and> num_proc s' = num_proc s + 1 \<and> pid (proc_at s' p) = num_proc s
    \<and> status (proc_at s' p) = PROCESS_RUNNABLE \<and> idle_process s' = idle_process s
    \<and> current_process s' = current_process s \<and> p \<notin> set ps \<and> (\<forall>q. q \<noteq> p \<longrightarrow> proc_at s' q = proc_at s q)"
proof -
  have c: "ml_first (messages (proc_at s p)) = 0" "user_stack (proc_at s p) = 0"
    using assms(4) by (simp_all add: clean_def)
  have "Q(p := []) = Q" by (simp add: Q fun_eq_iff)
  with system_ok_CreateKernelProcess [OF ok wrap run c] have ok': "system_ok L s' (p # ps) Q" by simp
  then have "p \<notin> set ps" using processes_okD(3) [OF system_okD(1)] by fastforce
  with ok' run assms(4) show ?thesis by (auto elim!: CreateKernelProcess_run simp: clean_def)
qed

lemma system_ok_empty:
  "heap_ok L (heap s) \<Longrightarrow> first_process s = 0 \<Longrightarrow> system_ok L s [] (\<lambda>_. [])"
  by (simp add: system_ok_def processes_ok_def all_owned_def)

lemma system_ok_idle: "system_ok L (s\<lparr>idle_process := i\<rparr>) ps Q \<longleftrightarrow> system_ok L s ps Q"
proof -
  let ?s = "s\<lparr>idle_process := i\<rparr>"
  have "seg ?s b a ns c \<longleftrightarrow> seg s b a ns c" "plist ?s a ns \<longleftrightarrow> plist s a ns" for b a ns c
    by (rule seg_cong plist_cong; simp)+
  moreover have "all_owned ?s Q ps = all_owned s Q ps" by (rule owned_cong) simp
  ultimately show ?thesis by (simp add: system_ok_def processes_ok_def queue_ok_def)
qed

lemma InitMultitasking_effect:
  assumes run: "InitMultitasking L kp idle rp s = Inr s'" and "heap_ok L (heap s)" "clean s"
    and "first_process s = 0" "num_proc s = 0" "current_process s = 0"
  shows "\<exists>p0 p1 p2. kernel_inv L s' [p2, p1, p0] (\<lambda>_. []) \<and> idle_process s' = p1 \<and> current_process s' = 0
    \<and> map (\<lambda>p. pid (proc_at s' p)) [p0, p1, p2] = [0, 1, 2] \<and> num_proc s' = 3
    \<and> status (proc_at s' p1) = PROCESS_PAUSED
    \<and> status (proc_at s' p0) = PROCESS_RUNNABLE \<and> status (proc_at s' p2) = PROCESS_RUNNABLE"
proof -
  from run obtain p0 s1 p1 s2 p2 s3 where
    c0: "CreateKernelProcess L kp s = Inr (p0, s1)" and c1: "CreateKernelProcess L idle s1 = Inr (p1, s2)"
    and c2: "CreateKernelProcess L rp (s2\<lparr>idle_process := p1\<rparr>) = Inr (p2, s3)"
    and s': "s' = upd_proc (idle_process s3) (\<lambda>p. p\<lparr>status := PROCESS_PAUSED\<rparr>) s3"
    by (auto simp: InitMultitasking_def bindE_Inr_iff)
  let ?Q = "\<lambda>_. [] :: u32 list"
  have "num_proc s \<noteq> -1" using assms(5) by simp
  note b0 = boot_create [OF system_ok_empty [OF assms(2,4)] c0 this assms(3) refl, unfolded assms(5,6)]
  have "num_proc s1 \<noteq> -1" using b0 by simp
  note b1 = boot_create [OF conjunct1 [OF b0] c1 this _ refl]
  have b0: "system_ok L s1 [p0] ?Q" "clean s1" "num_proc s1 = 1" "pid (proc_at s1 p0) = 0"
    "status (proc_at s1 p0) = PROCESS_RUNNABLE" "current_process s1 = 0" using b0 by simp_all
  have b1: "system_ok L s2 [p1, p0] ?Q" "clean s2" "num_proc s2 = 2" "pid (proc_at s2 p1) = 1"
    "current_process s2 = 0" "p1 \<noteq> p0" "proc_at s2 p0 = proc_at s1 p0"
    using b1 [OF b0(2)] b0 by auto
  have idle: "system_ok L (s2\<lparr>idle_process := p1\<rparr>) [p1, p0] ?Q" "clean (s2\<lparr>idle_process := p1\<rparr>)"
    using b1(1,2) by (simp_all add: system_ok_idle) (simp add: clean_def)
  have "num_proc (s2\<lparr>idle_process := p1\<rparr>) \<noteq> -1" using b1(3) by simp
  note b2 = boot_create [OF idle(1) c2 this idle(2) refl]
  have b2: "system_ok L s3 [p2, p1, p0] ?Q" "num_proc s3 = 3" "pid (proc_at s3 p2) = 2" "idle_process s3 = p1"
    "current_process s3 = 0" "status (proc_at s3 p2) = PROCESS_RUNNABLE" "p2 \<noteq> p1" "p2 \<noteq> p0"
    "proc_at s3 p1 = proc_at s2 p1" "proc_at s3 p0 = proc_at s1 p0"
    using b2 b1 by auto
  have "same_structure s3 s'" by (simp add: s' same_structure_def upd_proc_def)
  from system_ok_same [OF b2(1) this] have "system_ok L s' [p2, p1, p0] ?Q" .
  then have "kernel_inv L s' [p2, p1, p0] ?Q" using b2(4,5) by (simp add: kernel_inv_def s' upd_proc_def)
  then show ?thesis
    using b0(4,5) b1(4,6) b2(2-)
    by (intro exI [of _ p0] exI [of _ p1] exI [of _ p2]) (simp add: s' upd_proc_def)
qed

section \<open>The machine\<close>

text \<open>
  One step of the machine: an interrupt, exception or system call runs to its end, or a program changes
  registers, its memory and its messages, and memory where no block in use starts takes any value.
\<close>

inductive machine_step :: "layout \<Rightarrow> machine \<Rightarrow> machine \<Rightarrow> bool" for L where
  interrupt: "int_handler L msg_buf frame m = Inr (new, m') \<Longrightarrow> well_behaved L m frame \<Longrightarrow>
    buffer L (heap (kst m)) msg_buf \<Longrightarrow> machine_step L m m'"
| user: "(\<And>a. live_block L (heap (kst m)) a \<Longrightarrow>
      P a = proc_at (kst m) a \<and> n a = node_next (kst m) a \<and> q a = node_prev (kst m) a) \<Longrightarrow>
    machine_step L m (m\<lparr>kst := (kst m)\<lparr>vm := v, cpu_at := c, msg_at := ms, proc_at := P, node_next := n, node_prev := q\<rparr>\<rparr>)"

inductive_cases machine_stepE: "machine_step L m m'"

lemma user_steps:
  assumes "\<And>a. live_block L (heap s) a \<Longrightarrow> P a = proc_at s a \<and> n a = node_next s a \<and> q a = node_prev s a"
  shows "kernel_steps L s (s\<lparr>vm := v, cpu_at := c, msg_at := ms, proc_at := P, node_next := n, node_prev := q\<rparr>)"
proof -
  let ?s = "s\<lparr>vm := v, cpu_at := c, msg_at := ms\<rparr>"
  have "kernel_steps L s ?s" by (rule environment_step) simp
  moreover have "kernel_step L ?s (?s\<lparr>proc_at := P, node_next := n, node_prev := q\<rparr>)"
    by (rule kernel_step.memory) (use assms in simp)
  ultimately show ?thesis by simp
qed

lemma machine_step_kernel: "machine_step L m m' \<Longrightarrow> kernel_steps L (kst m) (kst m')"
  by (erule machine_stepE) (auto intro: int_handler_steps user_steps)

lemma machine_steps_kernel: "(machine_step L)\<^sup>*\<^sup>* m m' \<Longrightarrow> kernel_steps L (kst m) (kst m')"
proof (induction rule: rtranclp_induct)
  case (step m1 m2)
  then show ?case using machine_step_kernel by (blast intro: rtranclp_trans)
qed simp

text \<open>
  Every interrupt, exception or system call that the dispatcher completes acts on the kernel as a sequence
  of the operations \<open>kernel_step\<close> names, and on nothing else.
\<close>

theorem interrupt_refines_steps:
  assumes "int_handler L msg_buf frame m = Inr (f, m')" "well_behaved L m frame"
    and "buffer L (heap (kst m)) msg_buf"
  shows "(kernel_step L)\<^sup>*\<^sup>* (kst m) (kst m')"
  by (rule int_handler_steps [OF assms])


section \<open>Booting succeeds\<close>

text \<open>The pages \<open>create_context\<close> can take.\<close>

definition free_pool :: "layout \<Rightarrow> vmm \<Rightarrow> nat" where
  "free_pool L v = card {a. in_pool L a \<and> \<not> page_used (pm v) a}"

lemma create_context_succeeds:
  assumes L: "layout_ok L" and room: "2 \<le> free_pool L v"
  shows "\<exists>ctx v'. create_context L v = Inr (ctx, v') \<and> kernel_context v' = kernel_context v
    \<and> free_pool L v' = free_pool L v - 2"
proof -
  let ?F = "\<lambda>v. {a. in_pool L a \<and> \<not> page_used (pm v) a}"
  obtain T where "T \<subseteq> ?F v" "card T = 2"
    using obtain_subset_with_card_n [of 2 "?F v"] room by (auto simp: free_pool_def)
  then obtain a b where ab: "a \<in> ?F v" "b \<in> ?F v" "a \<noteq> b" by (auto simp: card_2_iff)
  then obtain ctx v' where run: "create_context L v = Inr (ctx, v')" using two_pool_pages [OF L, of a b v] by auto
  obtain pd where pd: "in_pool L ctx" "in_pool L pd" "ctx \<noteq> pd" "\<not> page_used (pm v) ctx" "\<not> page_used (pm v) pd"
    "\<And>b. page_used (pm v') b \<longleftrightarrow> same_page ctx b \<or> same_page pd b \<or> page_used (pm v) b"
    "kernel_context v' = kernel_context v"
    by (rule create_context_effect [OF L run]) (rule that)
  have al: "page_aligned ctx" "page_aligned pd" using pd(1,2) by (simp_all add: in_pool_def)
  have "b \<in> ?F v' \<longleftrightarrow> b \<in> ?F v - {ctx, pd}" for b
  proof (cases "in_pool L b")
    case True
    then have "page_aligned b" by (simp add: in_pool_def)
    then have "same_page ctx b \<longleftrightarrow> b = ctx" "same_page pd b \<longleftrightarrow> b = pd" using al same_page_aligned by metis+
    then show ?thesis using pd(6) by auto
  qed simp
  then have "?F v' = ?F v - {ctx, pd}" by blast
  moreover have "{ctx, pd} \<subseteq> ?F v" "card {ctx, pd} = 2" using pd(1-5) by auto
  ultimately have "free_pool L v' = free_pool L v - 2" by (simp add: free_pool_def card_Diff_subset)
  then show ?thesis using run pd(7) by blast
qed

lemma usermode_context_succeeds:
  assumes "layout_ok L" "2 \<le> free_pool L v" "kernel_context v \<noteq> 0"
  shows "\<exists>ctx v'. CreateUsermodeContext L w v = Inr (ctx, v') \<and> kernel_context v' = kernel_context v
    \<and> free_pool L v' = free_pool L v - 2"
proof -
  obtain ctx v' where "create_context L v = Inr (ctx, v')" "kernel_context v' = kernel_context v"
      "free_pool L v' = free_pool L v - 2"
    using create_context_succeeds [OF assms(1,2)] by blast
  then show ?thesis using assms(3) by (simp add: CreateUsermodeContext_def free_pool_def)
qed

text \<open>A heap in which nothing has been given back and whose last block ends at \<open>e\<close>.\<close>

definition filled :: "layout \<Rightarrow> kheap \<Rightarrow> nat \<Rightarrow> bool" where
  "filled L h e \<longleftrightarrow> (\<exists>ns. heap_inv L h ns \<and> block_end h (last ns) = e
     \<and> (\<forall>n \<in> set ns. nd_free (nodes h n) = 1 \<longrightarrow> nd_size (nodes h n) = 0))"

lemma filled_kmalloc:
  assumes "filled L h e" "e < unat (HEAP_END L)" "0 < sz" "request_ok sz" "e' = e + 16 + unat sz"
  shows "\<exists>p h'. kmalloc L sz h = Inr (p, h') \<and> filled L h' e'"
proof -
  from assms(1) obtain ns where ns: "heap_inv L h ns" "block_end h (last ns) = e"
    "\<And>n. n \<in> set ns \<Longrightarrow> nd_free (nodes h n) = 1 \<Longrightarrow> nd_size (nodes h n) = 0" by (auto simp: filled_def)
  have none: "find (fits h sz) ns = None"
    using ns(3) assms(3) by (auto simp: find_None_iff fits_def)
  let ?nx = "NEXT_BLOCK h (last ns)" and ?h = "appended (last ns) (NEXT_BLOCK h (last ns)) sz h"
  have nx: "?nx < HEAP_END L" using heap_last(3) [OF ns(1)] ns(2) assms(2) by (simp add: word_less_nat_alt)
  have "sz \<noteq> 0" using assms(3) by auto
  have run: "kmalloc L sz h = Inr (BLOCK_START ?nx, ?h)" using none nx \<open>sz \<noteq> 0\<close> by (simp add: kmalloc_eq [OF ns(1)])
  have inv: "heap_inv L ?h (ns @ [?nx])" by (rule heap_inv_appended [OF ns(1) nx assms(4)])
  have "?nx \<notin> set ns" using heap_last(3,4) [OF ns(1)] by auto
  then have "\<forall>n \<in> set (ns @ [?nx]). nd_free (nodes ?h n) = 1 \<longrightarrow> nd_size (nodes ?h n) = 0"
    using ns(3) by (auto simp: appended_def upd_node_def)
  moreover have "block_end ?h ?nx = e + 16 + unat sz"
    using heap_last(3) [OF ns(1)] ns(2) \<open>?nx \<notin> set ns\<close> by (simp add: block_end_def appended_def upd_node_def)
  ultimately have "filled L ?h e'" using inv assms(5) unfolding filled_def by (metis last_snoc)
  with run show ?thesis by blast
qed

lemma CreateKernelProcess_succeeds:
  assumes "filled L (heap s) e" "e + 4112 < unat (HEAP_END L)" "2 \<le> free_pool L (vm s)" "kernel_context (vm s) \<noteq> 0"
    and "layout_ok L" "e' = e + 4180"
  shows "\<exists>p s'. CreateKernelProcess L en s = Inr (p, s') \<and> filled L (heap s') e'
    \<and> free_pool L (vm s') = free_pool L (vm s) - 2 \<and> kernel_context (vm s') = kernel_context (vm s)"
proof -
  obtain stk h1 where k1: "kmalloc L 4096 (heap s) = Inr (stk, h1)" "filled L h1 (e + 4112)"
    using filled_kmalloc [OF assms(1), of 4096 "e + 4112"] assms(2) by (auto simp: request_ok_def)
  obtain p h2 where k2: "kmalloc L sizeof_process h1 = Inr (p, h2)" "filled L h2 e'"
    using filled_kmalloc [OF k1(2), of sizeof_process e'] assms(2,6) by (auto simp: request_ok_def)
  obtain ctx v where c: "CreateUsermodeContext L 1 (vm s) = Inr (ctx, v)" "kernel_context v = kernel_context (vm s)"
      "free_pool L v = free_pool L (vm s) - 2"
    using usermode_context_succeeds [OF assms(5,3,4)] by blast
  show ?thesis
    using k1 k2 c by (simp add: CreateKernelProcess_def k_malloc_def Let_def upd_proc_def upd_cpu_def)
qed

lemma filled_kinit: "layout_ok L \<Longrightarrow> filled L (kinit_heap L h) (unat (HEAP_START L) + 16)"
  using heap_inv_kinit [of L h] by (auto simp: filled_def block_end_def kinit_heap_def upd_node_def)

lemma CreateKernelProcess_nonzero:
  assumes ok: "heap_ok L (heap s)" and run: "CreateKernelProcess L e s = Inr (p, s')"
  shows "p \<noteq> 0"
  using run
proof (rule CreateKernelProcess_run)
  fix stk h1 h2
  assume k: "kmalloc L 4096 (heap s) = Inr (stk, h1)" "kmalloc L sizeof_process h1 = Inr (p, h2)"
  have "heap_ok L h1" by (rule kmalloc_live(1) [OF ok _ k(1)]) (simp add: request_ok_def)
  then show ?thesis by (rule kmalloc_live(2) [OF _ _ k(2)]) (simp add: request_ok_def)
qed

lemma InitMultitasking_succeeds:
  assumes L: "layout_ok L" and "heap s = kinit_heap L h" "6 \<le> free_pool L (vm s)" "kernel_context (vm s) \<noteq> 0"
  shows "\<exists>s'. InitMultitasking L kp idle rp s = Inr s' \<and> filled L (heap s') (unat (HEAP_START L) + 12556)"
proof -
  have e: "unat (HEAP_END L) = unat (HEAP_START L) + 0x1400000" using layout_unat [OF L] by simp
  obtain p0 s1 where c0: "CreateKernelProcess L kp s = Inr (p0, s1)" "filled L (heap s1) (unat (HEAP_START L) + 4196)"
      "free_pool L (vm s1) = free_pool L (vm s) - 2" "kernel_context (vm s1) \<noteq> 0"
    using CreateKernelProcess_succeeds [of L s "unat (HEAP_START L) + 16" "unat (HEAP_START L) + 4196" kp] filled_kinit [OF L, of h] assms e by auto
  have r1: "2 \<le> free_pool L (vm s1)" using c0(3) assms(3) by linarith
  obtain p1 s2 where c1: "CreateKernelProcess L idle s1 = Inr (p1, s2)" "filled L (heap s2) (unat (HEAP_START L) + 8376)"
      "free_pool L (vm s2) = free_pool L (vm s) - 4" "kernel_context (vm s2) \<noteq> 0"
    using CreateKernelProcess_succeeds [OF c0(2) _ r1 c0(4) L, of "unat (HEAP_START L) + 8376" idle] c0(3,4) e by auto
  have r2: "2 \<le> free_pool L (vm s2)" using c1(3) assms(3) by linarith
  obtain p2 s3 where c2: "CreateKernelProcess L rp (s2\<lparr>idle_process := p1\<rparr>) = Inr (p2, s3)"
      "filled L (heap s3) (unat (HEAP_START L) + 12556)"
    using CreateKernelProcess_succeeds [of L "s2\<lparr>idle_process := p1\<rparr>" "unat (HEAP_START L) + 8376" "unat (HEAP_START L) + 12556" rp, OF _ _ _ _ L] c1(2,4) r2 e
    by auto
  have "idle_process s3 = p1" using c2(1) by (auto elim!: CreateKernelProcess_run)
  moreover have "p1 \<noteq> 0"
    using CreateKernelProcess_nonzero [OF _ c1(1)] c0(2) by (auto simp: filled_def heap_ok_def)
  ultimately show ?thesis using c0(1) c1(1) c2 by (simp add: InitMultitasking_def upd_proc_def)
qed

text \<open>
  With the heap just initialised, six free pages in the page pool and a kernel context, multitasking
  starts: \<open>InitMultitasking\<close> returns with exactly three processes, of PID 0, 1 and 2, the second of them the
  paused idle process, the other two runnable, and the kernel's invariant established.
\<close>

theorem InitMultitasking_boots:
  assumes L: "layout_ok L" and boot: "heap s = kinit_heap L h" "clean s" "first_process s = 0" "num_proc s = 0"
      "current_process s = 0"
    and room: "6 \<le> free_pool L (vm s)" "kernel_context (vm s) \<noteq> 0"
  shows "\<exists>s' p0 p1 p2. InitMultitasking L kp idle rp s = Inr s' \<and> kernel_inv L s' [p2, p1, p0] (\<lambda>_. [])
    \<and> idle_process s' = p1 \<and> map (\<lambda>p. pid (proc_at s' p)) [p0, p1, p2] = [0, 1, 2] \<and> num_proc s' = 3
    \<and> status (proc_at s' p1) = PROCESS_PAUSED
    \<and> status (proc_at s' p0) = PROCESS_RUNNABLE \<and> status (proc_at s' p2) = PROCESS_RUNNABLE"
proof -
  have ok: "heap_ok L (heap s)" using filled_kinit [OF L, of h] boot(1) by (auto simp: filled_def heap_ok_def)
  obtain s' where run: "InitMultitasking L kp idle rp s = Inr s'"
    using InitMultitasking_succeeds [OF L boot(1) room, of kp idle rp] by blast
  from InitMultitasking_effect [OF run ok boot(2-5)] obtain p0 p1 p2 where
    "kernel_inv L s' [p2, p1, p0] (\<lambda>_. [])" "idle_process s' = p1"
    "map (\<lambda>p. pid (proc_at s' p)) [p0, p1, p2] = [0, 1, 2]" "num_proc s' = 3"
    "status (proc_at s' p1) = PROCESS_PAUSED"
    "status (proc_at s' p0) = PROCESS_RUNNABLE" "status (proc_at s' p2) = PROCESS_RUNNABLE"
    by (elim exE conjE) (rule that)
  with run show ?thesis by (intro exI [of _ s'] exI [of _ p0] exI [of _ p1] exI [of _ p2]) simp
qed

section \<open>Witnesses\<close>

definition boot_kernel :: kernel where
  "boot_kernel = example_kernel\<lparr>proc_at := \<lambda>_. no_process, first_process := 0, current_process := 0,
     idle_process := 0, num_proc := 0\<rparr>"

lemma boot_kernel_sel [simp]:
  "heap boot_kernel = fresh_heap" "vm boot_kernel = example_vmm" "clean boot_kernel"
  "first_process boot_kernel = 0" "num_proc boot_kernel = 0" "current_process boot_kernel = 0"
  by (simp_all add: boot_kernel_def example_kernel_def clean_def no_process_def)

lemma boot_kernel_room: "6 \<le> free_pool example_layout example_vmm" "kernel_context example_vmm \<noteq> 0"
proof -
  let ?S = "{0x150000, 0x151000, 0x152000, 0x153000, 0x154000, 0x155000} :: u32 set"
  have "?S \<subseteq> {a. in_pool example_layout a \<and> \<not> page_used (pm example_vmm) a}"
    by (simp add: in_pool_def example_unused same_page_def)
  then have "card ?S \<le> free_pool example_layout example_vmm" unfolding free_pool_def by (intro card_mono) simp_all
  then show "6 \<le> free_pool example_layout example_vmm" by simp
qed (simp add: example_vmm_def)

theorem InitMultitasking_boots_witness:
  "\<exists>s'. InitMultitasking example_layout 0x100100 0x100200 0x100300 boot_kernel = Inr s' \<and> num_proc s' = 3"
proof -
  have "heap boot_kernel = kinit_heap example_layout \<lparr>nodes = \<lambda>_. \<lparr>nd_magic = 0, nd_free = 0, nd_size = 0, nd_next = 0\<rparr>\<rparr>"
    by (simp add: fresh_heap_def)
  from InitMultitasking_boots [OF example_layout_ok this, of "0x100100" "0x100200" "0x100300"] boot_kernel_room
  show ?thesis by auto
qed

lemma boot_kernel_heap: "heap_ok example_layout fresh_heap"
  using heap_inv_fresh by (auto simp: heap_ok_def)

lemma boot_kernel_runs:
  "\<exists>s. InitMultitasking example_layout 0x100100 0x100200 0x100300 boot_kernel = Inr s"
proof -
  have "heap boot_kernel = kinit_heap example_layout \<lparr>nodes = \<lambda>_. \<lparr>nd_magic = 0, nd_free = 0, nd_size = 0, nd_next = 0\<rparr>\<rparr>"
    by (simp add: fresh_heap_def)
  from InitMultitasking_succeeds [OF example_layout_ok this, of "0x100100" "0x100200" "0x100300"] boot_kernel_room
  show ?thesis by auto
qed

lemma stack_buffer: "buffer example_layout h 0x6000"
  by (simp add: buffer_def outside_heap_def)

text \<open>A boot, a program that puts its call number and argument into the registers, and the system call.\<close>

definition booted :: "kernel \<Rightarrow> machine" where
  "booted s = (example_machine 0 0)\<lparr>kst := s\<rparr>"

definition putch_frame :: cpu where
  "putch_frame = no_cpu\<lparr>intr := 0x30, eax := 1, ebx := 65\<rparr>"

lemma putch_interrupt:
  assumes "cpu_at (kst m) 0x5000 = putch_frame"
  shows "\<exists>m'. int_handler L b 0x5000 m = Inr (0x5000, m') \<and> kst m' = kst m \<and> well_behaved L m 0x5000"
  using assms by (simp add: int_handler_def Syscall_def putch_frame_def no_cpu_def well_behaved_def Let_def)

theorem interrupt_refines_steps_witness:
  "\<exists>m m'. int_handler example_layout 0x6000 0x5000 m = Inr (0x5000, m')
     \<and> eax (cpu_at (kst m) 0x5000) = 1 \<and> (kernel_step example_layout)\<^sup>*\<^sup>* (kst m) (kst m')"
proof -
  let ?m = "(example_machine 0 0)\<lparr>kst := example_kernel\<lparr>cpu_at := \<lambda>_. putch_frame\<rparr>\<rparr>"
  obtain m' where m': "int_handler example_layout 0x6000 0x5000 ?m = Inr (0x5000, m')"
      "well_behaved example_layout ?m 0x5000"
    using putch_interrupt [of ?m example_layout "0x6000"] by auto
  show ?thesis using m' interrupt_refines_steps [OF m' stack_buffer]
    by (intro exI [of _ ?m] exI [of _ m']) (simp add: putch_frame_def)
qed


theorem kernel_inv_failures_witness:
  "\<exists>s p. InitMultitasking example_layout 0x100100 0x100200 0x100300 boot_kernel = Inr s
     \<and> (\<forall>msg e. kreceive_message example_layout p msg 1 s = Inl e \<longrightarrow> e = heap_end_error)
     \<and> (\<exists>q. GetProcessByPid 1 s = Inr q)"
proof -
  have ok: "heap_ok example_layout (heap boot_kernel)" using boot_kernel_heap by simp
  obtain s where s: "InitMultitasking example_layout 0x100100 0x100200 0x100300 boot_kernel = Inr s"
    using boot_kernel_runs by blast
  from InitMultitasking_effect [OF s ok] obtain p0 p1 p2 where
    "kernel_inv example_layout s [p2, p1, p0] (\<lambda>_. [])" by auto
  from kernel_inv_failures [OF this, of p0 1 1] s show ?thesis by auto
qed

end
