(* ===== verification/Reports.thy ===== *)
theory Reports
  imports Debug Execution
begin

text \<open>
  What the kernel prints about itself over the serial port: the process list (\<open>ListProcesses\<close> of
  \<open>hal.x86/multitasking.c\<close>), the heap (\<open>PrintHeap\<close> of \<open>hal.x86/heap.c\<close>), memory in use (\<open>pmm_info\<close> of
  \<open>hal.x86/pmm.c\<close>) and exceptions (\<open>int_handler\<close> of \<open>hal.x86/idt.c\<close>).
\<close>

section \<open>Operations\<close>

partial_function (option) list_loop :: "kernel \<Rightarrow> u32 \<Rightarrow> serial \<Rightarrow> (kerror + serial) option" where
  "list_loop k proc s =
     (if proc = 0 then Some (Inr s)
      else case DebugPrintf (bytes ''Process: %d'' @ [10]) [Num (pid (proc_at k proc))] s of
             Inl e \<Rightarrow> Some (Inl e)
           | Inr s1 \<Rightarrow> list_loop k (p_next (proc_at k proc)) s1)"

definition ListProcesses :: "kernel \<Rightarrow> serial \<Rightarrow> kerror + serial" where
  "ListProcesses k s = returned (list_loop k (first_process k) s)"

definition heap_rule :: "u8 list" where
  "heap_rule =
     bytes ''*********************************************************************************'' @ [10]"

partial_function (option) heap_loop :: "kheap \<Rightarrow> u32 \<Rightarrow> serial \<Rightarrow> (kerror + serial) option" where
  "heap_loop h node s =
     (if node = 0 then Some (Inr s)
      else case DebugPrintf (bytes ''Node: size = %d, start = 0x%x, MAGIC = 0x%x, free = %d'' @ [10])
                  [Num (nd_size (nodes h node)), Num (BLOCK_START node), Num (nd_magic (nodes h node)),
                   Num (nd_free (nodes h node))] s of
             Inl e \<Rightarrow> Some (Inl e)
           | Inr s1 \<Rightarrow> heap_loop h (nd_next (nodes h node)) s1)"

definition PrintHeap :: "layout \<Rightarrow> kheap \<Rightarrow> serial \<Rightarrow> kerror + serial" where
  "PrintHeap L h s =
     bindE (DebugPrintf heap_rule [] s) (\<lambda>s.
     bindE (returned (heap_loop h (HEAP_START L) s)) (DebugPrintf heap_rule []))"

definition pmm_info :: "pmm \<Rightarrow> serial \<Rightarrow> kerror + serial" where
  "pmm_info p s =
     (let used = pmm_info_used p in
      DebugPrintf
        (bytes ''[ PMM ] Using %d bytes of memory, that are %dMB or %d pages of %d'' @ [10])
        [Num used, Num (used div 1024 div 1024), Num (used div PAGESIZE), Num PAGESIZE] s)"

text \<open>
  What \<open>int_handler\<close> says of an exception; \<open>cr2\<close> is the faulting address, read from the register of that name.
\<close>

definition report_exception :: "kernel \<Rightarrow> u32 \<Rightarrow> cpu \<Rightarrow> serial \<Rightarrow> kerror + serial" where
  "report_exception k cr2 cpu_old s =
     bindE (DebugPrintf (bytes ''Error at 0x%x'' @ [10]) [Num (eip cpu_old)] s) (\<lambda>s.
     if intr cpu_old = 14
     then
       let present = (r_error cpu_old AND 0x1 = 0); rw = (r_error cpu_old AND 0x2 \<noteq> 0);
           us = (r_error cpu_old AND 0x4 \<noteq> 0); reserved = (r_error cpu_old AND 0x8 \<noteq> 0);
           ident = (r_error cpu_old AND 0x10 \<noteq> 0) in
       bindE (DebugPrintf (bytes ''Page Fault: '') [] s) (\<lambda>s.
       bindE (DebugPrintf (bytes (if present then ''not present '' else ''protection fault '')) [] s) (\<lambda>s.
       bindE (DebugPrintf (bytes (if rw then ''read access '' else ''write access '')) [] s) (\<lambda>s.
       bindE (DebugPrintf (bytes (if us then ''usermode '' else ''kernelmode '')) [] s) (\<lambda>s.
       bindE (if reserved then DebugPrintf (bytes ''reserved '') [] s else Inr s) (\<lambda>s.
       bindE (if ident then DebugPrintf (bytes ''instruction fetch '') [] s else Inr s) (\<lambda>s.
       bindE (derefE (current_process k)) (\<lambda>_.
       DebugPrintf (bytes ''at 0x%x in process %d'' @ [10])
         [Num cr2, Num (pid (proc_at k (current_process k)))] s)))))))
     else Inr s)"

section \<open>What is printed\<close>

lemma plist_linked: "plist k a ps \<longleftrightarrow> linked (\<lambda>p. p_next (proc_at k p)) a ps"
  by (induction ps arbitrary: a) auto

lemma chain_linked: "chain h a ns \<longleftrightarrow> linked (\<lambda>n. nd_next (nodes h n)) a ns"
  by (induction ns arbitrary: a) auto

definition process_line :: "kernel \<Rightarrow> u32 \<Rightarrow> u8 list" where
  "process_line k p = bytes ''Process: '' @ decimal (pid (proc_at k p)) @ [10]"

definition node_line :: "kheap \<Rightarrow> u32 \<Rightarrow> u8 list" where
  "node_line h n = bytes ''Node: size = '' @ decimal (nd_size (nodes h n)) @ bytes '', start = 0x''
     @ hexadecimal (BLOCK_START n) @ bytes '', MAGIC = 0x'' @ hexadecimal (nd_magic (nodes h n))
     @ bytes '', free = '' @ decimal (nd_free (nodes h n)) @ [10]"

lemma process_line_format:
  "format_loop (bytes ''Process: %d'' @ [10]) [Num (pid (proc_at k p))] = Inr (process_line k p)"
  by (simp add: conversion.simps bytes_simps process_line_def)

lemma node_line_format:
  "format_loop (bytes ''Node: size = %d, start = 0x%x, MAGIC = 0x%x, free = %d'' @ [10])
     [Num (nd_size (nodes h n)), Num (BLOCK_START n), Num (nd_magic (nodes h n)), Num (nd_free (nodes h n))]
   = Inr (node_line h n)"
  by (simp add: conversion.simps bytes_simps node_line_def)

interpretation processes: list_printer "\<lambda>p. p_next (proc_at k p)" "process_line k" "list_loop k" for k
proof
  fix a s
  show "list_loop k a s = (if a = 0 then Some (Inr s)
    else case DebugPuts (process_line k a) s of Inl e \<Rightarrow> Some (Inl e) | Inr s1 \<Rightarrow> list_loop k (p_next (proc_at k a)) s1)"
    by (subst list_loop.simps) (simp only: DebugPrintf_text [OF process_line_format])
qed

interpretation heap_nodes: list_printer "\<lambda>n. nd_next (nodes h n)" "node_line h" "heap_loop h" for h
proof
  fix a s
  show "heap_loop h a s = (if a = 0 then Some (Inr s)
    else case DebugPuts (node_line h a) s of Inl e \<Rightarrow> Some (Inl e) | Inr s1 \<Rightarrow> heap_loop h (nd_next (nodes h a)) s1)"
    by (subst heap_loop.simps) (simp only: DebugPrintf_text [OF node_line_format])
qed

lemma heap_rule_format: "format_loop heap_rule [] = Inr heap_rule"
  using format_plain [of heap_rule "[]" "[]"] by (simp add: heap_rule_def bytes_simps)

text \<open>
  \<open>ListProcesses\<close> prints one line for each process of the list, in its order, and ends.
\<close>

theorem ListProcesses_prints:
  assumes "processes_ok L k ps" "ready_forever (line_status s)"
  shows "\<exists>s'. ListProcesses k s = Inr s' \<and> serial_sent (concat (map (process_line k) ps)) s s'"
  using processes.loop_prints [of k "first_process k" ps s] processes_okD(2) [OF assms(1)]
    DebugPuts_sends_all [OF assms(2)]
  by (simp add: ListProcesses_def plist_linked)

text \<open>
  \<open>PrintHeap\<close> prints one line with size, start, magic number and mark for each block of the heap, in
  the order of their addresses, between two rules, and ends.
\<close>

theorem PrintHeap_prints:
  assumes "heap_inv L h ns" "ready_forever (line_status s)"
  shows "\<exists>s'. PrintHeap L h s = Inr s' \<and> serial_sent (heap_rule @ concat (map (node_line h) ns) @ heap_rule) s s'"
proof -
  have "linked (\<lambda>n. nd_next (nodes h n)) (HEAP_START L) ns" using assms(1) by (simp add: heap_inv_def chain_linked)
  then have "PrintHeap L h s = DebugPuts (heap_rule @ concat (map (node_line h) ns) @ heap_rule) s"
    by (simp add: PrintHeap_def DebugPrintf_text [OF heap_rule_format] heap_nodes.loop_prints)
  then show ?thesis using DebugPuts_sends_all [OF assms(2)] by metis
qed

lemma constant_text: "37 \<notin> set (bytes w) \<Longrightarrow> DebugPrintf (bytes w) [] = DebugPuts (bytes w)"
  using DebugPrintf_text [of "bytes w" "[]"] format_plain [of "bytes w" "[]" "[]"] by (auto simp: fun_eq_iff)

lemma error_line: "format_loop (bytes ''Error at 0x%x'' @ [10]) [Num n] = Inr (bytes ''Error at 0x'' @ hexadecimal n @ [10])"
  "format_loop (bytes ''at 0x%x in process %d'' @ [10]) [Num a, Num n] =
     Inr (bytes ''at 0x'' @ hexadecimal a @ bytes '' in process '' @ decimal n @ [10])"
  by (simp_all add: conversion.simps bytes_simps)

definition page_fault_text :: "kernel \<Rightarrow> u32 \<Rightarrow> cpu \<Rightarrow> u8 list" where
  "page_fault_text k cr2 c =
     (let e = r_error c in
      bytes ''Error at 0x'' @ hexadecimal (eip c) @ [10] @ bytes ''Page Fault: ''
      @ bytes (if bit e 0 then ''protection fault '' else ''not present '')
      @ bytes (if bit e 1 then ''read access '' else ''write access '')
      @ bytes (if bit e 2 then ''usermode '' else ''kernelmode '')
      @ (if bit e 3 then bytes ''reserved '' else []) @ (if bit e 4 then bytes ''instruction fetch '' else [])
      @ bytes ''at 0x'' @ hexadecimal cr2 @ bytes '' in process ''
      @ decimal (pid (proc_at k (current_process k))) @ [10])"

text \<open>
  C39: What the kernel reports of a page fault, from the error code and CR2. The processor sets bit 1 of the code
  for a write; the kernel prints "read access" for it and "write access" otherwise.
\<close>

theorem page_fault_report:
  assumes c: "intr c = 14" and run: "current_process k \<noteq> 0" and line: "ready_forever (line_status s)"
  shows "\<exists>s'. report_exception k cr2 c s = Inr s' \<and> serial_sent (page_fault_text k cr2 c) s s'"
proof -
  let ?e = "r_error c"
  have bits: "?e AND 1 = 0 \<longleftrightarrow> \<not> bit ?e 0" "?e AND 2 = 0 \<longleftrightarrow> \<not> bit ?e 1" "?e AND 4 = 0 \<longleftrightarrow> \<not> bit ?e 2"
    "?e AND 8 = 0 \<longleftrightarrow> \<not> bit ?e 3" "?e AND 0x10 = 0 \<longleftrightarrow> \<not> bit ?e 4"
    using and_exp_eq_0_iff_not_bit [of ?e 0] and_exp_eq_0_iff_not_bit [of ?e 1] and_exp_eq_0_iff_not_bit [of ?e 2]
      and_exp_eq_0_iff_not_bit [of ?e 3] and_exp_eq_0_iff_not_bit [of ?e 4] by simp_all
  have plain: "DebugPrintf (bytes ''Page Fault: '') [] = DebugPuts (bytes ''Page Fault: '')"
    "DebugPrintf (bytes ''not present '') [] = DebugPuts (bytes ''not present '')"
    "DebugPrintf (bytes ''protection fault '') [] = DebugPuts (bytes ''protection fault '')"
    "DebugPrintf (bytes ''read access '') [] = DebugPuts (bytes ''read access '')"
    "DebugPrintf (bytes ''write access '') [] = DebugPuts (bytes ''write access '')"
    "DebugPrintf (bytes ''usermode '') [] = DebugPuts (bytes ''usermode '')"
    "DebugPrintf (bytes ''kernelmode '') [] = DebugPuts (bytes ''kernelmode '')"
    "DebugPrintf (bytes ''reserved '') [] = DebugPuts (bytes ''reserved '')"
    "DebugPrintf (bytes ''instruction fetch '') [] = DebugPuts (bytes ''instruction fetch '')"
    by (rule constant_text, simp add: bytes_simps)+
  have "report_exception k cr2 c s = DebugPuts (page_fault_text k cr2 c) s"
    unfolding report_exception_def page_fault_text_def Let_def using c run
    by (cases "bit ?e 0"; cases "bit ?e 1"; cases "bit ?e 2"; cases "bit ?e 3"; cases "bit ?e 4")
      (simp_all add: DebugPrintf_text [OF error_line(1)] DebugPrintf_text [OF error_line(2)] plain bits bindE_assoc)
  then show ?thesis using DebugPuts_sends_all [OF line] by metis
qed

section \<open>Witnesses\<close>

theorem PrintHeap_prints_witness:
  "\<exists>s'. PrintHeap example_layout fresh_heap ready_serial = Inr s'
     \<and> length (serial_out s') = length (heap_rule @ node_line fresh_heap 0x350000 @ heap_rule)"
  using PrintHeap_prints [OF heap_inv_fresh ready_serial_ok(1)] ready_serial_ok(2) by (auto simp: serial_sent_def)

theorem ListProcesses_prints_witness:
  "\<exists>k s'. pid (proc_at k 0x352040) = 3 \<and> ListProcesses k ready_serial = Inr s'
     \<and> length (serial_out s') = length (process_line k 0x352040)"
proof -
  obtain k :: kernel where k: "processes_ok example_layout k [0x352040]" "pid (proc_at k 0x352040) = 3"
      "p_context (proc_at k 0x352040) = 0x160000" "status (proc_at k 0x352040) = PROCESS_RUNNABLE"
    by (rule example_created) (rule that)
  from ListProcesses_prints [OF k(1) ready_serial_ok(1)] k(2) ready_serial_ok(2) show ?thesis
    by (auto simp: serial_sent_def)
qed

theorem page_fault_report_witness:
  "\<exists>s'. report_exception example_kernel 0x1000 (no_cpu\<lparr>intr := 14, r_error := 6\<rparr>) ready_serial = Inr s'
     \<and> rev (map snd (serial_out s')) = page_fault_text example_kernel 0x1000 (no_cpu\<lparr>intr := 14, r_error := 6\<rparr>)"
proof -
  have "current_process example_kernel \<noteq> 0" by (simp add: example_kernel_def)
  from page_fault_report [OF _ this ready_serial_ok(1), of "no_cpu\<lparr>intr := 14, r_error := 6\<rparr>" "0x1000"] ready_serial_ok(2)
  show ?thesis by (auto simp: serial_sent_def rev_map comp_def)
qed

end
