(* ===== verification/Cpu_Detect.thy ===== *)
theory Cpu_Detect
  imports Debug "HOL-Library.Sublist"
begin

text \<open>
  CPU detection, \<open>hal.x86/cpudet-clean.c\<close>, in which \<open>kprintf\<close> is defined as \<open>DebugPrintf\<close>. The instruction
  \<open>cpuid\<close> is a parameter: what it leaves in the registers EAX, EBX, ECX and EDX for each request.
\<close>

type_synonym cpuid = "u32 \<Rightarrow> u32 \<times> u32 \<times> u32 \<times> u32"

section \<open>Operations\<close>

text \<open>Calls of \<open>kprintf\<close> with a literal format, with and without a line feed at its end, and one after another.\<close>

abbreviation say :: "string \<Rightarrow> varg list \<Rightarrow> serial \<Rightarrow> kerror + serial" where
  "say fmt \<equiv> DebugPrintf (bytes fmt)"

abbreviation say_line :: "string \<Rightarrow> varg list \<Rightarrow> serial \<Rightarrow> kerror + serial" where
  "say_line fmt \<equiv> DebugPrintf (bytes fmt @ [10])"

definition in_order :: "(serial \<Rightarrow> kerror + serial) list \<Rightarrow> serial \<Rightarrow> kerror + serial" where
  "in_order = foldE (\<lambda>f. f)"

definition printregs :: "u32 \<Rightarrow> u32 \<Rightarrow> u32 \<Rightarrow> u32 \<Rightarrow> serial \<Rightarrow> kerror + serial" where
  "printregs a b c d =
     (let str = concat (map (\<lambda>r. map (\<lambda>j. ucast (drop_bit (8 * j) r)) [0..<4]) [a, b, c, d]) :: u8 list
      in say ''%s'' [Str (takeWhile (\<lambda>x. x \<noteq> 0) str)])"

definition Intel :: "string list" where
  "Intel =
     [''Brand ID Not Supported.'',
      ''Intel(R) Celeron(R) processor'',
      ''Intel(R) Pentium(R) III processor'',
      ''Intel(R) Pentium(R) III Xeon(R) processor'',
      ''Intel(R) Pentium(R) III processor'',
      ''Reserved'',
      ''Mobile Intel(R) Pentium(R) III processor-M'',
      ''Mobile Intel(R) Celeron(R) processor'',
      ''Intel(R) Pentium(R) 4 processor'',
      ''Intel(R) Pentium(R) 4 processor'',
      ''Intel(R) Celeron(R) processor'',
      ''Intel(R) Xeon(R) Processor'',
      ''Intel(R) Xeon(R) processor MP'',
      ''Reserved'',
      ''Mobile Intel(R) Pentium(R) 4 processor-M'',
      ''Mobile Intel(R) Pentium(R) Celeron(R) processor'',
      ''Reserved'',
      ''Mobile Genuine Intel(R) processor'',
      ''Intel(R) Celeron(R) M processor'',
      ''Mobile Intel(R) Celeron(R) processor'',
      ''Intel(R) Celeron(R) processor'',
      ''Mobile Geniune Intel(R) processor'',
      ''Intel(R) Pentium(R) M processor'',
      ''Mobile Intel(R) Celeron(R) processor'']"

definition Intel_Other :: "string list" where
  "Intel_Other =
     replicate 3 ''Reserved'' @ [''Intel(R) Celeron(R) processor''] @ replicate 7 ''Reserved''
     @ [''Intel(R) Xeon(R) processor MP''] @ replicate 2 ''Reserved'' @ [''Intel(R) Xeon(R) processor'']
     @ replicate 9 ''Reserved''"

text \<open>A table read without a check of its own; past its end it is an error here.\<close>

definition brand_name :: "string list \<Rightarrow> u32 \<Rightarrow> serial \<Rightarrow> kerror + serial" where
  "brand_name names brand s =
     (if unat brand < length names then say_line ''%s'' [Str (bytes (names ! unat brand))] s else Inl Out_Of_Bounds)"

text \<open>The switches of \<open>do_intel\<close>; where a switch prints nothing the text is empty.\<close>

definition intel_type :: "u32 \<Rightarrow> string" where
  "intel_type t =
     (if t = 0 then ''Original OEM'' else if t = 1 then ''Overdrive'' else if t = 2 then ''Dual-capable''
      else if t = 3 then ''Reserved'' else '''')"

definition intel_family :: "u32 \<Rightarrow> string" where
  "intel_family f =
     (if f = 3 then ''i386'' else if f = 4 then ''i486'' else if f = 5 then ''Pentium''
      else if f = 6 then ''Pentium Pro'' else if f = 15 then ''Pentium 4'' else '''')"

definition intel_model :: "u32 \<Rightarrow> u32 \<Rightarrow> string" where
  "intel_model f m =
     (if f = 4
      then (if m = 0 \<or> m = 1 then ''DX'' else if m = 2 then ''SX'' else if m = 3 then ''487/DX2''
            else if m = 4 then ''SL'' else if m = 5 then ''SX2'' else if m = 7 then ''Write-back enhanced DX2''
            else if m = 8 then ''DX4'' else '''')
      else if f = 5
      then (if m = 1 then ''60/66'' else if m = 2 then ''75-200'' else if m = 3 then ''for 486 system''
            else if m = 4 then ''MMX'' else '''')
      else if f = 6
      then (if m = 1 then ''Pentium Pro'' else if m = 3 then ''Pentium II Model 3''
            else if m = 5 then ''Pentium II Model 5/Xeon/Celeron'' else if m = 6 then ''Celeron''
            else if m = 7 then ''Pentium III/Pentium III Xeon - external L2 cache''
            else if m = 8 then ''Pentium III/Pentium III Xeon - internal L2 cache'' else '''')
      else '''')"

definition print_leaf :: "cpuid \<Rightarrow> u32 \<Rightarrow> serial \<Rightarrow> kerror + serial" where
  "print_leaf cpuid leaf = (case cpuid leaf of (a, b, c, d) \<Rightarrow> printregs a b c d)"

definition intel_brand :: "cpuid \<Rightarrow> u32 \<Rightarrow> u32 \<Rightarrow> serial \<Rightarrow> kerror + serial" where
  "intel_brand cpuid signature brand =
     (let max_eax = fst (cpuid 0x80000000) in
      if max_eax \<ge> 0x80000004
      then in_order
        [say ''Brand: '' [],
         if max_eax \<ge> 0x80000002 then print_leaf cpuid 0x80000002 else Inr,
         if max_eax \<ge> 0x80000003 then print_leaf cpuid 0x80000003 else Inr,
         if max_eax \<ge> 0x80000004 then print_leaf cpuid 0x80000004 else Inr,
         say_line '''' []]
      else if brand > 0
      then in_order
        [say ''Brand %d - '' [Num brand],
         if brand < 0x18
         then (if signature = 0x6B1 \<or> signature = 0xF13 then brand_name Intel_Other brand else brand_name Intel brand)
         else say_line ''Reserved'' []]
      else Inr)"

definition do_intel :: "cpuid \<Rightarrow> serial \<Rightarrow> kerror + serial" where
  "do_intel cpuid =
     (case cpuid 1 of (a, b, _, _) \<Rightarrow>
       let model = drop_bit 4 a AND 0xf; family = drop_bit 8 a AND 0xf; ty = drop_bit 12 a AND 0x3;
           brand = b AND 0xff; stepping = a AND 0xf; reserved = drop_bit 14 a in
       in_order
         [say_line ''Intel Specific Features:'' [],
          say ''Type %d - '' [Num ty], say (intel_type ty) [], say_line '''' [],
          say ''Family %d - '' [Num family], say (intel_family family) [], say_line '''' [],
          if family = 15 then say_line ''Extended family %d'' [Num (drop_bit 20 a AND 0xff)] else Inr,
          say ''Model %d - '' [Num model], say (intel_model family model) [], say_line '''' [],
          intel_brand cpuid a brand,
          say_line ''Stepping: %d Reserved: %d'' [Num stepping, Num reserved]])"

definition amd_model :: "u32 \<Rightarrow> u32 \<Rightarrow> serial \<Rightarrow> kerror + serial" where
  "amd_model f m =
     (if f = 4 then say ''486 Model %d'' [Num m]
      else if f = 5
      then (if m \<in> {0, 1, 2, 3, 6, 7} then say ''K6 Model %d'' [Num m]
            else if m = 8 then say ''K6-2 Model 8'' []
            else if m = 9 then say ''K6-III Model 9'' []
            else say ''K5/K6 Model %d'' [Num m])
      else if f = 6
      then (if m \<in> {1, 2, 4} then say ''Athlon Model %d'' [Num m]
            else if m = 3 then say ''Duron Model 3'' []
            else if m = 6 then say ''Athlon MP/Mobile Athlon Model 6'' []
            else if m = 7 then say ''Mobile Duron Model 7'' []
            else say ''Duron/Athlon Model %d'' [Num m])
      else Inr)"

definition do_amd :: "cpuid \<Rightarrow> serial \<Rightarrow> kerror + serial" where
  "do_amd cpuid =
     (let a = fst (cpuid 1); model = drop_bit 4 a AND 0xf; family = drop_bit 8 a AND 0xf;
          stepping = a AND 0xf; reserved = drop_bit 12 a; extended = fst (cpuid 0x80000000) in
      in_order
        ([say_line ''AMD Specific Features:'' [],
          say ''Family: %d Model: %d ['' [Num family, Num model], amd_model family model, say_line '']'' []]
         @ (if extended = 0 then []
            else
              [if extended \<ge> 0x80000002
               then in_order ([say ''Detected Processor Name: '' []]
                  @ map (print_leaf cpuid) [0x80000002, 0x80000003, 0x80000004] @ [say_line '''' []])
               else Inr,
               if extended \<ge> 0x80000007
               then (case cpuid 0x80000007 of (_, _, _, d) \<Rightarrow>
                 if d AND 1 \<noteq> 0 then say_line ''Temperature Sensing Diode Detected!'' [] else Inr)
               else Inr,
               say_line ''Stepping: %d Reserved: %d'' [Num stepping, Num reserved]])))"

definition detect_cpu :: "cpuid \<Rightarrow> serial \<Rightarrow> kerror + serial" where
  "detect_cpu cpuid =
     (case cpuid 0 of (_, b, _, _) \<Rightarrow>
       if b = 0x756e6547 then do_intel cpuid
       else if b = 0x68747541 then do_amd cpuid
       else say_line ''Unknown x86 CPU Detected'' [])"

section \<open>What is printed\<close>

text \<open>\<open>prints f w\<close>: the action \<open>f\<close> sends the bytes \<open>w\<close>; \<open>printer f\<close>: it sends some bytes and fails never.\<close>

definition prints :: "(serial \<Rightarrow> kerror + serial) \<Rightarrow> u8 list \<Rightarrow> bool" where
  "prints f w \<longleftrightarrow> f = DebugPuts w"

definition printer :: "(serial \<Rightarrow> kerror + serial) \<Rightarrow> bool" where
  "printer f \<longleftrightarrow> (\<exists>w. prints f w)"

lemma prints_printer: "prints f w \<Longrightarrow> printer f"
  by (auto simp: printer_def)

lemma prints_format: "format_loop fmt as = Inr w \<Longrightarrow> prints (DebugPrintf fmt as) w"
  by (simp add: prints_def DebugPrintf_text)

lemma prints_plain: "37 \<notin> set w \<Longrightarrow> prints (DebugPrintf w []) w"
  using format_plain [of w "[]" "[]"] by (intro prints_format) simp

lemma in_order_simps: "in_order [] = Inr" "in_order (f # fs) = (\<lambda>s. bindE (f s) (in_order fs))"
  "in_order (fs @ gs) = (\<lambda>s. bindE (in_order fs s) (in_order gs))"
  by (simp_all add: in_order_def fun_eq_iff foldE_append)

lemma prints_nothing: "prints Inr []" "prints (in_order []) []"
  by (simp_all add: prints_def in_order_simps)

lemma prints_Cons: "prints f w \<Longrightarrow> prints (in_order fs) ws \<Longrightarrow> prints (in_order (f # fs)) (w @ ws)"
  by (simp add: prints_def in_order_simps)

lemma prints_append: "prints (in_order fs) v \<Longrightarrow> prints (in_order gs) w \<Longrightarrow> prints (in_order (fs @ gs)) (v @ w)"
  by (simp add: prints_def in_order_simps)

lemma printer_in_order: "\<forall>f \<in> set fs. printer f \<Longrightarrow> printer (in_order fs)"
proof (induction fs)
  case (Cons f fs)
  then show ?case using prints_Cons by (force simp: printer_def)
qed (auto simp: printer_def intro: prints_nothing)

lemma prints_number:
  "37 \<notin> set w1 \<Longrightarrow> 37 \<notin> set w2 \<Longrightarrow>
    prints (DebugPrintf (w1 @ [37, 100] @ w2) [Num n]) (w1 @ decimal n @ w2)"
  using format_plain [of w1 "[37, 100] @ w2" "[Num n]"] format_plain [of w2 "[]" "[]"]
  by (intro prints_format) (simp add: conversion.simps bytes_simps)

lemma brand_name_prints:
  assumes "unat brand < length names"
  shows "printer (brand_name names brand)"
proof -
  have "brand_name names brand = say_line ''%s'' [Str (bytes (names ! unat brand))]"
    using assms by (simp add: brand_name_def fun_eq_iff)
  moreover have "prints (say_line ''%s'' [Str (bytes (names ! unat brand))]) (bytes (names ! unat brand) @ [10])"
    by (rule prints_format) (simp add: conversion.simps bytes_simps)
  ultimately show ?thesis by (auto simp: printer_def)
qed

definition brand_bytes :: "u32 \<times> u32 \<times> u32 \<times> u32 \<Rightarrow> u8 list" where
  "brand_bytes = (\<lambda>(a, b, c, d). takeWhile (\<lambda>x. x \<noteq> 0)
     (concat (map (\<lambda>r. map (\<lambda>j. ucast (drop_bit (8 * j) r)) [0..<4]) [a, b, c, d])))"

lemma prints_leaf: "prints (print_leaf cpuid leaf) (brand_bytes (cpuid leaf))"
  unfolding print_leaf_def printregs_def brand_bytes_def Let_def
  by (cases "cpuid leaf") (auto intro!: prints_format simp: conversion.simps bytes_simps simp del: upt_rec_numeral)

definition processor_name :: "cpuid \<Rightarrow> u8 list" where
  "processor_name cpuid = brand_bytes (cpuid 0x80000002) @ brand_bytes (cpuid 0x80000003) @ brand_bytes (cpuid 0x80000004)"

lemmas printer_text = prints_printer [OF prints_plain] prints_printer [OF prints_nothing(1)]
  prints_printer [OF prints_leaf]

lemma percent_bytes [simp]: "37 \<in> set (bytes w) \<longleftrightarrow> CHR ''%'' \<in> set w"
proof -
  have "of_char c = (37 :: u8) \<longleftrightarrow> c = CHR ''%''" for c
    by (cases c) (auto simp: of_char_def split: if_splits)
  then show ?thesis by (auto simp: bytes_def image_iff eq_commute)
qed

lemma intel_texts: "printer (say (intel_type a) [])" "printer (say (intel_family a) [])"
  "printer (say (intel_model a b) [])"
  by (rule printer_text(1), simp add: bytes_simps intel_type_def intel_family_def intel_model_def)+

lemma number_texts:
  "printer (say ''Type %d - '' [Num n])" "printer (say ''Family %d - '' [Num n])" "printer (say ''Model %d - '' [Num n])"
  "printer (say ''Brand %d - '' [Num n])" "printer (say_line ''Extended family %d'' [Num n])"
  "printer (say ''486 Model %d'' [Num n])" "printer (say ''K6 Model %d'' [Num n])"
  "printer (say ''K5/K6 Model %d'' [Num n])" "printer (say ''Athlon Model %d'' [Num n])"
  "printer (say ''Duron/Athlon Model %d'' [Num n])" "printer (say ''Family: %d Model: %d ['' [Num n, Num k])"
  "printer (say_line ''Stepping: %d Reserved: %d'' [Num n, Num k])"
  by (rule prints_printer [OF prints_format], simp add: conversion.simps bytes_simps)+

lemma intel_brand_printer:
  assumes "brand AND 0xff = brand"
  shows "printer (intel_brand cpuid signature brand)"
proof -
  have "unat brand < 24" if "brand < 0x18" using that by (simp add: word_less_nat_alt)
  then have "brand < 0x18 \<Longrightarrow> printer (brand_name Intel brand) \<and> printer (brand_name Intel_Other brand)"
    by (simp add: brand_name_prints Intel_def Intel_Other_def)
  then show ?thesis
    unfolding intel_brand_def Let_def
    by (auto intro!: printer_in_order printer_text number_texts)
qed

lemma line_feed: "prints (in_order [say_line '''' []]) [10]"
  using prints_Cons [OF prints_plain prints_nothing(2), of "bytes '''' @ [10]"] by (simp add: bytes_simps)

lemma intel_brand_prints:
  assumes "0x80000004 \<le> fst (cpuid 0x80000000)"
  shows "prints (intel_brand cpuid signature brand) (bytes ''Brand: '' @ processor_name cpuid @ [10])"
proof -
  have "0x80000002 \<le> fst (cpuid 0x80000000)" "0x80000003 \<le> fst (cpuid 0x80000000)"
    by (rule order.trans [OF _ assms], simp)+
  then have "intel_brand cpuid signature brand =
      in_order (say ''Brand: '' [] # map (print_leaf cpuid) [0x80000002, 0x80000003, 0x80000004] @ [say_line '''' []])"
    using assms by (simp add: intel_brand_def)
  then show ?thesis using line_feed
    by (simp add: processor_name_def prints_Cons prints_plain prints_leaf)
qed

text \<open>An action that says a line first and prints more later says something that begins with it.\<close>

lemma printer_first:
  assumes "37 \<notin> set w" "\<forall>f \<in> set fs. printer f"
  shows "\<exists>v. prints (in_order (DebugPrintf w [] # fs)) (w @ v)"
  using prints_Cons [OF prints_plain [OF assms(1)]] printer_in_order [OF assms(2)] by (auto simp: printer_def)

lemma printer_within:
  assumes "37 \<notin> set w" "\<forall>f \<in> set fs. printer f" "\<forall>f \<in> set gs. printer f" "prints f (pre @ x @ post)"
  shows "\<exists>v. prints (in_order (DebugPrintf w [] # fs @ f # gs)) (w @ v) \<and> sublist x v"
proof -
  obtain u where u: "prints (in_order fs) u" using printer_in_order [OF assms(2)] by (auto simp: printer_def)
  obtain y where y: "prints (in_order gs) y" using printer_in_order [OF assms(3)] by (auto simp: printer_def)
  have "prints (in_order (DebugPrintf w [] # fs @ f # gs)) (w @ u @ (pre @ x @ post) @ y)"
    by (intro prints_Cons prints_append prints_plain u y assms(1,4))
  moreover have "sublist x ((u @ pre) @ x @ (post @ y))" by (rule sublist_appendI)
  ultimately show ?thesis by (intro exI [of _ "u @ pre @ x @ post @ y"]) simp
qed

lemma do_intel_prints:
  "\<exists>v. prints (do_intel cpuid) (bytes ''Intel Specific Features:'' @ [10] @ v)
     \<and> (0x80000004 \<le> fst (cpuid 0x80000000) \<longrightarrow> sublist (processor_name cpuid) v)"
proof -
  obtain a b c d where leaf: "cpuid 1 = (a, b, c, d)" by (cases "cpuid 1")
  let ?model = "drop_bit 4 a AND 0xf" and ?family = "drop_bit 8 a AND 0xf" and ?ty = "drop_bit 12 a AND 0x3"
  let ?brand = "intel_brand cpuid a (b AND 0xff)"
  define fs where "fs = [say ''Type %d - '' [Num ?ty], say (intel_type ?ty) [], say_line '''' [],
          say ''Family %d - '' [Num ?family], say (intel_family ?family) [], say_line '''' [],
          if ?family = 15 then say_line ''Extended family %d'' [Num (drop_bit 20 a AND 0xff)] else Inr,
          say ''Model %d - '' [Num ?model], say (intel_model ?family ?model) [], say_line '''' []]"
  define gs where "gs = [say_line ''Stepping: %d Reserved: %d'' [Num (a AND 0xf), Num (drop_bit 14 a)]]"
  have run: "do_intel cpuid = in_order (say_line ''Intel Specific Features:'' [] # fs @ ?brand # gs)"
    by (simp add: do_intel_def leaf Let_def fs_def gs_def)
  have fs: "\<forall>f \<in> set fs. printer f" and gs: "\<forall>f \<in> set gs. printer f"
    by (simp_all add: fs_def gs_def number_texts intel_texts printer_text)
  have w: "37 \<notin> set (bytes ''Intel Specific Features:'' @ [10])" by simp
  show ?thesis
  proof (cases "0x80000004 \<le> fst (cpuid 0x80000000)")
    case True
    note brand = intel_brand_prints [of cpuid, OF True, of a "b AND 0xff"]
    from printer_within [OF w fs gs brand] show ?thesis unfolding run by auto
  next
    case False
    have "printer ?brand" by (rule intel_brand_printer) (simp add: and.assoc)
    with fs gs have "\<forall>f \<in> set (fs @ ?brand # gs). printer f" by auto
    from printer_first [OF w this] False show ?thesis unfolding run by simp
  qed
qed

lemma amd_model_printer: "printer (amd_model f m)"
  by (simp add: amd_model_def number_texts printer_text)

lemma do_amd_prints:
  "\<exists>v. prints (do_amd cpuid) (bytes ''AMD Specific Features:'' @ [10] @ v)
     \<and> (0x80000002 \<le> fst (cpuid 0x80000000) \<longrightarrow> sublist (processor_name cpuid) v)"
proof -
  let ?a = "fst (cpuid 1)" and ?ext = "fst (cpuid 0x80000000)"
  define name where "name = in_order ([say ''Detected Processor Name: '' []]
                  @ map (print_leaf cpuid) [0x80000002, 0x80000003, 0x80000004] @ [say_line '''' []])"
  define fs where "fs = [say ''Family: %d Model: %d ['' [Num (drop_bit 8 ?a AND 0xf), Num (drop_bit 4 ?a AND 0xf)],
      amd_model (drop_bit 8 ?a AND 0xf) (drop_bit 4 ?a AND 0xf), say_line '']'' []]"
  define gs where "gs = [if ?ext \<ge> 0x80000007
               then (case cpuid 0x80000007 of (_, _, _, d) \<Rightarrow>
                 if d AND 1 \<noteq> 0 then say_line ''Temperature Sensing Diode Detected!'' [] else Inr)
               else Inr, say_line ''Stepping: %d Reserved: %d'' [Num (?a AND 0xf), Num (drop_bit 12 ?a)]]"
  have fs: "\<forall>f \<in> set fs. printer f" and gs: "\<forall>f \<in> set gs. printer f"
    by (simp_all add: fs_def gs_def number_texts printer_text amd_model_printer split: prod.split)
  have w: "37 \<notin> set (bytes ''AMD Specific Features:'' @ [10])" by simp
  have name: "prints name (bytes ''Detected Processor Name: '' @ processor_name cpuid @ [10])"
    using line_feed by (simp add: name_def processor_name_def prints_Cons prints_plain prints_leaf)
  consider "?ext = 0" | "?ext \<noteq> 0" "?ext < 0x80000002" | "0x80000002 \<le> ?ext" by fastforce
  then show ?thesis
  proof cases
    case 1
    then have "do_amd cpuid = in_order (say_line ''AMD Specific Features:'' [] # fs)"
      by (simp add: do_amd_def Let_def fs_def gs_def name_def)
    with printer_first [OF w fs] 1 show ?thesis by simp
  next
    case 2
    then have low: "\<not> 0x80000002 \<le> ?ext" by simp
    have "\<not> 0x80000007 \<le> ?ext"
    proof
      assume "0x80000007 \<le> ?ext"
      then have "0x80000002 \<le> ?ext" by (rule order.trans [rotated]) simp
      with low show False by simp
    qed
    with 2 low have "do_amd cpuid = in_order (say_line ''AMD Specific Features:'' [] # fs @ Inr # gs)"
      by (simp add: do_amd_def Let_def fs_def gs_def name_def)
    moreover have "\<forall>f \<in> set (fs @ Inr # gs). printer f" using fs gs printer_text(2) by auto
    ultimately show ?thesis using printer_first [OF w, of "fs @ Inr # gs"] 2 by simp
  next
    case 3
    then have "?ext \<noteq> 0" by auto
    with 3 have "do_amd cpuid = in_order (say_line ''AMD Specific Features:'' [] # fs @ name # gs)"
      by (simp add: do_amd_def Let_def fs_def gs_def name_def)
    with printer_within [OF w fs gs name] show ?thesis by auto
  qed
qed

definition vendor_text :: "cpuid \<Rightarrow> u8 list" where
  "vendor_text cpuid =
     (let b = fst (snd (cpuid 0)) in
      if b = 0x756e6547 then bytes ''Intel Specific Features:'' @ [10]
      else if b = 0x68747541 then bytes ''AMD Specific Features:'' @ [10]
      else bytes ''Unknown x86 CPU Detected'' @ [10])"

definition has_name :: "cpuid \<Rightarrow> bool" where
  "has_name cpuid \<longleftrightarrow> fst (snd (cpuid 0)) \<in> {0x756e6547, 0x68747541} \<and> 0x80000004 \<le> fst (cpuid 0x80000000)"

lemma detect_cpu_prints:
  "\<exists>v. prints (detect_cpu cpuid) (vendor_text cpuid @ v) \<and> (has_name cpuid \<longrightarrow> sublist (processor_name cpuid) v)"
proof -
  obtain a b c d where leaf: "cpuid 0 = (a, b, c, d)" by (cases "cpuid 0")
  have name: "0x80000002 \<le> fst (cpuid 0x80000000)" if "0x80000004 \<le> fst (cpuid 0x80000000)"
    by (rule order.trans [OF _ that]) simp
  consider "b = 0x756e6547" | "b = 0x68747541" | "b \<noteq> 0x756e6547" "b \<noteq> 0x68747541" by blast
  then show ?thesis
  proof cases
    case 1
    then show ?thesis using do_intel_prints [of cpuid]
      by (auto simp: detect_cpu_def vendor_text_def has_name_def leaf)
  next
    case 2
    then show ?thesis using do_amd_prints [of cpuid] name
      by (auto simp: detect_cpu_def vendor_text_def has_name_def leaf)
  next
    case 3
    then have "prints (detect_cpu cpuid) (vendor_text cpuid @ [])"
      by (simp add: detect_cpu_def vendor_text_def leaf prints_plain)
    moreover have "\<not> has_name cpuid" using 3 by (simp add: has_name_def leaf)
    ultimately show ?thesis by (intro exI [of _ "[]"]) simp
  qed
qed

text \<open>
  C40: Whatever the processor answers to \<open>cpuid\<close>, detection reads no table out of bounds, returns and begins
  with the vendor; for an Intel or AMD processor that has a name (leaves \<open>0x80000002\<close> to \<open>0x80000004\<close>)
  the name is part of the output, its bytes in the order of the registers.
\<close>

theorem detect_cpu_reports:
  assumes "ready_forever (line_status s)"
  shows "\<exists>s' v. detect_cpu cpuid s = Inr s' \<and> serial_sent (vendor_text cpuid @ v) s s'
    \<and> (has_name cpuid \<longrightarrow> sublist (processor_name cpuid) v)"
proof -
  obtain v where v: "detect_cpu cpuid = DebugPuts (vendor_text cpuid @ v)"
      "has_name cpuid \<longrightarrow> sublist (processor_name cpuid) v"
    using detect_cpu_prints by (auto simp: prints_def)
  obtain s' where "DebugPuts (vendor_text cpuid @ v) s = Inr s'" "serial_sent (vendor_text cpuid @ v) s s'"
    using DebugPuts_sends_all [OF assms] by blast
  with v show ?thesis by auto
qed

section \<open>Witness\<close>

text \<open>A processor with the name "ABCD" in its first name leaf.\<close>

definition example_cpuid :: cpuid where
  "example_cpuid leaf =
     (if leaf = 0 then (1, 0x756e6547, 0, 0)
      else if leaf = 0x80000000 then (0x80000004, 0, 0, 0)
      else if leaf = 0x80000002 then (0x44434241, 0, 0, 0)
      else (0, 0, 0, 0))"

theorem detect_cpu_reports_witness:
  "\<exists>s' v. detect_cpu example_cpuid ready_serial = Inr s' \<and> sublist [65, 66, 67, 68] v
     \<and> map snd (rev (serial_out s')) = bytes ''Intel Specific Features:'' @ [10] @ v"
proof -
  have "processor_name example_cpuid = [65, 66, 67, 68]"
    by (simp add: processor_name_def brand_bytes_def example_cpuid_def upt_conv_Cons)
  moreover have "has_name example_cpuid" by (simp add: has_name_def example_cpuid_def)
  moreover have "vendor_text example_cpuid = bytes ''Intel Specific Features:'' @ [10]"
    by (simp add: vendor_text_def example_cpuid_def)
  ultimately show ?thesis
    using detect_cpu_reports [OF ready_serial_ok(1), of example_cpuid] ready_serial_ok(2)
    by (auto simp: serial_sent_def rev_map comp_def)
qed

end
