(* ===== verification/Ramdisk.thy ===== *)
theory Ramdisk
  imports Kheap Phys_Mem
begin

text \<open>
  The RAM disk, \<open>ramdisk.c\<close>: a tar archive in memory. Decoding the size field, walking the archive,
  the table of files, and looking a file up by its path. The server loop is in \<open>Ramdisk_Server\<close>; what
  the look-ups print on the serial port is left out.
\<close>

section \<open>State and operations\<close>

text \<open>
  \<open>files\<close> is the pointer to the table, \<open>file_table\<close> what it points to. Headers and names are bytes of
  memory; \<open>filename\<close> is at offset 0 of a header and \<open>size\<close> at offset 124.
\<close>

record ramdisk =
  files :: u32
  file_table :: "u32 list"
  first_file :: u32
  fileno :: u32

definition header_size :: "u32 \<Rightarrow> u32" where
  "header_size h = h + 124"

text \<open>The eleven octal digits of a size field, from the last to the first; \<open>char\<close> is signed.\<close>

definition get_size :: "memory \<Rightarrow> u32 \<Rightarrow> u32" where
  "get_size m a =
     fst (fold (\<lambda>j (n, count). (n + (scast (m (a + of_nat (j - 1))) - 48) * count, count * 8))
            (rev [1..<12]) (0, 1))"

definition next_header :: "memory \<Rightarrow> u32 \<Rightarrow> u32" where
  "next_header m address =
     (let sz = get_size m (header_size address);
          address' = address + (sz div 512 + 1) * 512
      in if sz mod 512 \<noteq> 0 then address' + 512 else address')"

partial_function (option) count_loop :: "memory \<Rightarrow> u32 \<Rightarrow> u32 \<Rightarrow> u32 option" where
  "count_loop m address i =
     (if m address \<noteq> 0 then count_loop m (next_header m address) (i + 1) else Some i)"

definition count_files :: "memory \<Rightarrow> ramdisk \<Rightarrow> kerror + u32" where
  "count_files m rd = (case count_loop m (first_file rd) 0 of None \<Rightarrow> Inl Diverges | Some i \<Rightarrow> Inr i)"

partial_function (option) add_loop :: "memory \<Rightarrow> u32 \<Rightarrow> u32 list \<Rightarrow> u32 list option" where
  "add_loop m address acc =
     (if m address \<noteq> 0 then add_loop m (next_header m address) (acc @ [address]) else Some acc)"

definition add_files_to_list :: "memory \<Rightarrow> ramdisk \<Rightarrow> kerror + ramdisk" where
  "add_files_to_list m rd =
     bindE (assertE (files rd \<noteq> 0) ''files != NULL'') (\<lambda>_.
     case add_loop m (first_file rd) [] of
       None \<Rightarrow> Inl Diverges
     | Some hs \<Rightarrow> Inr (rd\<lparr>file_table := hs\<rparr>))"

text \<open>\<open>strcmp\<close> of a C string \<open>name\<close>, the bytes before its terminating zero, with the one at \<open>a\<close>.\<close>

fun string_at :: "memory \<Rightarrow> u32 \<Rightarrow> u8 list \<Rightarrow> bool" where
  "string_at m a [] \<longleftrightarrow> m a = 0"
| "string_at m a (c # cs) \<longleftrightarrow> m a = c \<and> string_at m (a + 1) cs"

definition lookup :: "memory \<Rightarrow> ramdisk \<Rightarrow> u8 list \<Rightarrow> u32 option" where
  "lookup m rd name = find (\<lambda>h. string_at m h name) (take (unat (fileno rd)) (file_table rd))"

definition RamDiskFileContent :: "memory \<Rightarrow> ramdisk \<Rightarrow> u8 list \<Rightarrow> u32" where
  "RamDiskFileContent m rd name =
     (if files rd = 0 then 0
      else case lookup m rd name of Some h \<Rightarrow> h + 512 | None \<Rightarrow> 0)"

definition GetRamDiskFile :: "memory \<Rightarrow> ramdisk \<Rightarrow> u8 list \<Rightarrow> u32" where
  "GetRamDiskFile m rd name =
     (if files rd = 0 then 0 else case lookup m rd name of Some h \<Rightarrow> h | None \<Rightarrow> 0)"

text \<open>
  The path is built in a 512-byte array with no check; a path that does not fit, with its terminating
  zero, is written past the end. \<open>46\<close> is a dot, \<open>47\<close> a slash.
\<close>

definition fits_path :: "u8 list \<Rightarrow> kerror + u8 list" where
  "fits_path s = (if length s < 512 then Inr s else Inl Out_Of_Bounds)"

definition rel_path :: "u8 list \<Rightarrow> u8 list" where
  "rel_path path = [46] @ (if length path > 1 then path else [])"

definition GetRamDiskFileByName :: "memory \<Rightarrow> ramdisk \<Rightarrow> u8 list \<Rightarrow> u8 list \<Rightarrow> kerror + u32" where
  "GetRamDiskFileByName m rd path name =
     bindE (fits_path (rel_path path @ [47] @ name)) (\<lambda>p. Inr (GetRamDiskFile m rd p))"

definition RamDiskFileContentByName :: "memory \<Rightarrow> ramdisk \<Rightarrow> u8 list \<Rightarrow> u8 list \<Rightarrow> kerror + u32" where
  "RamDiskFileContentByName m rd path name =
     bindE (fits_path (rel_path path @ [47] @ name)) (\<lambda>p. Inr (RamDiskFileContent m rd p))"

definition GetRamDiskFileRel :: "memory \<Rightarrow> ramdisk \<Rightarrow> u8 list \<Rightarrow> kerror + u32" where
  "GetRamDiskFileRel m rd path = bindE (fits_path (rel_path path)) (\<lambda>p. Inr (GetRamDiskFile m rd p))"

definition RamDiskFileContentRel :: "memory \<Rightarrow> ramdisk \<Rightarrow> u8 list \<Rightarrow> kerror + u32" where
  "RamDiskFileContentRel m rd path = bindE (fits_path (rel_path path)) (\<lambda>p. Inr (RamDiskFileContent m rd p))"

definition InitRamdisk :: "layout \<Rightarrow> memory \<Rightarrow> u32 \<Rightarrow> ramdisk \<Rightarrow> kheap \<Rightarrow> kerror + ramdisk \<times> kheap" where
  "InitRamdisk L m addr rd h =
     bindE (assertE (addr \<noteq> 0) ''addr != 0'') (\<lambda>_.
     let rd1 = rd\<lparr>first_file := addr\<rparr> in
     bindE (count_files m rd1) (\<lambda>n.
     let rd2 = rd1\<lparr>fileno := n\<rparr> in
     bindE (assertE (n \<noteq> 0) ''fileno != 0'') (\<lambda>_.
     bindE (kmalloc L (4 * n) h) (\<lambda>(p, h').
     bindE (add_files_to_list m (rd2\<lparr>files := p\<rparr>)) (\<lambda>rd3.
     Inr (rd3, h'))))))"

section \<open>The size field\<close>

text \<open>The field tar writes for a size: eleven octal digits.\<close>

fun octal :: "nat \<Rightarrow> nat \<Rightarrow> u8 list" where
  "octal 0 n = []"
| "octal (Suc k) n = octal k (n div 8) @ [of_nat (48 + n mod 8)]"

lemma length_octal [simp]: "length (octal k n) = k"
  by (induction k arbitrary: n) auto

lemma octal_digit: "scast (of_nat (48 + n mod 8) :: u8) - (48 :: u32) = of_nat (n mod 8)"
proof -
  have "n mod 8 = 0 \<or> n mod 8 = 1 \<or> n mod 8 = 2 \<or> n mod 8 = 3 \<or> n mod 8 = 4 \<or> n mod 8 = 5
      \<or> n mod 8 = 6 \<or> n mod 8 = 7" by linarith
  then show ?thesis by (elim disjE) simp_all
qed

lemma octal_fold:
  assumes "\<And>i. i < k \<Longrightarrow> m (a + of_nat i) = octal k n ! i"
  shows "fst (fold (\<lambda>j (s, count). (s + (scast (m (a + of_nat (j - 1))) - 48) * count, count * 8))
            (rev [1..<Suc k]) (s, c)) = (s :: u32) + c * of_nat (n mod 8 ^ k)"
  using assms
proof (induction k arbitrary: n s c)
  case (Suc k)
  have "octal (Suc k) n ! k = of_nat (48 + n mod 8)" by (simp add: nth_append)
  then have last: "scast (m (a + of_nat k)) - 48 = (of_nat (n mod 8) :: u32)"
    using Suc.prems [of k] octal_digit by simp
  have rest: "m (a + of_nat i) = octal k (n div 8) ! i" if "i < k" for i
    using Suc.prems [of i] that by (simp add: nth_append)
  have "n mod 8 ^ Suc k = n mod 8 + 8 * (n div 8 mod 8 ^ k)" by (simp add: mod_mult2_eq)
  then have "(of_nat (n mod 8 ^ Suc k) :: u32) = of_nat (n mod 8) + 8 * of_nat (n div 8 mod 8 ^ k)"
    by simp
  moreover have "rev [1..<Suc (Suc k)] = Suc k # rev [1..<Suc k]" by simp
  ultimately show ?case using Suc.IH [OF rest] last by (simp add: algebra_simps)
qed (simp add: one_word_def)

text \<open>
  Reading a size field that tar wrote returns the size: for every size below 4 GB, the eleven octal
  digits decode to exactly that number.
\<close>

theorem get_size_roundtrip:
  assumes "n < 2 ^ 32" "\<forall>i < 11. m (a + of_nat i) = octal 11 n ! i"
  shows "unat (get_size m a) = n"
proof -
  have "get_size m a = of_nat (n mod 8 ^ 11)"
    using octal_fold [of 11 m a n 0 1] assms(2) by (simp add: get_size_def)
  then show ?thesis using assms(1) by (simp add: unat_of_nat)
qed

theorem get_size_roundtrip_witness:
  "unat (get_size (\<lambda>a. (octal 11 1000 @ [0]) ! unat a) 0) = 1000"
  by (rule get_size_roundtrip) (auto simp: nth_append unat_of_nat)

section \<open>Walking the archive\<close>

fun archive :: "memory \<Rightarrow> u32 \<Rightarrow> u32 list \<Rightarrow> bool" where
  "archive m a [] \<longleftrightarrow> m a = 0"
| "archive m a (h # hs) \<longleftrightarrow> a = h \<and> m h \<noteq> 0 \<and> archive m (next_header m h) hs"

lemma count_loop_archive: "archive m a hs \<Longrightarrow> count_loop m a i = Some (i + of_nat (length hs))"
proof (induction hs arbitrary: a i)
  case (Cons h hs)
  then show ?case by (simp add: count_loop.simps [of m h] algebra_simps)
qed (simp add: count_loop.simps)

lemma add_loop_archive: "archive m a hs \<Longrightarrow> add_loop m a acc = Some (acc @ hs)"
proof (induction hs arbitrary: a acc)
  case (Cons h hs)
  then show ?case by (simp add: add_loop.simps [of m h])
qed (simp add: add_loop.simps)

text \<open>
  A walk that ends has visited an archive. Its headers differ, for the walk depends on the address alone, and
  lie a multiple of 512 apart, so there are at most \<open>2^23\<close>.
\<close>

lemma archive_of_count_loop:
  assumes "count_loop m a i = Some j"
  shows "\<exists>hs. archive m a hs \<and> j = i + of_nat (length hs)"
proof (rule count_loop.raw_induct
    [where P = "\<lambda>m a i j. \<exists>hs. archive m a hs \<and> j = i + of_nat (length hs)", OF _ assms])
  fix f and m :: memory and a i j :: u32
  assume IH: "\<And>m a i j. f m a i = Some j \<Longrightarrow> \<exists>hs. archive m a hs \<and> j = i + of_nat (length hs)"
    and eq: "(if m a \<noteq> 0 then f m (next_header m a) (i + 1) else Some i) = Some j"
  show "\<exists>hs. archive m a hs \<and> j = i + of_nat (length hs)"
  proof (cases "m a = 0")
    case True
    then show ?thesis using eq by (intro exI [of _ "[]"]) simp
  next
    case False
    then obtain hs where "archive m (next_header m a) hs" "j = i + 1 + of_nat (length hs)"
      using IH eq by fastforce
    then show ?thesis using False by (intro exI [of _ "a # hs"]) simp
  qed
qed

lemma archive_unique: "archive m a hs \<Longrightarrow> archive m a ks \<Longrightarrow> hs = ks"
proof (induction hs arbitrary: a ks)
  case Nil
  then show ?case by (cases ks) auto
next
  case (Cons h hs)
  then show ?case by (cases ks) auto
qed

lemma archive_tail: "archive m a (us @ h # vs) \<Longrightarrow> archive m h (h # vs)"
proof (induction us arbitrary: a)
  case Nil
  then show ?case by auto
qed auto

lemma archive_distinct: "archive m a hs \<Longrightarrow> distinct hs"
proof (induction hs arbitrary: a)
  case (Cons h hs)
  have "h \<notin> set hs"
  proof
    assume "h \<in> set hs"
    then obtain us vs where hs: "hs = us @ h # vs" using split_list by metis
    then have "archive m h (h # vs)" using archive_tail [of m a "h # us" h vs] Cons.prems by simp
    moreover have "archive m h (h # hs)" using Cons.prems by simp
    ultimately show False using archive_unique hs by fastforce
  qed
  then show ?case using Cons by auto
qed simp

lemma next_header_mod:
  fixes a :: u32
  shows "unat (next_header m a) mod 512 = unat a mod 512"
proof -
  have step: "unat (b + k * 512) mod 512 = unat b mod 512" for b k :: u32
  proof -
    have "unat (k * 512) mod 512 = unat k * 512 mod 512" by (simp add: unat_word_ariths mod_mod_cancel)
    then have "unat (k * 512) mod 512 = 0" by simp
    then have "(unat b + unat (k * 512)) mod 512 = unat b mod 512"
      using mod_add_right_eq [of "unat b" "unat (k * 512)" 512] by simp
    then show ?thesis unfolding unat_word_ariths(1) by (simp add: mod_mod_cancel)
  qed
  then have "unat (b + 512) mod 512 = unat b mod 512" for b :: u32 using step [of b 1] by simp
  with step show ?thesis unfolding next_header_def Let_def by presburger
qed

lemma archive_mod: "archive m a hs \<Longrightarrow> h \<in> set hs \<Longrightarrow> unat h mod 512 = unat a mod 512"
proof (induction hs arbitrary: a)
  case (Cons x hs)
  then show ?case using next_header_mod [of m x] by auto
qed simp

lemma archive_length:
  assumes "archive m a hs"
  shows "length hs \<le> 8388608"
proof -
  have inj: "inj_on (\<lambda>h. unat h div 512) (set hs)"
  proof (rule inj_onI)
    fix h k assume "h \<in> set hs" "k \<in> set hs" "unat h div 512 = unat k div 512"
    then have "unat h = unat k" using archive_mod [OF assms] by (metis div_mult_mod_eq)
    then show "h = k" by (simp add: word_unat_eq_iff)
  qed
  have "(\<lambda>h. unat h div 512) ` set hs \<subseteq> {..<8388608}"
  proof
    fix n assume "n \<in> (\<lambda>h. unat h div 512) ` set hs"
    then obtain h :: u32 where "n = unat h div 512" by auto
    then show "n \<in> {..<8388608}" using u32_unat_less [of h] by simp
  qed
  then have "card ((\<lambda>h. unat h div 512) ` set hs) \<le> card {..<8388608 :: nat}" by (rule card_mono [rotated]) simp
  then show ?thesis using card_image [OF inj] distinct_card [OF archive_distinct [OF assms]] by simp
qed

text \<open>The addresses the walk reads: first bytes of headers, and size fields.\<close>

fun archive_reads :: "memory \<Rightarrow> u32 \<Rightarrow> u32 list \<Rightarrow> u32 list" where
  "archive_reads m a [] = [a]"
| "archive_reads m a (h # hs) =
     h # map (\<lambda>i. header_size h + of_nat i) [0..<11] @ archive_reads m (next_header m h) hs"

lemma get_size_cong:
  assumes "\<And>i. i < 11 \<Longrightarrow> m' (a + of_nat i) = m (a + of_nat i)"
  shows "get_size m' a = get_size m a"
proof -
  have "fold (\<lambda>j (n, count). (n + (scast (m' (a + of_nat (j - 1))) - 48) * count, count * 8)) (rev [1..<12]) s
      = fold (\<lambda>j (n, count). (n + (scast (m (a + of_nat (j - 1))) - 48) * count, count * 8)) (rev [1..<12]) s"
    for s :: "u32 \<times> u32"
  proof (rule fold_cong)
    fix j assume "j \<in> set (rev [1..<12 :: nat])"
    then have "m' (a + of_nat (j - 1)) = m (a + of_nat (j - 1))" using assms [of "j - 1"] by auto
    then show "(\<lambda>(n, count). (n + (scast (m' (a + of_nat (j - 1))) - 48) * count, count * 8)) =
        (\<lambda>(n :: u32, count :: u32). (n + (scast (m (a + of_nat (j - 1))) - 48) * count, count * 8))"
      by simp
  qed simp_all
  then show ?thesis by (simp add: get_size_def)
qed

lemma archive_cong:
  assumes "archive m a hs" "\<And>b. b \<in> set (archive_reads m a hs) \<Longrightarrow> m' b = m b"
  shows "archive m' a hs"
  using assms
proof (induction hs arbitrary: a)
  case (Cons h hs)
  have "get_size m' (header_size h) = get_size m (header_size h)"
    by (rule get_size_cong, rule Cons.prems(2)) auto
  then have "next_header m' h = next_header m h" by (simp add: next_header_def Let_def)
  then show ?case using Cons by auto
qed simp

lemma InitRamdisk_count:
  assumes "InitRamdisk L m addr rd h = Inr (rd', h')"
  shows "\<exists>p. kmalloc L (4 * fileno rd') h = Inr (p, h') \<and> unat (fileno rd') \<le> 8388608"
proof -
  from assms obtain p where k: "kmalloc L (4 * fileno rd') h = Inr (p, h')" "count_loop m addr 0 = Some (fileno rd')"
    by (auto simp: InitRamdisk_def count_files_def add_files_to_list_def Let_def kernel_simps split: option.splits)
  from archive_of_count_loop [OF k(2)] obtain hs where "archive m addr hs" "fileno rd' = of_nat (length hs)" by auto
  then have "unat (fileno rd') \<le> 8388608" using archive_length [of m addr hs] by (simp add: unat_of_nat)
  with k(1) show ?thesis by blast
qed

lemma InitRamdisk_lists:
  assumes "archive m addr hs" "addr \<noteq> 0" "hs \<noteq> []" "length hs < 2 ^ 32"
    and "kmalloc L (4 * of_nat (length hs)) h = Inr (p, h')" "p \<noteq> 0"
  shows "InitRamdisk L m addr rd h =
    Inr (rd\<lparr>first_file := addr, fileno := of_nat (length hs), files := p, file_table := hs\<rparr>, h')"
proof -
  have "unat (of_nat (length hs) :: u32) = length hs" using assms(4) by (simp add: unat_of_nat)
  then have "(of_nat (length hs) :: u32) \<noteq> 0" using assms(3) by (metis length_0_conv unat_0)
  then show ?thesis
    using assms count_loop_archive [OF assms(1), of 0] add_loop_archive [OF assms(1), of "[]"]
    by (simp add: InitRamdisk_def count_files_def add_files_to_list_def)
qed

text \<open>
  Setting the RAM disk up over an archive of \<open>n\<close> files, once the heap grants the table, counts and
  lists exactly its headers in order; afterwards looking up a name returns the content, 512 bytes behind
  the header, of the first file of that name, and 0 where the archive has no such file.
\<close>

theorem ramdisk_finds_files:
  assumes "archive m addr hs" "addr \<noteq> 0" "hs \<noteq> []" "length hs < 2 ^ 32"
    and "kmalloc L (4 * of_nat (length hs)) h = Inr (p, h')" "p \<noteq> 0"
  shows "\<exists>rd'. InitRamdisk L m addr rd h = Inr (rd', h') \<and> unat (fileno rd') = length hs \<and> file_table rd' = hs
    \<and> (\<forall>name. RamDiskFileContent m rd' name =
         (case find (\<lambda>h. string_at m h name) hs of None \<Rightarrow> 0 | Some h \<Rightarrow> h + 512))
    \<and> (\<forall>name. GetRamDiskFile m rd' name =
         (case find (\<lambda>h. string_at m h name) hs of None \<Rightarrow> 0 | Some h \<Rightarrow> h))"
proof -
  have n: "unat (of_nat (length hs) :: u32) = length hs" using assms(4) by (simp add: unat_of_nat)
  let ?rd = "rd\<lparr>first_file := addr, fileno := of_nat (length hs), files := p, file_table := hs\<rparr>"
  have "InitRamdisk L m addr rd h = Inr (?rd, h')" by (rule InitRamdisk_lists [OF assms])
  then show ?thesis
    using assms(6) n
    by (intro exI [of _ ?rd]) (auto simp: RamDiskFileContent_def GetRamDiskFile_def lookup_def split: option.split)
qed

text \<open>An archive of one empty file named \<open>a\<close>, at \<open>0x200000\<close>.\<close>

definition example_disk :: memory where
  "example_disk = (\<lambda>a. if a = 0x200000 then 97 else if 0x20007C \<le> a \<and> a < 0x200087 then 48 else 0)"

theorem ramdisk_finds_files_witness:
  "\<exists>rd h. InitRamdisk example_layout example_disk 0x200000
       \<lparr>files = 0, file_table = [], first_file = 0, fileno = 0\<rparr> fresh_heap = Inr (rd, h)
     \<and> RamDiskFileContent example_disk rd [97] = 0x200200 \<and> RamDiskFileContent example_disk rd [98] = 0"
proof -
  have "get_size example_disk 0x20007C = 0"
    by (simp add: get_size_def example_disk_def upt_rec)
  then have ar: "archive example_disk 0x200000 [0x200000]"
    by (simp add: next_header_def header_size_def) (simp add: example_disk_def)
  obtain h where "kmalloc example_layout 4 fresh_heap = Inr (0x350020, h)"
    unfolding kmalloc_eq [OF heap_inv_fresh]
    by (simp add: fresh_heap_def kinit_heap_def upd_node_def fits_def NEXT_BLOCK_def BLOCK_START_def)
  then have "kmalloc example_layout (4 * of_nat (length [0x200000 :: u32])) fresh_heap = Inr (0x350020, h)"
    by simp
  from ramdisk_finds_files [OF ar _ _ _ this, of "\<lparr>files = 0, file_table = [], first_file = 0, fileno = 0\<rparr>"]
  obtain rd where rd: "InitRamdisk example_layout example_disk 0x200000
       \<lparr>files = 0, file_table = [], first_file = 0, fileno = 0\<rparr> fresh_heap = Inr (rd, h)"
    "\<forall>name. RamDiskFileContent example_disk rd name =
         (case find (\<lambda>h. string_at example_disk h name) [0x200000] of None \<Rightarrow> 0 | Some h \<Rightarrow> h + 512)"
    by auto
  have "string_at example_disk 0x200000 [97]" "\<not> string_at example_disk 0x200000 [98]"
    by (simp_all add: example_disk_def)
  with rd show ?thesis by auto
qed

end
