(* ===== verification/Boot.thy ===== *)
theory Boot
  imports Execution Cpu_Detect Ramdisk
begin

text \<open>
  The boot of the kernel, \<open>init\<close> of \<open>hal.x86/init.c\<close>, which calls the set-up functions of all the other
  parts in turn, with \<open>create_driver_process\<close> of \<open>hal.x86/driver.c\<close>. What \<open>InitVmm\<close> maps, how many page tables
  it needs, that pages in use keep their bytes meanwhile, and that the whole sequence succeeds from what
  the boot loader leaves in memory. Paging is on when the RAM disk is set up, so it is read through the page
  walk.
\<close>

section \<open>The page tables of a context\<close>

text \<open>The directory entries in use, and how they change as page tables are taken from the pool.\<close>

definition tables :: "vmm \<Rightarrow> u32 \<Rightarrow> nat set" where
  "tables v ctx = {i. i < 1024 \<and> table_at (mem v) (pagedir (mem v) ctx) i \<noteq> None}"

lemma tables_finite [simp]: "finite (tables v ctx)"
  by (simp add: tables_def)

lemma get_page_table_tables:
  assumes L: "layout_ok L" and ok: "context_ok v ctx" and i: "i < 1024"
    and get: "get_page_table L ctx i (page_flags us) v = Inr (t, v')"
  shows "tables v' ctx = insert i (tables v ctx)
    \<and> free_pool L v' + card (tables v' ctx) = free_pool L v + card (tables v ctx)"
proof (cases "present (load32 (mem v) (entry (pagedir (mem v) ctx) i))")
  case True
  then have "v' = v" "i \<in> tables v ctx" using get i by (auto simp: get_page_table_def table_at_def tables_def Let_def)
  then show ?thesis by (simp add: insert_absorb)
next
  case False
  then have none: "table_at (mem v) (pagedir (mem v) ctx) i = None" by (simp add: table_at_def)
  from False get obtain p' where alloc: "pool_alloc L (pm v) = Inr (t, p')" "t \<noteq> 0"
    and v': "v' = v\<lparr>pm := p', mem := add_table ctx i t (page_flags us) (mem v)\<rparr>"
    by (auto simp: get_page_table_def pool_alloc_def add_table_def Let_def kernel_simps)
  have t: "in_pool L t" "\<not> page_used (pm v) t" using pool.alloc_page [OF L alloc] by auto
  then have al: "page_aligned t" by (simp add: in_pool_def)
  have used: "page_used p' b \<longleftrightarrow> same_page t b \<or> page_used (pm v) b" for b
    using pool.alloc_used [OF L alloc] .
  note add = add_table [OF ok i none al t(2) used, where us = us, folded v']
  have tab: "tables v' ctx = insert i (tables v ctx)" using add(6) i by (auto simp: tables_def add(2))
  have "in_pool L b \<and> same_page t b \<longleftrightarrow> b = t" for b
    using t(1) al same_page_aligned [of t b] by (auto simp: in_pool_def)
  then have "{a. in_pool L a \<and> \<not> page_used (pm v') a} = {a. in_pool L a \<and> \<not> page_used (pm v) a} - {t}"
    using used by (auto simp: v')
  moreover have "t \<in> {a. in_pool L a \<and> \<not> page_used (pm v) a}" using t by simp
  ultimately have "Suc (free_pool L v') = free_pool L v"
    using card_Suc_Diff1 [of "{a. in_pool L a \<and> \<not> page_used (pm v) a}" t] by (simp add: free_pool_def)
  moreover have "i \<notin> tables v ctx" using none by (simp add: tables_def)
  ultimately show ?thesis using tab by simp
qed

lemma map_page_tables:
  assumes L: "layout_ok L" and ok: "context_ok v ctx" and run: "map_page L ctx virt phys us v = Inr v'"
  shows "tables v' ctx = insert (pd_index virt) (tables v ctx)
    \<and> free_pool L v' + card (tables v' ctx) = free_pool L v + card (tables v ctx)"
proof -
  from run obtain t v1 where get: "get_page_table L ctx (pd_index virt) (page_flags us) v = Inr (t, v1)"
      and v': "v' = v1\<lparr>mem := store32 (mem v1) (entry t (pt_index virt)) (phys OR page_flags us)\<rparr>"
    by (auto simp: map_page_unfold kernel_simps)
  note g = get_page_table_ok [OF L ok index_bounds(1) get]
  have tab: "table_at (mem v1) (pagedir (mem v1) ctx) (pd_index virt) = Some t" using g(2,3) by simp
  note s = store_pte [OF g(1) tab present_entry [of phys us], folded v']
  have "tables v' ctx = tables v1 ctx" using s(2,5) by (auto simp: tables_def)
  moreover have "free_pool L v' = free_pool L v1" by (simp add: free_pool_def v')
  ultimately show ?thesis using get_page_table_tables [OF L ok index_bounds(1) get] by metis
qed

section \<open>Mapping a range to itself\<close>

lemma page_aligned_step: "page_aligned a \<Longrightarrow> page_aligned (a + 0x1000 * k)"
proof -
  assume "page_aligned a"
  moreover have "4096 dvd 4096 * unat k mod 4294967296" by (rule dvd_mod) simp_all
  ultimately show ?thesis by (simp add: page_aligned_unat unat_word_ariths mod_eq_0_iff_dvd dvd_mod)
qed

lemma same_page_frame:
  assumes "page_aligned b"
  shows "same_page a b \<longleftrightarrow> frame_of a = b"
proof -
  have div: "x div 0x1000 = drop_bit 12 x" for x :: u32 by (simp add: drop_bit_eq_div)
  have "frame_of a = push_bit 12 (drop_bit 12 a)"
    by (rule bit_word_eqI) (auto simp: frame_of_def mask12 bit_simps)
  moreover have "b = push_bit 12 (drop_bit 12 b)"
  proof (rule bit_word_eqI)
    show "bit b n \<longleftrightarrow> bit (push_bit 12 (drop_bit 12 b)) n" if "n < LENGTH(32)" for n
      using assms that by (cases "n < 12") (auto simp: bit_simps page_aligned_bits)
  qed
  moreover have "drop_bit 12 (push_bit 12 (drop_bit 12 x)) = drop_bit 12 x" for x :: u32
    by (rule bit_word_eqI) (auto simp: bit_simps dest: bit_imp_le_length)
  ultimately show ?thesis unfolding same_page_def div by metis
qed

definition identity :: "layout \<Rightarrow> u32 \<Rightarrow> u32 \<Rightarrow> nat \<Rightarrow> vmm \<Rightarrow> kerror + vmm" where
  "identity L ctx start n =
     foldE (\<lambda>k. map_page L ctx (start + 0x1000 * of_nat k) (start + 0x1000 * of_nat k) 1) [0..<n]"

lemma identity_Suc:
  "identity L ctx start (Suc n) v = bindE (identity L ctx start n v)
     (map_page L ctx (start + 0x1000 * of_nat n) (start + 0x1000 * of_nat n) 1)"
  by (simp add: identity_def foldE_append)

lemma identity_effect:
  assumes L: "layout_ok L" and ok: "context_ok v ctx" and run: "identity L ctx start n v = Inr v'"
  shows "context_ok v' ctx \<and> pagedir (mem v') ctx = pagedir (mem v) ctx \<and> kernel_context v' = kernel_context v
    \<and> (\<forall>a. walk_context v' ctx a = (if \<exists>k < n. frame_of a = start + 0x1000 * of_nat k
          then Some (frame_of a OR 7) else walk_context v ctx a))"
  using run
proof (induction n arbitrary: v')
  case 0
  then show ?case using ok by (simp add: identity_def)
next
  case (Suc n)
  let ?p = "start + 0x1000 * of_nat n"
  from Suc.prems obtain v1 where v1: "identity L ctx start n v = Inr v1" "map_page L ctx ?p ?p 1 v1 = Inr v'"
    by (auto simp: identity_Suc bindE_Inr_iff)
  note IH = Suc.IH [OF v1(1)]
  have m: "page_aligned ?p" "context_ok v' ctx" "pagedir (mem v') ctx = pagedir (mem v1) ctx"
      "kernel_context v' = kernel_context v1"
      "walk_context v' ctx a = (if same_page a ?p then Some (?p OR page_flags 1) else walk_context v1 ctx a)" for a
    using map_page_effect [OF L _ v1(2)] IH by auto
  have flags: "page_flags 1 = 7" by (simp add: page_flags_def)
  have "walk_context v' ctx a = (if \<exists>k < Suc n. frame_of a = start + 0x1000 * of_nat k
      then Some (frame_of a OR 7) else walk_context v ctx a)" for a
    using IH unfolding m(5) same_page_frame [OF m(1)] flags by (auto simp: less_Suc_eq)
  then show ?case using IH m by simp
qed

lemma identity_succeeds:
  assumes L: "layout_ok L" and ok: "context_ok v ctx" and al: "page_aligned start"
    and S: "finite S" "tables v ctx \<subseteq> S" "card S \<le> free_pool L v + card (tables v ctx)"
      "\<And>k. k < n \<Longrightarrow> pd_index (start + 0x1000 * of_nat k) \<in> S"
  shows "\<exists>v'. identity L ctx start n v = Inr v' \<and> tables v' ctx \<subseteq> S
    \<and> free_pool L v' + card (tables v' ctx) = free_pool L v + card (tables v ctx)"
  using S(4)
proof (induction n)
  case 0
  then show ?case using S(2) by (simp add: identity_def)
next
  case (Suc n)
  let ?p = "start + 0x1000 * of_nat n"
  obtain v1 where v1: "identity L ctx start n v = Inr v1" "tables v1 ctx \<subseteq> S"
      "free_pool L v1 + card (tables v1 ctx) = free_pool L v + card (tables v ctx)"
    using Suc.IH Suc.prems by auto
  have ok1: "context_ok v1 ctx" using identity_effect [OF L ok v1(1)] by simp
  have p: "page_aligned ?p" using al by (rule page_aligned_step)
  have i: "pd_index ?p \<in> S" using Suc.prems by simp
  have room: "pd_index ?p \<in> tables v1 ctx \<or> 0 < free_pool L v1"
  proof (cases "pd_index ?p \<in> tables v1 ctx")
    case False
    with i have "tables v1 ctx \<subset> S" using v1(2) by auto
    then have "card (tables v1 ctx) < card S" using S(1) psubset_card_mono by blast
    with S(3) v1(3) show ?thesis by simp
  qed simp
  then have "table_at (mem v1) (pagedir (mem v1) ctx) (pd_index ?p) \<noteq> None
      \<or> (\<exists>a. in_pool L a \<and> \<not> page_used (pm v1) a)"
    by (auto simp: tables_def free_pool_def card_gt_0_iff)
  then obtain v' where v': "map_page L ctx ?p ?p 1 v1 = Inr v'"
    using map_page_returns [OF L p p context_okD(2) [OF ok1]] by blast
  from map_page_tables [OF L ok1 v'] v1 i v' show ?case by (auto simp: identity_Suc)
qed

lemma range_pages:
  assumes "page_aligned s" "unat s + 4096 * n < 4294967296"
  shows "(\<exists>k < Suc n. frame_of a = s + 0x1000 * of_nat k)
    \<longleftrightarrow> unat s \<le> unat (frame_of a) \<and> unat (frame_of a) \<le> unat s + 4096 * n"
proof -
  have at: "unat (s + 0x1000 * of_nat k) = unat s + 4096 * k" if "k \<le> n" for k
  proof -
    have "unat (of_nat k :: u32) = k" using that assms(2) by (simp add: unat_of_nat)
    then show ?thesis using that assms(2) by (simp add: unat_word_ariths)
  qed
  show ?thesis
  proof
    assume "\<exists>k < Suc n. frame_of a = s + 0x1000 * of_nat k"
    then obtain k where "k \<le> n" "frame_of a = s + 0x1000 * of_nat k" by (auto simp: less_Suc_eq_le)
    with at [of k] show "unat s \<le> unat (frame_of a) \<and> unat (frame_of a) \<le> unat s + 4096 * n" by simp
  next
    assume r: "unat s \<le> unat (frame_of a) \<and> unat (frame_of a) \<le> unat s + 4096 * n"
    have "unat s mod 4096 = 0" "unat (frame_of a) mod 4096 = 0"
      using assms(1) frame_of_aligned [of a] by (simp_all add: page_aligned_unat del: frame_of_aligned)
    then obtain k where k: "unat (frame_of a) = unat s + 4096 * k"
      using r by (metis dvd_def dvd_diff_nat le_add_diff_inverse mod_eq_0_iff_dvd)
    then have "k \<le> n" using r by simp
    with at [OF this] k show "\<exists>k < Suc n. frame_of a = s + 0x1000 * of_nat k"
      by (intro exI [of _ k]) (simp add: word_unat_eq_iff)
  qed
qed

text \<open>One call of \<open>map_range\<close> in \<open>InitVmm\<close>: the pages from \<open>s\<close> to the one at \<open>s + sz\<close>.\<close>

lemma map_range_identity:
  assumes L: "layout_ok L" and ok: "context_ok v ctx" and s: "page_aligned s" "page_aligned sz"
    and room: "unat s + unat sz < 0xFFFFF000" and run: "map_range L ctx s s sz 1 v = Inr v'"
  shows "context_ok v' ctx \<and> pagedir (mem v') ctx = pagedir (mem v) ctx \<and> kernel_context v' = kernel_context v
    \<and> (\<forall>a. walk_context v' ctx a = (if unat s \<le> unat (frame_of a) \<and> unat (frame_of a) \<le> unat s + unat sz
          then Some (frame_of a OR 7) else walk_context v ctx a))"
proof -
  have n: "4096 * (unat sz div 4096) = unat sz" using s(2) mult_div_mod_eq [of 4096 "unat sz"] by (simp add: page_aligned_unat)
  have "identity L ctx s (Suc (unat sz div 4096)) v = Inr v'"
    using run map_range_fold [OF room s(2)] by (simp add: identity_def)
  from identity_effect [OF L ok this] range_pages [OF s(1), of "unat sz div 4096"] room n show ?thesis by simp
qed

lemma map_range_succeeds:
  assumes L: "layout_ok L" and ok: "context_ok v ctx" and s: "page_aligned s" "page_aligned sz"
    and room: "unat s + unat sz \<le> 0x40000000"
    and S: "tables v ctx \<subseteq> {..256}" "257 \<le> free_pool L v + card (tables v ctx)"
  shows "\<exists>v'. map_range L ctx s s sz 1 v = Inr v' \<and> tables v' ctx \<subseteq> {..256}
    \<and> free_pool L v' + card (tables v' ctx) = free_pool L v + card (tables v ctx)"
proof -
  have "pd_index (s + 0x1000 * of_nat k) \<in> {..256}" if "k < Suc (unat sz div 4096)" for k
  proof -
    have le: "4096 * k \<le> unat sz" using that by (simp add: less_Suc_eq_le less_eq_div_iff_mult_less_eq)
    then have "unat (of_nat k :: u32) = k" using room by (simp add: unat_of_nat)
    then have "unat (s + 0x1000 * of_nat k) = unat s + 4096 * k" using le room by (simp add: unat_word_ariths)
    then have "unat (s + 0x1000 * of_nat k) \<le> 0x40000000" using le room by simp
    then have "unat (s + 0x1000 * of_nat k) div 4194304 \<le> 256" by (rule order.trans [OF div_le_mono]) simp
    then show ?thesis by (simp add: pd_index_def unat_div_distrib div_mult2_eq [symmetric])
  qed
  from identity_succeeds [OF L ok s(1) _ S(1) _ this] S(2) obtain v' where
    "identity L ctx s (Suc (unat sz div 4096)) v = Inr v'" "tables v' ctx \<subseteq> {..256}"
    "free_pool L v' + card (tables v' ctx) = free_pool L v + card (tables v ctx)" by auto
  moreover have "unat s + unat sz < 0xFFFFF000" using room by simp
  ultimately show ?thesis using map_range_fold [of s sz L ctx s 1 v] s(2) by (auto simp: identity_def)
qed

section \<open>The kernel's address space\<close>

text \<open>
  The kernel context maps every page from the kernel's first to the one at the end of the heap to itself,
  user accessible and writable, and nothing else.
\<close>

definition identity_mapped :: "layout \<Rightarrow> vmm \<Rightarrow> bool" where
  "identity_mapped L v \<longleftrightarrow>
     context_ok v (kernel_context v)
   \<and> (\<forall>a. walk_context v (kernel_context v) a =
        (if kernel_start L \<le> frame_of a \<and> frame_of a \<le> HEAP_END L then Some (frame_of a OR 7) else None))"

text \<open>The three ranges of \<open>InitVmm\<close>, and the context they start from.\<close>

lemma init_ranges:
  assumes "layout_ok L"
  shows "page_aligned (kernel_start L)" "page_aligned (kernel_end L - kernel_start L)"
    "unat (kernel_start L) + unat (kernel_end L - kernel_start L) = unat (kernel_end L)"
    "page_aligned (PAGEPOOL_START L)" "page_aligned (PAGEPOOL_END L - PAGEPOOL_START L)"
    "unat (PAGEPOOL_START L) + unat (PAGEPOOL_END L - PAGEPOOL_START L) = unat (kernel_end L) + 0x200000"
    "page_aligned (HEAP_START L)" "page_aligned HEAP_SIZE"
    "unat (HEAP_START L) + unat HEAP_SIZE = unat (HEAP_END L)" "unat (HEAP_END L) \<le> 0x40000000"
    "unat (PAGEPOOL_START L) = unat (kernel_end L)" "unat (kernel_start L) \<le> unat (kernel_end L)"
proof -
  note u = layout_unat [OF assms]
  have o: "page_aligned (kernel_start L)" "page_aligned (kernel_end L)" "unat (kernel_start L) \<le> unat (kernel_end L)"
    using assms by (simp_all add: layout_ok_def word_less_nat_alt)
  have sub: "unat (kernel_end L - kernel_start L) = unat (kernel_end L) - unat (kernel_start L)"
    using o(3) by (simp add: unat_sub word_le_nat_alt)
  show "page_aligned (kernel_start L)" "unat (kernel_start L) \<le> unat (kernel_end L)" using o by simp_all
  show "page_aligned (kernel_end L - kernel_start L)"
    using o by (simp add: page_aligned_unat sub) (simp add: mod_eq_0_iff_dvd)
  show "unat (kernel_start L) + unat (kernel_end L - kernel_start L) = unat (kernel_end L)" using sub o(3) by simp
  show "page_aligned (PAGEPOOL_START L)" "unat (PAGEPOOL_START L) = unat (kernel_end L)"
    using o by (simp_all add: PAGEPOOL_START_def)
  show "page_aligned (PAGEPOOL_END L - PAGEPOOL_START L)" by (simp add: PAGEPOOL_END_def)
  show "unat (PAGEPOOL_START L) + unat (PAGEPOOL_END L - PAGEPOOL_START L) = unat (kernel_end L) + 0x200000"
    by (simp add: PAGEPOOL_END_def PAGEPOOL_START_def)
  show "page_aligned (HEAP_START L)"
    using o u(2) by (simp add: page_aligned_unat) (simp add: mod_eq_0_iff_dvd)
  show "page_aligned HEAP_SIZE" by (simp add: HEAP_SIZE_def)
  show "unat (HEAP_START L) + unat HEAP_SIZE = unat (HEAP_END L)" using u by (simp add: HEAP_SIZE_def)
  show "unat (HEAP_END L) \<le> 0x40000000" using u by simp
qed

lemma context_ok_cong: "mem v' = mem v \<Longrightarrow> pm v' = pm v \<Longrightarrow> context_ok v' ctx \<longleftrightarrow> context_ok v ctx"
  by (simp add: context_ok_def)

lemma InitVmm_identity_mapped:
  assumes L: "layout_ok L" and run: "InitVmm L v = Inr v'"
  shows "identity_mapped L v' \<and> current_context v' = kernel_context v'
    \<and> cr3 v' = pagedir (mem v') (kernel_context v') \<and> bit (cr0 v') 31"
proof -
  from run obtain ctx v1 v3 v4 v5 where c: "create_context L v = Inr (ctx, v1)"
    and r1: "map_range L ctx (kernel_start L) (kernel_start L) (kernel_end L - kernel_start L) 1 (v1\<lparr>kernel_context := ctx\<rparr>) = Inr v3"
    and r2: "map_range L ctx (PAGEPOOL_START L) (PAGEPOOL_START L) (PAGEPOOL_END L - PAGEPOOL_START L) 1 v3 = Inr v4"
    and r3: "map_range L ctx (HEAP_START L) (HEAP_START L) HEAP_SIZE 1 v4 = Inr v5"
    and v': "v' = v5\<lparr>cr3 := pagedir (mem v5) ctx, current_context := ctx, cr0 := cr0 v5 OR push_bit 31 1\<rparr>"
    by (auto simp: InitVmm_def activate_memory_context_def bindE_Inr_iff derefE_Inr_iff)
  note i = init_ranges [OF L] and u = layout_unat [OF L]
  let ?v2 = "v1\<lparr>kernel_context := ctx\<rparr>"
  have ok: "context_ok ?v2 ctx" using create_context_memory(1) [OF L c] by (subst context_ok_cong [of _ v1]) simp_all
  have none: "walk_context ?v2 ctx a = None" for a
    using create_context_memory(2) [OF L c] by (simp add: walk_context_def)
  have b: "unat (kernel_start L) + unat (kernel_end L - kernel_start L) < 0xFFFFF000"
    "unat (PAGEPOOL_START L) + unat (PAGEPOOL_END L - PAGEPOOL_START L) < 0xFFFFF000"
    "unat (HEAP_START L) + unat HEAP_SIZE < 0xFFFFF000" using i u by simp_all
  note m1 = map_range_identity [OF L ok i(1,2) b(1) r1]
  note m2 = map_range_identity [OF L conjunct1 [OF m1] i(4,5) b(2) r2]
  note m3 = map_range_identity [OF L conjunct1 [OF m2] i(7,8) b(3) r3]
  have kc: "kernel_context v' = ctx" using m1 m2 m3 by (simp add: v')
  have "walk_context v5 ctx a =
      (if kernel_start L \<le> frame_of a \<and> frame_of a \<le> HEAP_END L then Some (frame_of a OR 7) else None)" for a
    using m1 m2 m3 i u none [of a] by (auto simp: word_le_nat_alt)
  moreover have "walk_context v' ctx a = walk_context v5 ctx a" for a by (simp add: v' walk_context_def)
  moreover have "context_ok v5 ctx" using m3 by simp
  then have "context_ok v' ctx" by (subst context_ok_cong [of _ v5]) (simp_all add: v')
  moreover have "bit (cr0 v') 31" by (simp add: v' bit_simps)
  ultimately show ?thesis using kc by (simp add: identity_mapped_def) (simp add: v')
qed

lemma InitVmm_succeeds:
  assumes L: "layout_ok L" and room: "259 \<le> free_pool L v"
  shows "\<exists>v'. InitVmm L v = Inr v' \<and> free_pool L v - 259 \<le> free_pool L v' \<and> kernel_context v' \<noteq> 0"
proof -
  obtain ctx v1 where c: "create_context L v = Inr (ctx, v1)" "free_pool L v1 = free_pool L v - 2"
    using create_context_succeeds [OF L, of v] room by auto
  note i = init_ranges [OF L] and u = layout_unat [OF L]
  let ?v2 = "v1\<lparr>kernel_context := ctx\<rparr>"
  have ok: "context_ok ?v2 ctx" using create_context_memory(1) [OF L c(1)] by (subst context_ok_cong [of _ v1]) simp_all
  have room': "257 \<le> free_pool L v - 2" using room by linarith
  have t2: "tables ?v2 ctx = {}" using create_context_memory(4) [OF L c(1)] by (auto simp: tables_def)
  have f2: "free_pool L ?v2 + card (tables ?v2 ctx) = free_pool L v - 2"
    unfolding t2 using c(2) by (simp add: free_pool_def)
  obtain v3 where v3: "map_range L ctx (kernel_start L) (kernel_start L) (kernel_end L - kernel_start L) 1 ?v2 = Inr v3"
      "tables v3 ctx \<subseteq> {..256}" "free_pool L v3 + card (tables v3 ctx) = free_pool L v - 2"
    using map_range_succeeds [OF L ok i(1,2)] i(3,10) u t2 f2 room' by auto
  have ok3: "context_ok v3 ctx" using map_range_identity [OF L ok i(1,2) _ v3(1)] i(3,10) u by auto
  obtain v4 where v4: "map_range L ctx (PAGEPOOL_START L) (PAGEPOOL_START L) (PAGEPOOL_END L - PAGEPOOL_START L) 1 v3 = Inr v4"
      "tables v4 ctx \<subseteq> {..256}" "free_pool L v4 + card (tables v4 ctx) = free_pool L v - 2"
    using map_range_succeeds [OF L ok3 i(4,5) _ v3(2)] i(6,10) u v3(3) room' by auto
  have ok4: "context_ok v4 ctx" using map_range_identity [OF L ok3 i(4,5) _ v4(1)] i(6,10) u by auto
  obtain v5 where v5: "map_range L ctx (HEAP_START L) (HEAP_START L) HEAP_SIZE 1 v4 = Inr v5"
      "tables v5 ctx \<subseteq> {..256}" "free_pool L v5 + card (tables v5 ctx) = free_pool L v - 2"
    using map_range_succeeds [OF L ok4 i(7,8) _ v4(2)] i(9,10) u v4(3) room' by auto
  have kc: "kernel_context v5 = ctx"
    using map_range_identity [OF L ok i(1,2) _ v3(1)] map_range_identity [OF L ok3 i(4,5) _ v4(1)]
      map_range_identity [OF L ok4 i(7,8) _ v5(1)] i(3,6,9,10) u by auto
  have "card (tables v5 ctx) \<le> card {..(256::nat)}" by (rule card_mono) (use v5(2) in auto)
  then have "free_pool L v - 259 \<le> free_pool L v5" using v5(3) room by simp
  then show ?thesis using c(1) v3(1) v4(1) v5(1) kc context_okD(2) [OF ok]
    by (simp add: InitVmm_def activate_memory_context_def free_pool_def)
qed

section \<open>Booting\<close>

text \<open>
  What \<open>init\<close> is given: the processor's answers to \<open>cpuid\<close>, the addresses the linker chose for tables,
  interrupt stubs and the three kernel processes, the stack pointer, and the boot loader's structures.
\<close>

record environment =
  e_cpuid :: cpuid
  e_tss :: u32
  e_gdt :: u32
  e_esp :: u32
  e_stubs :: "nat \<Rightarrow> u32"
  e_mmap :: "u32 \<Rightarrow> multiboot_mmap"
  e_modules :: "u32 \<Rightarrow> multiboot_module"
  e_info_addr :: u32
  e_info :: multiboot_info
  e_kernel_proc :: u32
  e_idle :: u32
  e_ramdisk_proc :: u32

record boot =
  b_machine :: machine
  b_serial :: serial
  b_gdt :: "gdt_entry list"
  b_idt :: "idt_entry list"
  b_ramdisk :: ramdisk

abbreviation (input) CLOCKS_PER_SEC :: int where "CLOCKS_PER_SEC \<equiv> 1000"

text \<open>The part of \<open>init\<close> from \<open>InitPmm\<close> to \<open>InitMultitasking\<close>.\<close>

definition start_kernel :: "layout \<Rightarrow> environment \<Rightarrow> kernel \<Rightarrow> kerror + kernel" where
  "start_kernel L env k =
     bindE (InitPmm L (e_mmap env) (e_modules env) (e_info_addr env) (e_info env) (pm (vm k))) (\<lambda>p.
     bindE (InitVmm L ((vm k)\<lparr>pm := p\<rparr>)) (\<lambda>v.
     InitMultitasking L (e_kernel_proc env) (e_idle env) (e_ramdisk_proc env)
       (k\<lparr>vm := v, heap := kinit_heap L (heap k)\<rparr>)))"

text \<open>
  Memory as code sees it with paging on. \<open>touch v a n\<close> reads the \<open>n\<close> bytes at \<open>a\<close>: a page that is not mapped
  is a page fault. \<open>touch_archive\<close> touches what \<open>count_files\<close> reads, in its order.
\<close>

definition seen :: "vmm \<Rightarrow> memory" where
  "seen v a = (case virt_to_phys v a of Inl _ \<Rightarrow> 0 | Inr p \<Rightarrow> mem v p)"

definition touch :: "vmm \<Rightarrow> u32 \<Rightarrow> nat \<Rightarrow> kerror + unit" where
  "touch v a n = foldE (\<lambda>i _. bindE (virt_to_phys v (a + of_nat i)) (\<lambda>_. Inr ())) [0..<n] ()"

partial_function (option) touch_archive :: "vmm \<Rightarrow> u32 \<Rightarrow> (kerror + unit) option" where
  "touch_archive v address =
     (case read8 address v of
        Inl e \<Rightarrow> Some (Inl e)
      | Inr b \<Rightarrow>
          if b = 0 then Some (Inr ())
          else case touch v (header_size address) 11 of
                 Inl e \<Rightarrow> Some (Inl e)
               | Inr _ \<Rightarrow> touch_archive v (next_header (seen v) address))"

text \<open>
  The last step of \<open>init\<close>: the field \<open>mbs_mods_addr\<close>, at offset 24 of the boot loader's structure, and
  \<open>mod_start\<close> of the first module, then \<open>InitRamdisk\<close> there. Writing the table of files cannot fault: the
  kernel heap is mapped.
\<close>

definition init_disk :: "layout \<Rightarrow> environment \<Rightarrow> ramdisk \<Rightarrow> kernel \<Rightarrow> kerror + ramdisk \<times> kheap" where
  "init_disk L env rd k =
     (let v = vm k; mods = mbs_mods_addr (e_info env); addr = mod_start (e_modules env mods) in
      bindE (touch v (e_info_addr env + 24) 4) (\<lambda>_.
      bindE (touch v mods 4) (\<lambda>_.
      bindE (if addr = 0 then Inr () else returned (touch_archive v addr)) (\<lambda>_.
      InitRamdisk L (seen v) addr rd (heap k)))))"

text \<open>All of \<open>init\<close>, up to its final endless loop; \<open>InitBootDrivers\<close> does nothing.\<close>

definition init :: "layout \<Rightarrow> environment \<Rightarrow> boot \<Rightarrow> kerror + boot" where
  "init L env b =
     (let m = b_machine b; v = kprintln (bytes ''Booting up...'') (cls (console m)) in
      bindE (detect_cpu (e_cpuid env) (b_serial b)) (\<lambda>ser.
      bindE (InitSerial 115200 0 8 v) (\<lambda>v1.
      let g = InitGlobalDescriptors (e_tss env) (e_gdt env) (e_esp env) (task_state m);
          (idt, v2) = InitInterruptDescriptors (e_stubs env) v1 in
      bindE (InitPit CLOCKS_PER_SEC v2) (\<lambda>v3.
      bindE (start_kernel L env (kst m)) (\<lambda>k.
      bindE (init_disk L env (b_ramdisk b) k) (\<lambda>(rd, h).
      Inr \<lparr>b_machine = m\<lparr>console := v3, task_state := tss g, kst := k\<lparr>heap := h\<rparr>\<rparr>, b_serial = ser,
            b_gdt = gdt_entries g, b_idt = idt, b_ramdisk = rd\<rparr>))))))"

text \<open>Starting a program from the RAM disk (\<open>driver.c\<close>); neither a missing file nor a bad image is checked.\<close>

definition create_driver_process :: "layout \<Rightarrow> ramdisk \<Rightarrow> u8 list \<Rightarrow> kernel \<Rightarrow> kerror + kernel" where
  "create_driver_process L rd path k =
     (let program = RamDiskFileContent (seen (vm k)) rd path in
      bindE (CreateUsermodeContext L 1 (vm k)) (\<lambda>(ctx, v).
      bindE (ParseElf L program ctx (k\<lparr>vm := v\<rparr>)) (\<lambda>(entry_pt, k1).
      bindE (CreateUserProcess L entry_pt ctx k1) (\<lambda>(_, k2). Inr k2))))"

section \<open>Pages in use keep their bytes\<close>

text \<open>
  A context under construction since memory was \<open>m\<close> and the pages in use were those of \<open>p\<close>: these pages are
  still in use and unchanged, and none of them holds the context.
\<close>

definition untouched :: "pmm \<Rightarrow> memory \<Rightarrow> u32 \<Rightarrow> vmm \<Rightarrow> bool" where
  "untouched p m ctx v \<longleftrightarrow> context_ok v ctx
     \<and> (\<forall>b. page_used p b \<longrightarrow> page_used (pm v) b \<and> mem v b = m b)
     \<and> (\<forall>t. context_page v ctx t \<longrightarrow> \<not> page_used p t)"

lemma map_page_table_cases:
  assumes L: "layout_ok L" and ok: "context_ok v ctx" and run: "map_page L ctx virt phys us v = Inr v'"
    and i: "i < 1024" and t: "table_at (mem v') (pagedir (mem v) ctx) i = Some t"
  shows "table_at (mem v) (pagedir (mem v) ctx) i = Some t \<or> \<not> page_used (pm v) t"
proof -
  from run obtain s v1 where get: "get_page_table L ctx (pd_index virt) (page_flags us) v = Inr (s, v1)"
      and v': "v' = v1\<lparr>mem := store32 (mem v1) (entry s (pt_index virt)) (phys OR page_flags us)\<rparr>"
    by (auto simp: map_page_unfold kernel_simps)
  note g = get_page_table_ok [OF L ok index_bounds(1) get]
  have tab: "table_at (mem v1) (pagedir (mem v1) ctx) (pd_index virt) = Some s" using g(2,3) by simp
  have "table_at (mem v1) (pagedir (mem v) ctx) i = Some t"
    using store_pte(5) [OF g(1) tab present_entry [of phys us] i] t g(2) by (simp add: v')
  moreover have "table_at (mem v1) (pagedir (mem v) ctx) i =
      (if i = pd_index virt then Some s else table_at (mem v) (pagedir (mem v) ctx) i)"
  proof (cases "present (load32 (mem v) (entry (pagedir (mem v) ctx) (pd_index virt)))")
    case True
    then show ?thesis using get by (auto simp: get_page_table_def table_at_def Let_def)
  next
    case False
    then have none: "table_at (mem v) (pagedir (mem v) ctx) (pd_index virt) = None" by (simp add: table_at_def)
    from False get obtain p' where alloc: "pool_alloc L (pm v) = Inr (s, p')" "s \<noteq> 0"
      and v1: "v1 = v\<lparr>pm := p', mem := add_table ctx (pd_index virt) s (page_flags us) (mem v)\<rparr>"
      by (auto simp: get_page_table_def pool_alloc_def add_table_def Let_def kernel_simps)
    have "in_pool L s" "\<not> page_used (pm v) s" using pool.alloc_page [OF L alloc] by auto
    then have "page_aligned s" by (simp add: in_pool_def)
    from add_table(6) [OF ok index_bounds(1) none this \<open>\<not> page_used (pm v) s\<close> pool.alloc_used [OF L alloc] i]
    show ?thesis by (simp add: v1)
  qed
  moreover have "table_at (mem v) (pagedir (mem v) ctx) (pd_index virt) = Some s \<or> \<not> page_used (pm v) s"
    by (rule get_page_table_fresh [OF L get])
  ultimately show ?thesis by (auto split: if_splits)
qed

lemma map_page_untouched:
  assumes L: "layout_ok L" and un: "untouched p m ctx v" and run: "map_page L ctx virt phys us v = Inr v'"
  shows "untouched p m ctx v'"
proof -
  have ok: "context_ok v ctx" using un by (simp add: untouched_def)
  note e = map_page_effect [OF L ok run] and pages = un [unfolded untouched_def]
  have "\<not> page_used p t" if "context_page v' ctx t" for t
  proof -
    from that consider "t = ctx" | "t = pagedir (mem v) ctx"
      | i where "i < 1024" "table_at (mem v') (pagedir (mem v) ctx) i = Some t"
      using e by (auto simp: context_page_def)
    then show ?thesis
    proof cases
      case (3 i)
      from map_page_table_cases [OF L ok run this] 3(1) show ?thesis
        using pages unfolding context_page_def by blast
    qed (use pages in \<open>auto simp: context_page_def\<close>)
  qed
  moreover have "page_used (pm v') b \<and> mem v' b = m b" if b: "page_used p b" for b
  proof -
    have "\<not> same_page b t" if "context_page v ctx t" for t
      using pages that b page_used_same same_page_sym by blast
    moreover have "context_page v ctx (pagedir (mem v) ctx)" by (simp add: context_page_def)
    moreover have "context_page v ctx t" if "table_at (mem v) (pagedir (mem v) ctx) (pd_index virt) = Some t" for t
      using that index_bounds(1) by (auto simp: context_page_def)
    moreover have "page_used (pm v) b" "mem v b = m b" using pages b by auto
    ultimately show ?thesis using e by metis
  qed
  ultimately show ?thesis using e by (simp add: untouched_def)
qed

lemma map_range_untouched:
  assumes L: "layout_ok L" and un: "untouched p m ctx v" and s: "page_aligned sz" "unat s + unat sz < 0xFFFFF000"
    and run: "map_range L ctx s s sz us v = Inr v'"
  shows "untouched p m ctx v'"
  using run unfolding map_range_fold [OF s(2,1)]
  by (rule foldE_invariant [where P = "untouched p m ctx"]) (use un map_page_untouched [OF L] in auto)

lemma InitVmm_keeps:
  assumes L: "layout_ok L" and run: "InitVmm L v = Inr v'" and b: "page_used (pm v) b"
  shows "page_used (pm v') b" "mem v' b = mem v b"
proof -
  from run obtain ctx v1 v3 v4 v5 where c: "create_context L v = Inr (ctx, v1)"
    and r: "map_range L ctx (kernel_start L) (kernel_start L) (kernel_end L - kernel_start L) 1 (v1\<lparr>kernel_context := ctx\<rparr>) = Inr v3"
      "map_range L ctx (PAGEPOOL_START L) (PAGEPOOL_START L) (PAGEPOOL_END L - PAGEPOOL_START L) 1 v3 = Inr v4"
      "map_range L ctx (HEAP_START L) (HEAP_START L) HEAP_SIZE 1 v4 = Inr v5"
    and v': "v' = v5\<lparr>cr3 := pagedir (mem v5) ctx, current_context := ctx, cr0 := cr0 v5 OR push_bit 31 1\<rparr>"
    by (auto simp: InitVmm_def activate_memory_context_def bindE_Inr_iff derefE_Inr_iff)
  note i = init_ranges [OF L] and u = layout_unat [OF L]
  obtain pd where fresh: "\<not> page_used (pm v) ctx" "\<not> page_used (pm v) pd"
    and used: "\<And>b. page_used (pm v1) b \<longleftrightarrow> same_page ctx b \<or> same_page pd b \<or> page_used (pm v) b"
    and pd: "pagedir (mem v1) ctx = pd"
    by (rule create_context_effect [OF L c]) (rule that)
  have "\<not> page_used (pm v) t" if "context_page v1 ctx t" for t
    using that fresh create_context_memory(4) [OF L c] by (auto simp: context_page_def pd)
  then have "untouched (pm v) (mem v) ctx v1"
    using create_context_memory(1,3) [OF L c] used by (simp add: untouched_def)
  then have un: "untouched (pm v) (mem v) ctx (v1\<lparr>kernel_context := ctx\<rparr>)"
    by (simp add: untouched_def context_page_def context_ok_def)
  have "untouched (pm v) (mem v) ctx v3"
    by (rule map_range_untouched [OF L un i(2) _ r(1)]) (use i(3,10) u in simp)
  then have "untouched (pm v) (mem v) ctx v4"
    by (rule map_range_untouched [OF L _ i(5) _ r(2)]) (use i(6,10) u in simp)
  then have "untouched (pm v) (mem v) ctx v5"
    by (rule map_range_untouched [OF L _ i(8) _ r(3)]) (use i(9,10) u in simp)
  with b show "page_used (pm v') b" "mem v' b = mem v b" by (simp_all add: untouched_def v')
qed

section \<open>The kernel's address space survives process creation\<close>

text \<open>The kernel context is active and maps the kernel to itself; and bytes of pages in use are kept.\<close>

definition kernel_active :: "layout \<Rightarrow> vmm \<Rightarrow> bool" where
  "kernel_active L v \<longleftrightarrow> identity_mapped L v \<and> cr3 v = pagedir (mem v) (kernel_context v)"

definition bytes_kept :: "vmm \<Rightarrow> vmm \<Rightarrow> bool" where
  "bytes_kept v v' \<longleftrightarrow> (\<forall>b. page_used (pm v) b \<longrightarrow> page_used (pm v') b \<and> mem v' b = mem v b)"

lemma bytes_kept_trans: "bytes_kept u v \<Longrightarrow> bytes_kept v w \<Longrightarrow> bytes_kept u w"
  by (simp add: bytes_kept_def)

lemma CreateUsermodeContext_cr3: "CreateUsermodeContext L w v = Inr (ctx, v') \<Longrightarrow> cr3 v' = cr3 v"
  by (auto simp: CreateUsermodeContext_def create_context_def Let_def kernel_simps)

lemma CreateUsermodeContext_kernel_active:
  assumes L: "layout_ok L" and act: "kernel_active L v" and u: "CreateUsermodeContext L w v = Inr (ctx, v')"
  shows "kernel_active L v' \<and> bytes_kept v v'"
proof -
  have ok: "context_ok v (kernel_context v)" using act by (simp add: kernel_active_def identity_mapped_def)
  note e = usermode_context_effect [OF L ok u]
  have "bytes_kept v v'" using e(2,17) by (simp add: bytes_kept_def)
  moreover have "\<forall>t b. context_page v (kernel_context v) t \<and> same_page b t \<longrightarrow> mem v' b = mem v b"
    using e(17) context_page_used [OF ok] page_used_same by blast
  then have "pagedir (mem v') (kernel_context v) = pagedir (mem v) (kernel_context v)"
    by (rule context_frame(1) [OF ok]) (use e(2) in blast)
  ultimately show ?thesis
    using act e(4,9,10) CreateUsermodeContext_cr3 [OF u] by (simp add: kernel_active_def identity_mapped_def)
qed

lemma CreateKernelProcess_kernel_active:
  assumes L: "layout_ok L" and act: "kernel_active L (vm s)" and run: "CreateKernelProcess L e s = Inr (p, s')"
  shows "kernel_active L (vm s') \<and> bytes_kept (vm s) (vm s')"
  using run
proof (rule CreateKernelProcess_run)
  fix stk h1 h2 ctx v
  assume u: "CreateUsermodeContext L 1 (vm s) = Inr (ctx, v)" and s': "s' = s\<lparr>vm := v, heap := h2,
      proc_at := (proc_at s)(p := (proc_at s p)\<lparr>stack := stk, sleep_timer := 0, status := PROCESS_RUNNABLE,
        p_state := stk + 4096 - sizeof_cpu, p_next := first_process s, pid := num_proc s,
        p_context := ctx, sbrk_state := 0, uid := ROOT_UID,
        messages := (messages (proc_at s p))\<lparr>num_messages := 0\<rparr>\<rparr>),
      cpu_at := (cpu_at s)(stk + 4096 - sizeof_cpu := kernel_frame e (stk + 4096)),
      first_process := p, num_proc := num_proc s + 1\<rparr>"
  show ?thesis using CreateUsermodeContext_kernel_active [OF L act u] by (simp add: s')
qed

lemma InitMultitasking_kernel_active:
  assumes L: "layout_ok L" and act: "kernel_active L (vm s)" and run: "InitMultitasking L kp idle rp s = Inr s'"
  shows "kernel_active L (vm s') \<and> bytes_kept (vm s) (vm s')"
proof -
  from run obtain p0 s1 p1 s2 p2 s3 where
    c: "CreateKernelProcess L kp s = Inr (p0, s1)" "CreateKernelProcess L idle s1 = Inr (p1, s2)"
      "CreateKernelProcess L rp (s2\<lparr>idle_process := p1\<rparr>) = Inr (p2, s3)"
    and s': "s' = upd_proc (idle_process s3) (\<lambda>p. p\<lparr>status := PROCESS_PAUSED\<rparr>) s3"
    by (auto simp: InitMultitasking_def bindE_Inr_iff)
  note a1 = CreateKernelProcess_kernel_active [OF L act c(1)]
  note a2 = CreateKernelProcess_kernel_active [OF L conjunct1 [OF a1] c(2)]
  have "kernel_active L (vm (s2\<lparr>idle_process := p1\<rparr>))" using a2 by simp
  from CreateKernelProcess_kernel_active [OF L this c(3)] a1 a2 show ?thesis
    by (auto simp: s' upd_proc_def intro: bytes_kept_trans)
qed

section \<open>From the boot loader to three processes\<close>

text \<open>
  What the boot loader leaves: \<open>loader_page env a\<close>, address \<open>a\<close> is on a page of its two structures or of a
  module; \<open>loader_room\<close>, how many of the 512 pages of the page pool hold nothing of it.
\<close>

definition loader_page :: "environment \<Rightarrow> u32 \<Rightarrow> bool" where
  "loader_page env a \<longleftrightarrow> same_page a (e_info_addr env) \<or> same_page a (mbs_mods_addr (e_info env))
     \<or> (\<exists>i < unat (mbs_mods_count (e_info env)).
          let m = e_modules env (mbs_mods_addr (e_info env) + sizeof_module * of_nat i)
          in covers (mod_start m) (mod_end m) a)"

definition loader_room :: "layout \<Rightarrow> environment \<Rightarrow> nat" where
  "loader_room L env = card {a. in_pool L a \<and> \<not> loader_page env a}"

lemma InitPmm_loader:
  assumes L: "layout_ok L" and boot: "boot_ok (e_mmap env) (e_modules env) (e_info env)"
  shows "\<exists>p. InitPmm L (e_mmap env) (e_modules env) (e_info_addr env) (e_info env) p0 = Inr p
    \<and> (\<forall>v. free_pool L (v\<lparr>pm := p\<rparr>) = loader_room L env) \<and> (\<forall>a. loader_page env a \<longrightarrow> page_used p a)"
proof -
  from InitPmm_pages [OF L boot, of "e_info_addr env" p0] obtain p where
    run: "InitPmm L (e_mmap env) (e_modules env) (e_info_addr env) (e_info env) p0 = Inr p"
    and used: "\<And>a. page_used p a \<longleftrightarrow> kernel_start L \<le> a \<and> a < kernel_end L \<or> loader_page env a
      \<or> HEAP_START L \<le> a \<and> a < HEAP_END L \<or> same_page a 0"
    unfolding loader_page_def by blast
  have "page_used p a \<longleftrightarrow> loader_page env a" if a: "in_pool L a" for a
  proof -
    have al: "page_aligned a" "unat (kernel_end L) \<le> unat a" "unat a < unat (HEAP_START L)"
      using a init_ranges(11) [OF L] layout_unat [OF L] by (auto simp: in_pool_def word_le_nat_alt word_less_nat_alt)
    have "kernel_start L < kernel_end L" using L by (simp add: layout_ok_def)
    then have "unat a \<noteq> 0" using al(2) by (simp add: word_less_nat_alt)
    then have "\<not> same_page a 0" using al(1) same_page_aligned [of a 0] by auto
    with al(2,3) show ?thesis by (simp add: used word_le_nat_alt word_less_nat_alt)
  qed
  then have "{a. in_pool L a \<and> \<not> page_used p a} = {a. in_pool L a \<and> \<not> loader_page env a}" by blast
  then show ?thesis using run used by (simp add: free_pool_def loader_room_def)
qed

lemma start_kernel_boots:
  assumes L: "layout_ok L" and boot: "boot_ok (e_mmap env) (e_modules env) (e_info env)"
    and room: "265 \<le> loader_room L env"
    and zero: "clean k" "first_process k = 0" "num_proc k = 0" "current_process k = 0"
  shows "\<exists>k' p0 p1 p2. start_kernel L env k = Inr k' \<and> kernel_inv L k' [p2, p1, p0] (\<lambda>_. [])
    \<and> idle_process k' = p1 \<and> map (\<lambda>p. pid (proc_at k' p)) [p0, p1, p2] = [0, 1, 2] \<and> num_proc k' = 3
    \<and> status (proc_at k' p1) = PROCESS_PAUSED
    \<and> status (proc_at k' p0) = PROCESS_RUNNABLE \<and> status (proc_at k' p2) = PROCESS_RUNNABLE
    \<and> kernel_active L (vm k') \<and> (\<forall>a. loader_page env a \<longrightarrow> mem (vm k') a = mem (vm k) a)
    \<and> filled L (heap k') (unat (HEAP_START L) + 12556)"
proof -
  obtain p where pmm: "InitPmm L (e_mmap env) (e_modules env) (e_info_addr env) (e_info env) (pm (vm k)) = Inr p"
    and free: "\<And>v. free_pool L (v\<lparr>pm := p\<rparr>) = loader_room L env" and used: "\<And>a. loader_page env a \<Longrightarrow> page_used p a"
    using InitPmm_loader [OF L boot, of "pm (vm k)"] by blast
  obtain v where v: "InitVmm L ((vm k)\<lparr>pm := p\<rparr>) = Inr v" "6 \<le> free_pool L v" "kernel_context v \<noteq> 0"
    using InitVmm_succeeds [OF L, of "(vm k)\<lparr>pm := p\<rparr>"] room free by auto
  let ?k = "k\<lparr>vm := v, heap := kinit_heap L (heap k)\<rparr>"
  have "clean ?k" using zero(1) by (simp add: clean_def)
  then have P: "heap ?k = kinit_heap L (heap k)" "clean ?k" "first_process ?k = 0" "num_proc ?k = 0" "current_process ?k = 0"
    "6 \<le> free_pool L (vm ?k)" "kernel_context (vm ?k) \<noteq> 0" using v zero by simp_all
  from InitMultitasking_boots [OF L P, of "e_kernel_proc env" "e_idle env" "e_ramdisk_proc env"]
  obtain k' p0 p1 p2 where
    run: "InitMultitasking L (e_kernel_proc env) (e_idle env) (e_ramdisk_proc env) ?k = Inr k'"
      "kernel_inv L k' [p2, p1, p0] (\<lambda>_. [])" "idle_process k' = p1"
      "map (\<lambda>p. pid (proc_at k' p)) [p0, p1, p2] = [0, 1, 2]" "num_proc k' = 3"
      "status (proc_at k' p1) = PROCESS_PAUSED"
      "status (proc_at k' p0) = PROCESS_RUNNABLE" "status (proc_at k' p2) = PROCESS_RUNNABLE"
    by (elim exE conjE) (rule that; assumption)
  have fill: "filled L (heap k') (unat (HEAP_START L) + 12556)"
    using InitMultitasking_succeeds [OF L P(1,6,7), of "e_kernel_proc env" "e_idle env" "e_ramdisk_proc env"] run(1) by auto
  have "kernel_active L v" using InitVmm_identity_mapped [OF L v(1)] by (simp add: kernel_active_def)
  then have act: "kernel_active L (vm k')" "bytes_kept v (vm k')"
    using InitMultitasking_kernel_active [OF L _ run(1)] by simp_all
  have "mem (vm k') a = mem (vm k) a" if "loader_page env a" for a
    using InitVmm_keeps [OF L v(1), of a] used [OF that] act(2) by (simp add: bytes_kept_def)
  then show ?thesis using pmm v(1) run act(1) fill
    by (intro exI [of _ k'] exI [of _ p0] exI [of _ p1] exI [of _ p2]) (simp add: start_kernel_def)
qed

section \<open>Properties\<close>

text \<open>
  C20: With 259 free pages in the page pool (the context and its directory, and at most 257 page tables) \<open>InitVmm\<close>
  returns: afterwards paging is on in a kernel context that maps to themselves exactly the pages from the
  kernel's first to the one that starts at the end of the heap: kernel image, page pool and heap, and one page
  more, which \<open>map_range\<close> adds. So the code that runs and every structure it holds a pointer to stay where
  they are; no other address is mapped.
\<close>

theorem InitVmm_identity:
  assumes "layout_ok L" "259 \<le> free_pool L v"
  shows "\<exists>v'. InitVmm L v = Inr v' \<and> identity_mapped L v' \<and> current_context v' = kernel_context v'
    \<and> cr3 v' = pagedir (mem v') (kernel_context v') \<and> bit (cr0 v') 31"
  using InitVmm_succeeds [OF assms] InitVmm_identity_mapped [OF assms(1)] by blast


section \<open>The RAM disk\<close>

text \<open>With the kernel context active, memory is seen where it is from the kernel's first page to the heap's end.\<close>

definition kernel_mapped :: "layout \<Rightarrow> u32 \<Rightarrow> bool" where
  "kernel_mapped L a \<longleftrightarrow> kernel_start L \<le> frame_of a \<and> frame_of a \<le> HEAP_END L"

lemma join_parts: "frame_of a OR (a AND 0xFFF) = a"
  unfolding frame_of_def mask12 by (rule bit_word_eqI) (auto simp: bit_simps)

lemma virt_to_phys_kernel:
  assumes "kernel_active L v" "kernel_mapped L a"
  shows "virt_to_phys v a = Inr a" "seen v a = mem v a" "read8 a v = Inr (mem v a)"
proof -
  have "mmu_walk (mem v) (cr3 v) a = Some (frame_of a OR page_flags 1)"
    using assms by (simp add: kernel_active_def identity_mapped_def walk_context_def kernel_mapped_def page_flags_def)
  then show phys: "virt_to_phys v a = Inr a" by (simp add: virt_to_phys_def join_parts)
  then show "seen v a = mem v a" "read8 a v = Inr (mem v a)" by (simp_all add: seen_def read8_def)
qed

lemma touch_kernel:
  assumes "kernel_active L v" "\<And>i. i < n \<Longrightarrow> kernel_mapped L (a + of_nat i)"
  shows "touch v a n = Inr ()"
proof -
  have "foldE (\<lambda>i _. bindE (virt_to_phys v (a + of_nat i)) (\<lambda>_. Inr ())) js () = Inr ()" if "\<forall>i \<in> set js. i < n" for js
    using that assms virt_to_phys_kernel(1) [OF assms(1)] by (induction js) auto
  then show ?thesis by (simp add: touch_def)
qed

lemma touch_archive_kernel:
  assumes act: "kernel_active L v" and "archive (seen v) a hs"
    and "\<And>b. b \<in> set (archive_reads (seen v) a hs) \<Longrightarrow> kernel_mapped L b"
  shows "touch_archive v a = Some (Inr ())"
  using assms(2,3)
proof (induction hs arbitrary: a)
  case Nil
  then show ?case using virt_to_phys_kernel(2,3) [OF act, of a] by (simp add: touch_archive.simps [of v a])
next
  case (Cons h hs)
  have "touch v (header_size h) 11 = Inr ()" by (rule touch_kernel [OF act]) (use Cons.prems(2) in auto)
  moreover have "touch_archive v (next_header (seen v) h) = Some (Inr ())" using Cons by auto
  moreover have "read8 h v = Inr (seen v h)" using virt_to_phys_kernel [OF act, of h] Cons.prems by simp
  ultimately show ?case using Cons.prems(1) by (simp add: touch_archive.simps [of v h])
qed

text \<open>
  A RAM disk the boot loader has put into memory: the first module starts with an archive with headers \<open>hs\<close>;
  every byte that walking it reads, and the boot loader's structures, are on pages of the boot loader that the
  kernel maps.
\<close>

definition disk_loaded :: "layout \<Rightarrow> environment \<Rightarrow> memory \<Rightarrow> u32 list \<Rightarrow> bool" where
  "disk_loaded L env m hs \<longleftrightarrow>
     (let mods = mbs_mods_addr (e_info env); addr = mod_start (e_modules env mods) in
      addr \<noteq> 0 \<and> hs \<noteq> [] \<and> archive m addr hs
    \<and> (\<forall>a \<in> set (archive_reads m addr hs). loader_page env a \<and> kernel_mapped L a)
    \<and> (\<forall>i < 4. kernel_mapped L (e_info_addr env + 24 + of_nat i) \<and> kernel_mapped L (mods + of_nat i)))"

lemma archive_reads_cong:
  assumes "archive m a hs" "\<And>b. b \<in> set (archive_reads m a hs) \<Longrightarrow> m' b = m b"
  shows "archive_reads m' a hs = archive_reads m a hs"
  using assms
proof (induction hs arbitrary: a)
  case (Cons h hs)
  have "get_size m' (header_size h) = get_size m (header_size h)"
    by (rule get_size_cong, rule Cons.prems(2)) auto
  then have "next_header m' h = next_header m h" by (simp add: next_header_def Let_def)
  then show ?case using Cons by auto
qed simp

lemma init_disk_loaded:
  assumes act: "kernel_active L (vm k)" and disk: "disk_loaded L env m hs"
    and same: "\<And>a. loader_page env a \<Longrightarrow> mem (vm k) a = m a"
    and heap: "filled L (heap k) e" "e < unat (HEAP_END L)"
  shows "\<exists>rd' h. init_disk L env rd k = Inr (rd', h) \<and> file_table rd' = hs \<and> unat (fileno rd') = length hs"
proof -
  let ?mods = "mbs_mods_addr (e_info env)" and ?s = "seen (vm k)"
  let ?addr = "mod_start (e_modules env ?mods)"
  have d: "?addr \<noteq> 0" "hs \<noteq> []" "archive m ?addr hs"
    and reads: "\<And>a. a \<in> set (archive_reads m ?addr hs) \<Longrightarrow> loader_page env a \<and> kernel_mapped L a"
    and info: "\<And>i. i < 4 \<Longrightarrow> kernel_mapped L (e_info_addr env + 24 + of_nat i)" "\<And>i. i < 4 \<Longrightarrow> kernel_mapped L (?mods + of_nat i)"
    using disk by (simp_all add: disk_loaded_def Let_def)
  have eq: "?s a = m a" if "a \<in> set (archive_reads m ?addr hs)" for a
    using virt_to_phys_kernel(2) [OF act] reads [OF that] same by simp
  have ar: "archive ?s ?addr hs" "archive_reads ?s ?addr hs = archive_reads m ?addr hs"
    using archive_cong [OF d(3), of ?s] archive_reads_cong [OF d(3), of ?s] eq by simp_all
  have len: "length hs \<le> 8388608" by (rule archive_length [OF d(3)])
  have n: "unat (of_nat (length hs) :: u32) = length hs" using len by (simp add: unat_of_nat)
  have four: "unat (4 * of_nat (length hs) :: u32) = 4 * length hs" using n len by (simp add: unat_word_ariths)
  have "0 < length hs" using d(2) by simp
  then have sz: "0 < (4 * of_nat (length hs) :: u32)" "request_ok (4 * of_nat (length hs))"
    using four len by (simp_all add: word_less_nat_alt request_ok_def word_le_nat_alt)
  obtain p h' where k: "kmalloc L (4 * of_nat (length hs)) (heap k) = Inr (p, h')"
    using filled_kmalloc [OF heap sz refl] by blast
  have "heap_ok L (heap k)" using heap(1) by (auto simp: filled_def heap_ok_def)
  then have p: "p \<noteq> 0" by (rule kmalloc_live(2) [OF _ sz(2) k])
  have "touch (vm k) (e_info_addr env + 24) 4 = Inr ()" "touch (vm k) ?mods 4 = Inr ()"
    using info by (auto intro!: touch_kernel [OF act])
  moreover have "touch_archive (vm k) ?addr = Some (Inr ())"
    using touch_archive_kernel [OF act ar(1)] reads by (simp add: ar(2))
  ultimately have "init_disk L env rd k = InitRamdisk L ?s ?addr rd (heap k)"
    using d(1) by (simp add: init_disk_def Let_def)
  also have "\<dots> = Inr (rd\<lparr>first_file := ?addr, fileno := of_nat (length hs), files := p, file_table := hs\<rparr>, h')"
    by (rule InitRamdisk_lists [OF ar(1) d(1,2) _ k p]) (use len in simp)
  finally show ?thesis using n by simp
qed

lemma init_disk_heap:
  assumes run: "init_disk L env rd0 k = Inr (rd, h)" and ok: "kernel_inv L k ps Q"
  shows "kernel_inv L (k\<lparr>heap := h\<rparr>) ps Q"
proof -
  from run obtain addr where "InitRamdisk L (seen (vm k)) addr rd0 (heap k) = Inr (rd, h)"
    by (auto simp: init_disk_def Let_def kernel_simps)
  from InitRamdisk_count [OF this] obtain p where k: "kmalloc L (4 * fileno rd) (heap k) = Inr (p, h)"
    and small: "unat (fileno rd) \<le> 8388608" by blast
  then have "unat (4 * fileno rd) = 4 * unat (fileno rd)" by (simp add: unat_word_ariths)
  then have "unat (4 * fileno rd) \<le> 0x80000000" using small by simp
  then have "request_ok (4 * fileno rd)" by (simp add: request_ok_def word_le_nat_alt)
  note l = kmalloc_live [OF system_okD(5) this k]
  have ok': "system_ok L k ps Q" using ok by (simp add: kernel_inv_def)
  from system_ok_heap [OF ok' l(1) [OF ok'], of "vm k"] l(4) [OF ok'] have "system_ok L (k\<lparr>heap := h\<rparr>) ps Q" by simp
  then show ?thesis using ok by (simp add: kernel_inv_def)
qed


section \<open>Witnesses\<close>

definition example_env :: environment where
  "example_env = \<lparr>e_cpuid = example_cpuid, e_tss = 0x140000, e_gdt = 0x141000, e_esp = 0x142000, e_stubs = \<lambda>n. 0x100000,
     e_mmap = example_mmap, e_modules = example_module, e_info_addr = 0x9500, e_info = example_info,
     e_kernel_proc = 0x100100, e_idle = 0x100200, e_ramdisk_proc = 0x100300\<rparr>"

lemma example_env_sel:
  "e_mmap example_env = example_mmap" "e_modules example_env = example_module"
  "e_info_addr example_env = 0x9500" "e_info example_env = example_info"
  by (simp_all add: example_env_def)

lemma example_pool_room:
  assumes "\<And>a. page_aligned a \<Longrightarrow> 0x170000 \<le> a \<Longrightarrow> a < 0x350000 \<Longrightarrow> \<not> page_used (pm v) a"
  shows "480 \<le> free_pool example_layout v"
proof -
  let ?f = "\<lambda>k. 0x170000 + 0x1000 * of_nat k :: u32"
  have at: "unat (?f k) = 0x170000 + 4096 * k" if "k < 480" for k
  proof -
    have "unat (of_nat k :: u32) = k" using that by (simp add: unat_of_nat)
    then show ?thesis using that by (simp add: unat_word_ariths)
  qed
  have "?f k \<in> {a. in_pool example_layout a \<and> \<not> page_used (pm v) a}" if k: "k < 480" for k
  proof -
    have "page_aligned (?f k)" by (rule page_aligned_step) simp
    moreover have "0x170000 \<le> ?f k" "?f k < 0x350000" using at [OF k] k by (simp_all add: word_le_nat_alt word_less_nat_alt)
    moreover have "0x150000 \<le> ?f k" using at [OF k] by (simp add: word_le_nat_alt)
    ultimately show ?thesis using assms [of "?f k"] by (simp add: in_pool_def)
  qed
  then have "?f ` {..<480} \<subseteq> {a. in_pool example_layout a \<and> \<not> page_used (pm v) a}" by blast
  then have "card (?f ` {..<480}) \<le> free_pool example_layout v"
    unfolding free_pool_def by (intro card_mono) simp_all
  moreover have "card (?f ` {..<480}) = 480"
  proof -
    have "inj_on ?f {..<480}"
    proof (rule inj_onI)
      fix j k assume "j \<in> {..<480::nat}" "k \<in> {..<480}" "?f j = ?f k"
      then have "0x170000 + 4096 * j = 0x170000 + 4096 * k" using at [of j] at [of k] by (metis lessThan_iff)
      then show "j = k" by simp
    qed
    then show ?thesis by (simp add: card_image)
  qed
  ultimately show ?thesis by simp
qed

lemma example_env_pmm:
  "\<exists>p. InitPmm example_layout example_mmap example_module 0x9500 example_info p0 = Inr p
     \<and> 265 \<le> free_pool example_layout (v\<lparr>pm := p\<rparr>)"
proof -
  have "boot_ok example_mmap example_module example_info"
    by (simp add: boot_ok_def example_info_def example_mmap_def example_module_def)
  from InitPmm_pages [OF example_layout_ok this, of "0x9500" p0] obtain p where
    p: "InitPmm example_layout example_mmap example_module 0x9500 example_info p0 = Inr p"
    and used: "\<And>a. page_used p a \<longleftrightarrow> a < 0x150000 \<or> same_page a 0x9500 \<or> same_page a 0x10000
      \<or> covers 0x151000 0x170000 a \<or> 0x350000 \<le> a \<and> a < 0x1750000 \<or> same_page a 0"
    by (auto simp: example_info_def example_module_def Let_def)
  have "\<not> page_used p a" if a: "page_aligned a" "0x170000 \<le> a" "a < 0x350000" for a
  proof -
    have "0x170000 \<le> unat a" "unat a < 0x350000" using a(2,3) by (simp_all add: word_le_nat_alt word_less_nat_alt)
    then have "\<not> same_page a 0x9500" "\<not> same_page a 0x10000" "\<not> same_page a 0"
      using div_le_mono [of "0x170000" "unat a" 4096] by (auto simp: same_page_unat)
    then show ?thesis using a by (auto simp: used covers_aligned word_le_nat_alt word_less_nat_alt)
  qed
  then have "480 \<le> free_pool example_layout (v\<lparr>pm := p\<rparr>)" by (intro example_pool_room) simp
  then show ?thesis using p by auto
qed

theorem InitVmm_identity_witness:
  "\<exists>p v'. InitVmm example_layout (example_vmm\<lparr>pm := p\<rparr>) = Inr v' \<and> bit (cr0 v') 31
     \<and> walk_context v' (kernel_context v') 0x100123 = Some 0x100007"
proof -
  obtain p where "265 \<le> free_pool example_layout (example_vmm\<lparr>pm := p\<rparr>)" using example_env_pmm by blast
  then have "259 \<le> free_pool example_layout (example_vmm\<lparr>pm := p\<rparr>)" by simp
  from InitVmm_identity [OF example_layout_ok this] obtain v' where
    "InitVmm example_layout (example_vmm\<lparr>pm := p\<rparr>) = Inr v'" "identity_mapped example_layout v'" "bit (cr0 v') 31"
    by blast
  then show ?thesis by (intro exI [of _ p] exI [of _ v']) (simp add: identity_mapped_def frame_of_def)
qed

lemma example_loader:
  "boot_ok (e_mmap example_env) (e_modules example_env) (e_info example_env)" "265 \<le> loader_room example_layout example_env"
proof -
  show boot: "boot_ok (e_mmap example_env) (e_modules example_env) (e_info example_env)"
    by (simp add: example_env_sel boot_ok_def example_info_def example_mmap_def example_module_def)
  from InitPmm_loader [OF example_layout_ok this, of "pm example_vmm"] example_env_pmm [of "pm example_vmm" example_vmm]
  show "265 \<le> loader_room example_layout example_env" by (auto simp: example_env_sel)
qed

text \<open>Memory with an archive of one empty file named \<open>a\<close> at the start of the module.\<close>

definition disk_kernel :: kernel where
  "disk_kernel = boot_kernel\<lparr>vm := example_vmm\<lparr>mem :=
     \<lambda>a. if a = 0x151000 then 97 else if 0x15107C \<le> a \<and> a < 0x151087 then 48 else 0\<rparr>\<rparr>"

lemma disk_kernel_sel [simp]:
  "clean disk_kernel" "first_process disk_kernel = 0" "num_proc disk_kernel = 0" "current_process disk_kernel = 0"
  using boot_kernel_sel by (simp_all add: disk_kernel_def clean_def)


definition example_boot :: boot where
  "example_boot = \<lparr>b_machine = booted disk_kernel, b_serial = ready_serial, b_gdt = [], b_idt = [],
     b_ramdisk = \<lparr>files = 0, file_table = [], first_file = 0, fileno = 0\<rparr>\<rparr>"

lemma kernel_mapped_example: "kernel_mapped example_layout a \<longleftrightarrow> frame_of a \<le> 0x1750000"
  by (simp add: kernel_mapped_def)

lemma example_disk_loaded: "disk_loaded example_layout example_env (mem (vm disk_kernel)) [0x151000]"
proof -
  let ?m = "mem (vm disk_kernel)"
  have "get_size ?m 0x15107C = 0" by (simp add: get_size_def disk_kernel_def upt_rec)
  then have nh: "next_header ?m 0x151000 = 0x151200" by (simp add: next_header_def header_size_def)
  have "archive ?m 0x151000 [0x151000]" unfolding archive.simps nh by (simp add: disk_kernel_def)
  moreover have "loader_page example_env a" if "0x151000 \<le> a" "a < 0x170000" for a
    using that by (simp add: loader_page_def example_env_sel example_info_def example_module_def covers_aligned)
  moreover have "kernel_mapped example_layout a" if "a < 0x170000" for a
  proof -
    have "frame_of a \<le> a" by (simp add: frame_of_def word_and_le1 word_and_le2)
    with that show ?thesis by (simp add: kernel_mapped_example word_less_nat_alt word_le_nat_alt)
  qed
  moreover have near: "x \<le> x + of_nat i \<and> x + of_nat i < 0x170000" if "i < 16" "unat x \<le> 0x160000" for i and x :: u32
    using that by (simp add: word_le_nat_alt word_less_nat_alt unat_word_ariths unat_of_nat)
  moreover have "0x151000 \<le> 0x15107C + (of_nat i :: u32)" if "i < 16" for i
    using near [OF that, of "0x15107C"] order.trans [of "0x151000" "0x15107C" "0x15107C + (of_nat i :: u32)"] by simp
  ultimately show ?thesis
    by (simp add: disk_loaded_def example_env_sel example_info_def example_module_def Let_def nh header_size_def
        del: of_nat_add)
qed


end
