(* ===== verification/Virtual_Memory.thy ===== *)
theory Virtual_Memory
  imports Boot
begin

text \<open>
  Memory as a program sees it, through the page walk: where an address of a context lies in physical
  memory, what copying and filling memory (\<open>memcpy\<close>, \<open>memset\<close>) does to a context that is active, and which
  bytes mapping pages leaves alone. Shared by the properties of the program loader.
\<close>

section \<open>Physical addresses\<close>

definition phys_addr :: "vmm \<Rightarrow> u32 \<Rightarrow> u32 \<Rightarrow> u32 option" where
  "phys_addr v ctx a = map_option (\<lambda>pte. frame_of pte OR (a AND 0xFFF)) (walk_context v ctx a)"

definition active :: "vmm \<Rightarrow> u32 \<Rightarrow> bool" where
  "active v ctx \<longleftrightarrow> cr3 v = pagedir (mem v) ctx"

lemma virt_to_phys_active: "active v ctx \<Longrightarrow> phys_addr v ctx a = Some p \<Longrightarrow> virt_to_phys v a = Inr p"
  by (auto simp: virt_to_phys_def active_def phys_addr_def walk_context_def split: option.splits)

lemma frame_of_join [simp]: "frame_of (frame_of e OR (a AND 0xFFF)) = frame_of e"
  unfolding frame_of_def mask12 by (rule bit_word_eqI) (auto simp: bit_simps)

lemma offset_join [simp]: "(frame_of e OR (a AND 0xFFF)) AND 0xFFF = a AND 0xFFF"
  unfolding frame_of_def mask12 by (rule bit_word_eqI) (auto simp: bit_simps)

lemma eq_parts: "frame_of a = frame_of b \<Longrightarrow> a AND 0xFFF = b AND 0xFFF \<Longrightarrow> a = b"
  by (metis join_parts)

lemma same_page_frames: "same_page a b \<longleftrightarrow> frame_of a = frame_of b"
proof -
  have "same_page b (frame_of b)" using same_page_frame [of "frame_of b" b] by simp
  then have "same_page a b \<longleftrightarrow> same_page a (frame_of b)" using same_page_trans same_page_sym by blast
  then show ?thesis using same_page_frame [of "frame_of b" a] by simp
qed

lemma phys_addr_parts:
  "phys_addr v ctx a = Some p \<Longrightarrow> \<exists>pte. walk_context v ctx a = Some pte \<and> frame_of p = frame_of pte \<and> p AND 0xFFF = a AND 0xFFF"
  by (auto simp: phys_addr_def)

text \<open>Translations of a context whose entries for two pages name different frames do not meet.\<close>

lemma phys_addr_apart:
  assumes "phys_addr v c a = Some p" "phys_addr v' c' b = Some q" "walk_context v c a = Some e" "walk_context v' c' b = Some f"
    and "frame_of e \<noteq> frame_of f"
  shows "p \<noteq> q"
  using phys_addr_parts [OF assms(1)] phys_addr_parts [OF assms(2)] assms(3-5) by auto

section \<open>Writing data\<close>

text \<open>Pages that hold page tables lie in the page pool; data is what lies elsewhere.\<close>

definition pool_address :: "layout \<Rightarrow> u32 \<Rightarrow> bool" where
  "pool_address L b \<longleftrightarrow> PAGEPOOL_START L \<le> b \<and> b < PAGEPOOL_END L"

definition tables_in_pool :: "layout \<Rightarrow> vmm \<Rightarrow> u32 \<Rightarrow> bool" where
  "tables_in_pool L v ctx \<longleftrightarrow> context_ok v ctx \<and> (\<forall>t. context_page v ctx t \<longrightarrow> in_pool L t)"

lemma pool_page_address:
  assumes L: "layout_ok L" and t: "in_pool L t" and b: "same_page b t"
  shows "pool_address L b"
proof -
  obtain k where k: "unat t = k * 4096" using t by (auto simp: in_pool_def elim: page_alignedE)
  have "page_aligned (kernel_end L)" using L by (simp add: layout_ok_def)
  then obtain s where s: "unat (kernel_end L) = s * 4096" by (rule page_alignedE)
  have "unat b div 4096 = k" using b k by (simp add: same_page_unat)
  then have r: "k * 4096 \<le> unat b" "unat b < k * 4096 + 4096"
    using div_mult_mod_eq [of "unat b" 4096] mod_less_divisor [of 4096 "unat b"] by simp_all
  have m: "s \<le> k" "k * 4096 < s * 4096 + 0x200000"
    using t layout_unat [OF L] k s by (auto simp: in_pool_def PAGEPOOL_START_def word_le_nat_alt word_less_nat_alt)
  then have "k < s + 512" by linarith
  then have "k * 4096 + 4096 \<le> s * 4096 + 0x200000" by simp
  with r m(1) have "s * 4096 \<le> unat b" "unat b < s * 4096 + 0x200000" by linarith+
  then show ?thesis
    using s layout_unat [OF L] by (simp add: pool_address_def PAGEPOOL_START_def word_le_nat_alt word_less_nat_alt)
qed

lemma data_frame:
  assumes L: "layout_ok L" and ok: "tables_in_pool L v ctx"
    and same: "\<forall>b. pool_address L b \<longrightarrow> mem v' b = mem v b" and mono: "\<forall>b. page_used (pm v) b \<longrightarrow> page_used (pm v') b"
  shows "tables_in_pool L v' ctx" "pagedir (mem v') ctx = pagedir (mem v) ctx" "phys_addr v' ctx a = phys_addr v ctx a"
    "walk_context v' ctx a = walk_context v ctx a"
    "context_page v' ctx t \<longleftrightarrow> context_page v ctx t"
    "i < 1024 \<Longrightarrow> table_at (mem v') (pagedir (mem v) ctx) i = table_at (mem v) (pagedir (mem v) ctx) i"
proof -
  have cok: "context_ok v ctx" using ok by (simp add: tables_in_pool_def)
  have eq: "\<forall>t b. context_page v ctx t \<and> same_page b t \<longrightarrow> mem v' b = mem v b"
    using ok same pool_page_address [OF L] by (auto simp: tables_in_pool_def)
  note f = context_frame [OF cok eq mono]
  show "pagedir (mem v') ctx = pagedir (mem v) ctx" "phys_addr v' ctx a = phys_addr v ctx a"
    "walk_context v' ctx a = walk_context v ctx a"
    "context_page v' ctx t \<longleftrightarrow> context_page v ctx t"
    "i < 1024 \<Longrightarrow> table_at (mem v') (pagedir (mem v) ctx) i = table_at (mem v) (pagedir (mem v) ctx) i"
    by (simp_all add: phys_addr_def f)
  show "tables_in_pool L v' ctx" using ok f(4,5) by (simp add: tables_in_pool_def)
qed

text \<open>
  A loop that writes \<open>n\<close> bytes from \<open>dest\<close> on, each computed from the state by \<open>get\<close>, as \<open>memcpy\<close> and \<open>memset\<close>
  do: where the destination is mapped to data, and what is read does not lie in it, it writes what
  \<open>get\<close> had to give at the start.
\<close>

lemma write_bytes:
  assumes L: "layout_ok L" and ok: "tables_in_pool L v ctx" and act: "active v ctx"
    and dst: "\<And>i. i < n \<Longrightarrow> phys_addr v ctx (dest + of_nat i) = Some (dp i) \<and> \<not> pool_address L (dp i)"
    and inj: "inj_on dp {..<n}"
    and get: "\<And>i m. i < n \<Longrightarrow> (\<forall>b. b \<notin> dp ` {..<n} \<longrightarrow> m b = mem v b) \<Longrightarrow> get i (v\<lparr>mem := m\<rparr>) = Inr (c i)"
  shows "\<exists>m. foldE (\<lambda>i v. bindE (get i v) (\<lambda>b. write8 (dest + of_nat i) b v)) [0..<n] v = Inr (v\<lparr>mem := m\<rparr>)
    \<and> (\<forall>i < n. m (dp i) = c i) \<and> (\<forall>b. b \<notin> dp ` {..<n} \<longrightarrow> m b = mem v b)"
proof -
  have "\<exists>m. foldE (\<lambda>i v. bindE (get i v) (\<lambda>b. write8 (dest + of_nat i) b v)) [0..<k] v = Inr (v\<lparr>mem := m\<rparr>)
    \<and> (\<forall>i < k. m (dp i) = c i) \<and> (\<forall>b. b \<notin> dp ` {..<k} \<longrightarrow> m b = mem v b)" if "k \<le> n" for k
    using that
  proof (induction k)
    case 0
    then show ?case by (intro exI [of _ "mem v"]) simp
  next
    case (Suc k)
    then obtain m where run: "foldE (\<lambda>i v. bindE (get i v) (\<lambda>b. write8 (dest + of_nat i) b v)) [0..<k] v = Inr (v\<lparr>mem := m\<rparr>)"
      and m: "\<forall>i < k. m (dp i) = c i" "\<forall>b. b \<notin> dp ` {..<k} \<longrightarrow> m b = mem v b" by auto
    have k: "k < n" using Suc.prems by simp
    have out: "\<forall>b. b \<notin> dp ` {..<n} \<longrightarrow> m b = mem v b"
      using m(2) k by (metis image_mono lessThan_subset_iff less_imp_le subset_iff)
    have "b \<notin> dp ` {..<n}" if "pool_address L b" for b using dst that by blast
    then have "\<forall>b. pool_address L b \<longrightarrow> mem (v\<lparr>mem := m\<rparr>) b = mem v b" using out by simp
    note f = data_frame [OF L ok this, simplified]
    have "active (v\<lparr>mem := m\<rparr>) ctx" using act f(2) by (simp add: active_def)
    moreover have "phys_addr (v\<lparr>mem := m\<rparr>) ctx (dest + of_nat k) = Some (dp k)" using f(3) dst [OF k] by simp
    ultimately have "virt_to_phys (v\<lparr>mem := m\<rparr>) (dest + of_nat k) = Inr (dp k)" by (rule virt_to_phys_active)
    define m' where "m' = m(dp k := c k)"
    from \<open>virt_to_phys (v\<lparr>mem := m\<rparr>) (dest + of_nat k) = Inr (dp k)\<close>
    have step: "bindE (get k (v\<lparr>mem := m\<rparr>)) (\<lambda>b. write8 (dest + of_nat k) b (v\<lparr>mem := m\<rparr>))
        = Inr (v\<lparr>mem := m'\<rparr>)"
      using get [OF k out] by (simp add: write8_def m'_def)
    have "dp i \<noteq> dp k" if "i < k" for i using inj that k by (auto dest: inj_onD [of dp _ i k])
    then have "\<forall>i < Suc k. m' (dp i) = c i" using m(1) by (auto simp: less_Suc_eq m'_def)
    moreover have "\<forall>b. b \<notin> dp ` {..<Suc k} \<longrightarrow> m' b = mem v b"
      using m(2) by (auto simp: lessThan_Suc m'_def)
    ultimately show ?case using run step by (intro exI [of _ m']) (simp add: foldE_append)
  qed
  then show ?thesis by blast
qed

lemma memset_writes:
  assumes "layout_ok L" "tables_in_pool L v ctx" "active v ctx"
    and "\<And>i. i < unat n \<Longrightarrow> phys_addr v ctx (dest + of_nat i) = Some (dp i) \<and> \<not> pool_address L (dp i)"
    and "inj_on dp {..<unat n}"
  shows "\<exists>m. memset dest c n v = Inr (v\<lparr>mem := m\<rparr>)
    \<and> (\<forall>i < unat n. m (dp i) = c) \<and> (\<forall>b. b \<notin> dp ` {..<unat n} \<longrightarrow> m b = mem v b)"
  using write_bytes [OF assms, where get = "\<lambda>_ _. Inr c" and c = "\<lambda>_. c"] by (simp add: memset_def)

lemma memcpy_writes:
  assumes L: "layout_ok L" and ok: "tables_in_pool L v ctx" and act: "active v ctx"
    and dst: "\<And>i. i < unat n \<Longrightarrow> phys_addr v ctx (dest + of_nat i) = Some (dp i) \<and> \<not> pool_address L (dp i)"
    and inj: "inj_on dp {..<unat n}"
    and src: "\<And>i. i < unat n \<Longrightarrow> phys_addr v ctx (src + of_nat i) = Some (sp i) \<and> sp i \<notin> dp ` {..<unat n}"
  shows "\<exists>m. memcpy dest src n v = Inr (v\<lparr>mem := m\<rparr>)
    \<and> (\<forall>i < unat n. m (dp i) = mem v (sp i)) \<and> (\<forall>b. b \<notin> dp ` {..<unat n} \<longrightarrow> m b = mem v b)"
  unfolding memcpy_def
proof (rule write_bytes [OF L ok act dst inj])
  fix i m
  assume i: "i < unat n" and m: "\<forall>b. b \<notin> dp ` {..<unat n} \<longrightarrow> m b = mem v b"
  have "b \<notin> dp ` {..<unat n}" if "pool_address L b" for b using dst that by blast
  then have "\<forall>b. pool_address L b \<longrightarrow> mem (v\<lparr>mem := m\<rparr>) b = mem v b" using m by simp
  note f = data_frame [OF L ok this, simplified]
  have "active (v\<lparr>mem := m\<rparr>) ctx" using act f(2) by (simp add: active_def)
  moreover have "phys_addr (v\<lparr>mem := m\<rparr>) ctx (src + of_nat i) = Some (sp i)" using f(3) src [OF i] by simp
  ultimately have "virt_to_phys (v\<lparr>mem := m\<rparr>) (src + of_nat i) = Inr (sp i)" by (rule virt_to_phys_active)
  then show "read8 (src + of_nat i) (v\<lparr>mem := m\<rparr>) = Inr (mem v (sp i))"
    using m src [OF i] by (simp add: read8_def)
qed

section \<open>What mapping leaves alone\<close>

text \<open>
  Mapping a page in a context whose tables lie in the pool writes to the pool only; its page tables
  afterwards are those of before and pages of the pool that were not in use.
\<close>

definition fresh_table :: "layout \<Rightarrow> vmm \<Rightarrow> u32 \<Rightarrow> bool" where
  "fresh_table L v t \<longleftrightarrow> in_pool L t \<and> \<not> page_used (pm v) t"

lemma get_page_table_frame:
  assumes L: "layout_ok L" and ok: "tables_in_pool L v ctx" and i: "i < 1024"
    and get: "get_page_table L ctx i (page_flags us) v = Inr (t, v')"
  shows "j < 1024 \<Longrightarrow> table_at (mem v') (pagedir (mem v) ctx) j = Some s \<Longrightarrow>
      table_at (mem v) (pagedir (mem v) ctx) j = Some s \<or> j = i \<and> fresh_table L v s"
    "\<not> pool_address L b \<Longrightarrow> mem v' b = mem v b"
    "cr3 v' = cr3 v" "current_context v' = current_context v" "in_pool L t"
    "j < 1024 \<Longrightarrow> j \<noteq> i \<Longrightarrow> table_at (mem v') (pagedir (mem v) ctx) j = table_at (mem v) (pagedir (mem v) ctx) j"
proof -
  have cok: "context_ok v ctx" and pool: "\<And>t. context_page v ctx t \<Longrightarrow> in_pool L t"
    using ok by (auto simp: tables_in_pool_def)
  have "(j < 1024 \<longrightarrow> table_at (mem v') (pagedir (mem v) ctx) j = Some s \<longrightarrow>
      table_at (mem v) (pagedir (mem v) ctx) j = Some s \<or> j = i \<and> fresh_table L v s)
    \<and> (\<not> pool_address L b \<longrightarrow> mem v' b = mem v b) \<and> cr3 v' = cr3 v \<and> current_context v' = current_context v
    \<and> in_pool L t \<and> (j < 1024 \<longrightarrow> j \<noteq> i \<longrightarrow>
          table_at (mem v') (pagedir (mem v) ctx) j = table_at (mem v) (pagedir (mem v) ctx) j)"
  proof (cases "present (load32 (mem v) (entry (pagedir (mem v) ctx) i))")
    case True
    then have "v' = v" "table_at (mem v) (pagedir (mem v) ctx) i = Some t"
      using get by (auto simp: get_page_table_def table_at_def Let_def)
    then show ?thesis using i pool by (auto simp: context_page_def)
  next
    case False
    then have none: "table_at (mem v) (pagedir (mem v) ctx) i = None" by (simp add: table_at_def)
    from False get obtain p' where alloc: "pool_alloc L (pm v) = Inr (t, p')" "t \<noteq> 0"
      and v': "v' = v\<lparr>pm := p', mem := add_table ctx i t (page_flags us) (mem v)\<rparr>"
      by (auto simp: get_page_table_def pool_alloc_def add_table_def Let_def kernel_simps)
    have t: "in_pool L t" "\<not> page_used (pm v) t" using pool.alloc_page [OF L alloc] by auto
    have used: "page_used p' b \<longleftrightarrow> same_page t b \<or> page_used (pm v) b" for b
      using pool.alloc_used [OF L alloc] .
    have al: "page_aligned t" using t(1) by (simp add: in_pool_def)
    note add = add_table [OF cok i none al t(2) used, where us = us, folded v']
    have "mem v' b = mem v b" if b: "\<not> pool_address L b"
    proof -
      let ?m1 = "fill_table t (\<lambda>_ _. 0) 1024 (mem v)"
      have "\<not> same_page b t" using b pool_page_address [OF L t(1)] by blast
      then have out: "?m1 b = mem v b" using fill_table_outside [OF al] by (simp add: same_page_unat)
      have "pagedir ?m1 ctx = pagedir (mem v) ctx"
      proof (rule pagedir_outside [OF context_okD(1) [OF cok]])
        have "ctx \<noteq> t" using context_okD(5) [OF cok] t(2) by auto
        then show "?m1 c = mem v c" if "unat c div 4096 = unat ctx div 4096" for c
          using fill_table_outside [OF al _ page_differs [OF context_okD(1) [OF cok] al _ that]] by simp
      qed
      moreover have "\<not> same_page b (pagedir (mem v) ctx)"
        using b pool_page_address [OF L pool] by (auto simp: context_page_def)
      ultimately have "mem v' b = ?m1 b"
        using store_entry_outside [OF context_okD(3) [OF cok] i] by (simp add: v' add_table_def same_page_unat)
      with out show ?thesis by simp
    qed
    moreover have "cr3 v' = cr3 v" "current_context v' = current_context v" by (simp_all add: v')
    ultimately show ?thesis using add(6) t by (auto simp: fresh_table_def split: if_splits)
  qed
  then show "j < 1024 \<Longrightarrow> table_at (mem v') (pagedir (mem v) ctx) j = Some s \<Longrightarrow>
      table_at (mem v) (pagedir (mem v) ctx) j = Some s \<or> j = i \<and> fresh_table L v s"
    "\<not> pool_address L b \<Longrightarrow> mem v' b = mem v b" "cr3 v' = cr3 v" "current_context v' = current_context v" "in_pool L t"
    "j < 1024 \<Longrightarrow> j \<noteq> i \<Longrightarrow> table_at (mem v') (pagedir (mem v) ctx) j = table_at (mem v) (pagedir (mem v) ctx) j"
    by blast+
qed

lemma map_page_frame:
  assumes L: "layout_ok L" and ok: "tables_in_pool L v ctx" and run: "map_page L ctx virt phys us v = Inr v'"
  shows "tables_in_pool L v' ctx" "\<not> pool_address L b \<Longrightarrow> mem v' b = mem v b"
    "j < 1024 \<Longrightarrow> table_at (mem v') (pagedir (mem v) ctx) j = Some s \<Longrightarrow>
      table_at (mem v) (pagedir (mem v) ctx) j = Some s \<or> j = pd_index virt \<and> fresh_table L v s"
    "cr3 v' = cr3 v" "current_context v' = current_context v" "pagedir (mem v') ctx = pagedir (mem v) ctx"
    "page_used (pm v') b \<Longrightarrow> \<not> page_used (pm v) b \<Longrightarrow> pool_address L b"
    "j < 1024 \<Longrightarrow> j \<noteq> pd_index virt \<Longrightarrow>
      table_at (mem v') (pagedir (mem v) ctx) j = table_at (mem v) (pagedir (mem v) ctx) j"
proof -
  have cok: "context_ok v ctx" and pool: "\<And>t. context_page v ctx t \<Longrightarrow> in_pool L t"
    using ok by (auto simp: tables_in_pool_def)
  from run obtain t v1 where get: "get_page_table L ctx (pd_index virt) (page_flags us) v = Inr (t, v1)"
      and v': "v' = v1\<lparr>mem := store32 (mem v1) (entry t (pt_index virt)) (phys OR page_flags us)\<rparr>"
    by (auto simp: map_page_unfold kernel_simps)
  note g = get_page_table_ok [OF L cok index_bounds(1) get] and f = get_page_table_frame [OF L ok index_bounds(1) get]
  have tab: "table_at (mem v1) (pagedir (mem v1) ctx) (pd_index virt) = Some t" using g(2,3) by simp
  note s = store_pte [OF g(1) tab present_entry [of phys us], folded v']
  show pd: "pagedir (mem v') ctx = pagedir (mem v) ctx" using s(2) g(2) by simp
  show tabs: "table_at (mem v) (pagedir (mem v) ctx) j = Some s \<or> j = pd_index virt \<and> fresh_table L v s"
    if "j < 1024" "table_at (mem v') (pagedir (mem v) ctx) j = Some s" for j s
  proof (rule f(1) [OF that(1)])
    show "table_at (mem v1) (pagedir (mem v) ctx) j = Some s" using that s(5) [OF that(1)] g(2) by simp
  qed
  show "mem v' b = mem v b" if "\<not> pool_address L b"
  proof -
    have "unat b div 4096 \<noteq> unat t div 4096" using that pool_page_address [OF L f(5), of b] by (auto simp: same_page_unat)
    then show ?thesis using s(4) f(2) [OF that] by simp
  qed
  show "table_at (mem v') (pagedir (mem v) ctx) j = table_at (mem v) (pagedir (mem v) ctx) j"
    if "j < 1024" "j \<noteq> pd_index virt"
    using s(5) [OF that(1)] f(6) [OF that] g(2) by simp
  have "in_pool L t" if "context_page v' ctx t" for t
    using that tabs pool unfolding context_page_def pd by (auto simp: fresh_table_def)
  then show "tables_in_pool L v' ctx" using s(1) by (simp add: tables_in_pool_def)
  show "cr3 v' = cr3 v" "current_context v' = current_context v" using f(3,4) by (simp_all add: v')
  show "pool_address L b" if "page_used (pm v') b" "\<not> page_used (pm v) b"
    using g(7) [OF _ that(2)] that(1) pool_page_address [OF L f(5)] by (simp add: v' same_page_sym)
qed

end
