(* ===== verification/User_Memory.thy ===== *)
theory User_Memory
  imports Virtual_Memory
begin

text \<open>
  Memory for programs: what \<open>vmm_alloc\<close> (\<open>vmm.c\<close>) does for a range of user space, in the context it is asked
  for (the pages get frames of their own) and in all others (nothing). The relation \<open>grown\<close> says what the
  growth of one context leaves alone; the loader and the system call \<open>sbrk\<close> rest on it.
\<close>

section \<open>Two contexts\<close>

text \<open>
  Loading works with the context that runs, \<open>cur\<close>, and the one of the new process, \<open>ctx\<close>. They share the
  kernel's page tables, so both see the heap at its physical addresses; the tables of user space, from
  entry 256 of the directory on, are those of \<open>ctx\<close> alone.
\<close>

definition own_tables :: "vmm \<Rightarrow> u32 \<Rightarrow> u32 \<Rightarrow> bool" where
  "own_tables v cur ctx \<longleftrightarrow> \<not> context_page v cur (pagedir (mem v) ctx)
    \<and> (\<forall>i t. 256 \<le> i \<and> i < 1024 \<and> table_at (mem v) (pagedir (mem v) ctx) i = Some t \<longrightarrow> \<not> context_page v cur t)"

definition heap_address :: "layout \<Rightarrow> u32 \<Rightarrow> bool" where
  "heap_address L a \<longleftrightarrow> HEAP_START L \<le> a \<and> a < HEAP_END L"

definition loader_ok :: "layout \<Rightarrow> vmm \<Rightarrow> u32 \<Rightarrow> u32 \<Rightarrow> bool" where
  "loader_ok L v cur ctx \<longleftrightarrow> tables_in_pool L v cur \<and> tables_in_pool L v ctx \<and> active v cur \<and> current_context v = cur
    \<and> own_tables v cur ctx \<and> (\<forall>a. heap_address L a \<longrightarrow> phys_addr v cur a = Some a \<and> phys_addr v ctx a = Some a)"

definition free_frames :: "layout \<Rightarrow> vmm \<Rightarrow> nat" where
  "free_frames L v = card {f. above_heap L f \<and> \<not> page_used (pm v) f}"

lemma loader_okD:
  assumes "loader_ok L v cur ctx"
  shows "tables_in_pool L v cur" "tables_in_pool L v ctx" "active v cur" "current_context v = cur"
    "own_tables v cur ctx" "heap_address L a \<Longrightarrow> phys_addr v cur a = Some a" "heap_address L a \<Longrightarrow> phys_addr v ctx a = Some a"
    "context_ok v cur" "context_ok v ctx"
  using assms by (auto simp: loader_ok_def tables_in_pool_def)

lemma user_index: "0x40000000 \<le> a \<Longrightarrow> 256 \<le> pd_index a"
proof -
  assume "0x40000000 \<le> a"
  then have "0x40000000 \<le> unat a" by (simp add: word_le_nat_alt)
  then have "0x40000000 div 4194304 \<le> unat a div 4194304" by (rule div_le_mono)
  then show ?thesis by (simp add: pd_index_def unat_div_distrib div_mult2_eq [symmetric])
qed

lemma heap_not_user:
  assumes "layout_ok L" "heap_address L a" "0x40000000 \<le> i" "page_aligned i"
  shows "\<not> same_page a i"
proof
  assume "same_page a i"
  then have "frame_of a = i" using same_page_frame [OF assms(4)] by simp
  then have "unat i \<le> unat a" using join_parts [of a]
    by (metis frame_of_def word_and_le2 word_le_nat_alt)
  moreover have "unat a < 0x40000000"
    using assms(2) init_ranges(10) [OF assms(1)] by (simp add: heap_address_def word_less_nat_alt)
  ultimately show False using assms(3) by (simp add: word_le_nat_alt)
qed

lemma unat_frame_of: "unat (frame_of a) = unat a div 4096 * 4096"
proof -
  have "unat a div 4096 = unat (frame_of a) div 4096"
    using same_page_frame [of "frame_of a" a] by (simp add: same_page_unat)
  moreover have "unat (frame_of a) mod 4096 = 0" using frame_of_aligned [of a] by (simp add: page_aligned_unat del: frame_of_aligned)
  ultimately show ?thesis using div_mult_mod_eq [of "unat (frame_of a)" 4096] by simp
qed

lemma frame_of_le: "frame_of a \<le> a"
  by (simp add: word_le_nat_alt unat_frame_of)

section \<open>Growth of one context\<close>

text \<open>
  A context apart from \<open>ctx\<close>: \<open>ctx\<close>'s own tables are no pages of it. \<open>unchanged\<close> is what it is promised, and
  \<open>grown\<close> what may happen to \<open>ctx\<close>: new tables for user space, new frames at user addresses, and nothing
  written to memory in use but in the page pool and on the heap.
\<close>

definition apart :: "layout \<Rightarrow> vmm \<Rightarrow> u32 \<Rightarrow> u32 \<Rightarrow> bool" where
  "apart L v c ctx \<longleftrightarrow> tables_in_pool L v c \<and> own_tables v c ctx"

definition unchanged :: "vmm \<Rightarrow> vmm \<Rightarrow> u32 \<Rightarrow> bool" where
  "unchanged v v' c \<longleftrightarrow> pagedir (mem v') c = pagedir (mem v) c
     \<and> (\<forall>i < 1024. table_at (mem v') (pagedir (mem v) c) i = table_at (mem v) (pagedir (mem v) c) i)
     \<and> (\<forall>a. phys_addr v' c a = phys_addr v c a) \<and> (\<forall>t. context_page v' c t \<longleftrightarrow> context_page v c t)"

definition fresh_frame :: "layout \<Rightarrow> vmm \<Rightarrow> vmm \<Rightarrow> u32 \<Rightarrow> bool" where
  "fresh_frame L v v' p \<longleftrightarrow> HEAP_END L \<le> p \<and> \<not> page_used (pm v) p \<and> page_used (pm v') p"

definition grown :: "layout \<Rightarrow> u32 \<Rightarrow> vmm \<Rightarrow> vmm \<Rightarrow> bool" where
  "grown L ctx v v' \<longleftrightarrow>
     tables_in_pool L v' ctx \<and> pagedir (mem v') ctx = pagedir (mem v) ctx
   \<and> (\<forall>i < 256. table_at (mem v') (pagedir (mem v) ctx) i = table_at (mem v) (pagedir (mem v) ctx) i)
   \<and> (\<forall>i < 1024. \<forall>t. table_at (mem v') (pagedir (mem v) ctx) i = Some t \<longrightarrow>
        table_at (mem v) (pagedir (mem v) ctx) i = Some t \<or> fresh_table L v t)
   \<and> (\<forall>c. apart L v c ctx \<longrightarrow> apart L v' c ctx \<and> unchanged v v' c)
   \<and> (\<forall>a. phys_addr v' ctx a = phys_addr v ctx a
        \<or> 0x40000000 \<le> a \<and> (\<exists>p. phys_addr v' ctx a = Some p \<and> fresh_frame L v v' p))
   \<and> (\<forall>b. page_used (pm v) b \<longrightarrow> page_used (pm v') b)
   \<and> (\<forall>p. page_used (pm v) p \<and> \<not> pool_address L p \<and> \<not> heap_address L p \<longrightarrow> mem v' p = mem v p)
   \<and> cr3 v' = cr3 v \<and> current_context v' = current_context v \<and> kernel_context v' = kernel_context v"

lemma grownD:
  assumes "grown L ctx v v'"
  shows "tables_in_pool L v' ctx" "pagedir (mem v') ctx = pagedir (mem v) ctx"
    "i < 256 \<Longrightarrow> table_at (mem v') (pagedir (mem v) ctx) i = table_at (mem v) (pagedir (mem v) ctx) i"
    "i < 1024 \<Longrightarrow> table_at (mem v') (pagedir (mem v) ctx) i = Some t \<Longrightarrow>
        table_at (mem v) (pagedir (mem v) ctx) i = Some t \<or> fresh_table L v t"
    "apart L v c ctx \<Longrightarrow> apart L v' c ctx \<and> unchanged v v' c"
    "phys_addr v' ctx a = phys_addr v ctx a
        \<or> 0x40000000 \<le> a \<and> (\<exists>p. phys_addr v' ctx a = Some p \<and> fresh_frame L v v' p)"
    "page_used (pm v) b \<Longrightarrow> page_used (pm v') b"
    "page_used (pm v) b \<Longrightarrow> \<not> pool_address L b \<Longrightarrow> \<not> heap_address L b \<Longrightarrow> mem v' b = mem v b"
    "cr3 v' = cr3 v" "current_context v' = current_context v" "kernel_context v' = kernel_context v"
  using assms unfolding grown_def by blast+

lemma unchanged_trans: "unchanged v v1 c \<Longrightarrow> unchanged v1 v2 c \<Longrightarrow> unchanged v v2 c"
  by (simp add: unchanged_def)

lemma fresh_mono:
  assumes "\<forall>b. page_used (pm v) b \<longrightarrow> page_used (pm v1) b"
  shows "fresh_table L v1 t \<Longrightarrow> fresh_table L v t" "fresh_frame L v1 v2 p \<Longrightarrow> fresh_frame L v v2 p"
  using assms by (auto simp: fresh_table_def fresh_frame_def)

lemma grown_refl: "tables_in_pool L v ctx \<Longrightarrow> grown L ctx v v"
  by (simp add: grown_def unchanged_def)

lemma grown_trans:
  assumes 1: "grown L ctx v v1" and 2: "grown L ctx v1 v2"
  shows "grown L ctx v v2"
proof -
  note a = grownD [OF 1] and b = grownD [OF 2]
  have mono: "\<forall>b. page_used (pm v) b \<longrightarrow> page_used (pm v1) b" using a(7) by blast
  have "phys_addr v2 ctx x = phys_addr v ctx x
      \<or> 0x40000000 \<le> x \<and> (\<exists>p. phys_addr v2 ctx x = Some p \<and> fresh_frame L v v2 p)" for x
  proof (cases "phys_addr v2 ctx x = phys_addr v1 ctx x")
    case True
    have "fresh_frame L v v1 p \<Longrightarrow> fresh_frame L v v2 p" for p using b(7) by (auto simp: fresh_frame_def)
    then show ?thesis using True a(6) [of x] by auto
  qed (use b(6) [of x] fresh_mono(2) [OF mono] in blast)
  moreover have "table_at (mem v) (pagedir (mem v) ctx) i = Some t \<or> fresh_table L v t"
    if "i < 1024" "table_at (mem v2) (pagedir (mem v) ctx) i = Some t" for i t
    using that a(4) [of i t] b(4) [of i t] a(2) fresh_mono(1) [OF mono] by auto
  moreover have "apart L v2 c ctx \<and> unchanged v v2 c" if "apart L v c ctx" for c
    using a(5) [OF that] b(5) [of c] unchanged_trans by blast
  moreover have "page_used (pm v) p \<Longrightarrow> \<not> pool_address L p \<Longrightarrow> \<not> heap_address L p \<Longrightarrow> mem v2 p = mem v p" for p
    using a(7,8) b(8) by simp
  ultimately show ?thesis unfolding grown_def
    using a(2,3,7,9-11) b(1,2,3,7,9-11) by simp
qed

text \<open>Writes to the heap and to memory not in use before.\<close>

lemma grown_write:
  assumes L: "layout_ok L" and g: "grown L ctx v v1" and pool: "\<forall>b. pool_address L b \<longrightarrow> m b = mem v1 b"
    and used: "\<forall>p. page_used (pm v) p \<and> \<not> pool_address L p \<and> \<not> heap_address L p \<longrightarrow> m p = mem v1 p"
  shows "grown L ctx v (v1\<lparr>mem := m\<rparr>)"
proof -
  note a = grownD [OF g]
  let ?v = "v1\<lparr>mem := m\<rparr>"
  have f: "tables_in_pool L ?v c" "pagedir m c = pagedir (mem v1) c" "phys_addr ?v c a = phys_addr v1 c a"
      "context_page ?v c t \<longleftrightarrow> context_page v1 c t"
      "i < 1024 \<Longrightarrow> table_at m (pagedir (mem v1) c) i = table_at (mem v1) (pagedir (mem v1) c) i"
    if "tables_in_pool L v1 c" for c a t i
    using data_frame [OF L that, of ?v] pool by simp_all
  note fc = f [OF a(1)]
  have "apart L ?v c ctx \<and> unchanged v ?v c" if "apart L v c ctx" for c
  proof -
    have 1: "tables_in_pool L v1 c" "own_tables v1 c ctx" "unchanged v v1 c" using a(5) [OF that] by (simp_all add: apart_def)
    note fd = f [OF 1(1)]
    have "own_tables ?v c ctx" using 1(2) fc(2,5) fd(4) by (auto simp: own_tables_def)
    then show ?thesis using 1 fd by (simp add: apart_def unchanged_def)
  qed
  then show ?thesis unfolding grown_def using a fc used by (auto simp: fresh_frame_def)
qed

lemma own_tables_fresh:
  assumes ok: "tables_in_pool L v c" and same: "\<And>t. context_page v' c t \<longleftrightarrow> context_page v c t"
    and own: "own_tables v c ctx" and dir: "pagedir (mem v') ctx = pagedir (mem v) ctx"
    and tabs: "\<And>i t. i < 1024 \<Longrightarrow> table_at (mem v') (pagedir (mem v) ctx) i = Some t \<Longrightarrow>
        table_at (mem v) (pagedir (mem v) ctx) i = Some t \<or> fresh_table L v t"
  shows "own_tables v' c ctx"
proof -
  have "\<not> context_page v c t" if "fresh_table L v t" for t
    using that ok context_page_used by (auto simp: tables_in_pool_def fresh_table_def)
  then have "\<not> context_page v c t"
    if "256 \<le> i" "i < 1024" "table_at (mem v') (pagedir (mem v) ctx) i = Some t" for i t
    using own tabs [OF that(2,3)] that unfolding own_tables_def by blast
  then show ?thesis using own unfolding own_tables_def same dir by blast
qed

lemma vmm_alloc_page_run:
  assumes "vmm_alloc_page L ctx i v = Inr v'"
  obtains f p where "frame_alloc L (pm v) = Inr (f, p)" "f \<noteq> 0" "map_page L ctx i f 1 (v\<lparr>pm := p\<rparr>) = Inr v'"
proof -
  obtain f p where fp: "pmm_alloc_start (HEAP_END L) (pm v) = (f, p)" by (cases "pmm_alloc_start (HEAP_END L) (pm v)")
  then show ?thesis
    by (intro that [of f p]) (use assms in \<open>auto simp: vmm_alloc_page_def kernel_simps frame_alloc_def\<close>)
qed

lemma user_page_address:
  assumes "0x40000000 \<le> i" "page_aligned i" "same_page a i"
  shows "0x40000000 \<le> a"
proof -
  have "frame_of a = i" using same_page_frame [OF assms(2)] assms(3) by simp
  then have "i \<le> a" using join_parts [of a] by (metis frame_of_def word_and_le2)
  then show ?thesis using assms(1) by (rule order_trans [rotated])
qed

lemma alloc_page_grown:
  assumes L: "layout_ok L" and ok: "tables_in_pool L v ctx" and i: "page_aligned i" "0x40000000 \<le> i"
    and run: "vmm_alloc_page L ctx i v = Inr v'"
  shows "grown L ctx v v'"
proof -
  obtain f p where alloc: "frame_alloc L (pm v) = Inr (f, p)" and f0: "f \<noteq> 0" and map: "map_page L ctx i f 1 (v\<lparr>pm := p\<rparr>) = Inr v'"
    by (rule vmm_alloc_page_run [OF run])
  note new = frames.alloc_page [OF L alloc f0] and used = frames.alloc_used [OF L alloc f0]
  let ?v = "v\<lparr>pm := p\<rparr>"
  have mono: "\<forall>b. page_used (pm v) b \<longrightarrow> page_used (pm ?v) b" using used by auto
  have d: "tables_in_pool L ?v c" "phys_addr ?v c a = phys_addr v c a" "context_page ?v c t \<longleftrightarrow> context_page v c t"
    if "tables_in_pool L v c" for c a t
    by (rule data_frame [OF L that _ mono], simp)+
  have cok: "context_ok ?v ctx" using d(1) [OF ok] by (simp add: tables_in_pool_def)
  note m = map_page_effect [OF L cok map] and fr = map_page_frame [OF L d(1) [OF ok] map]
  have idx: "256 \<le> pd_index i" by (rule user_index [OF i(2)])
  have mono': "\<forall>b. page_used (pm v) b \<longrightarrow> page_used (pm v') b" using m mono by blast
  have fresh: "fresh_table L ?v t \<Longrightarrow> fresh_table L v t" for t using mono by (auto simp: fresh_table_def)
  have tabs: "table_at (mem v) (pagedir (mem v) ctx) j = Some t \<or> fresh_table L v t"
    if "j < 1024" "table_at (mem v') (pagedir (mem v) ctx) j = Some t" for j t
    using fr(3) [of j t] that fresh by auto
  have low: "table_at (mem v') (pagedir (mem v) ctx) j = table_at (mem v) (pagedir (mem v) ctx) j" if "j < 256" for j
    using fr(8) [of j] that idx by simp
  have others: "apart L v' c ctx \<and> unchanged v v' c" if c: "apart L v c ctx" for c
  proof -
    have o: "tables_in_pool L v c" "own_tables v c ctx" using c by (simp_all add: apart_def)
    have okc: "context_ok ?v c" using d(1) [OF o(1)] by (simp add: tables_in_pool_def)
    have dir: "\<not> context_page ?v c (pagedir (mem ?v) ctx)" using o(2) d(3) [OF o(1)] by (simp add: own_tables_def)
    have sep: "\<forall>t. table_at (mem ?v) (pagedir (mem ?v) ctx) (pd_index i) = Some t \<longrightarrow> \<not> context_page ?v c t"
      using o(2) d(3) [OF o(1)] idx index_bounds(1) by (auto simp: own_tables_def)
    note ap = map_page_apart [OF L cok okc dir sep map]
    have page: "context_page v' c t \<longleftrightarrow> context_page v c t" for t using ap(3) d(3) [OF o(1)] by simp
    have "own_tables v' c ctx" by (rule own_tables_fresh [OF o(1) page o(2)]) (use fr(6) tabs in auto)
    moreover have "tables_in_pool L v' c" using d(1) [OF o(1)] ap(1,3) by (simp add: tables_in_pool_def)
    moreover have "unchanged v v' c"
      using ap(2,4,5) d(2) [OF o(1)] page by (simp add: unchanged_def phys_addr_def)
    ultimately show ?thesis by (simp add: apart_def)
  qed
  have al: "page_aligned f" "above_heap L f" "\<not> page_used (pm v) f" using new by (auto simp: above_heap_def)
  have "phys_addr v' ctx a = phys_addr v ctx a
      \<or> 0x40000000 \<le> a \<and> (\<exists>q. phys_addr v' ctx a = Some q \<and> fresh_frame L v v' q)" for a
  proof (cases "same_page a i")
    case True
    have "frame_of f = f" using same_page_frame [OF al(1), of f] by simp
    then have fq: "frame_of (f OR (a AND 0xFFF)) = f" using frame_of_join [of f a] by simp
    then have q: "same_page (f OR (a AND 0xFFF)) f" using same_page_frame [OF al(1)] by blast
    have "f \<le> f OR (a AND 0xFFF)" using frame_of_le [of "f OR (a AND 0xFFF)"] fq by simp
    moreover have "HEAP_END L \<le> f" using al(2) by (simp add: above_heap_def)
    ultimately have "HEAP_END L \<le> f OR (a AND 0xFFF)" by (rule order_trans [rotated])
    moreover have "page_used q (f OR (a AND 0xFFF)) \<longleftrightarrow> page_used q f" for q by (rule page_used_same [OF q])
    moreover have "page_used (pm ?v) f" using used [of f] by simp
    then have "page_used (pm v') f" using m by blast
    ultimately have "fresh_frame L v v' (f OR (a AND 0xFFF))" using al(3) by (simp add: fresh_frame_def)
    moreover have "phys_addr v' ctx a = Some (f OR (a AND 0xFFF))" using m True al(1) by (simp add: phys_addr_def)
    ultimately show ?thesis using user_page_address [OF i(2,1) True] by blast
  next
    case False
    then show ?thesis using m d(2) [OF ok, of a] by (simp add: phys_addr_def)
  qed
  then show ?thesis unfolding grown_def using fr m low tabs others mono' by simp
qed

lemma loader_ok_grown:
  assumes "layout_ok L" "loader_ok L v cur ctx" "grown L ctx v v'"
  shows "loader_ok L v' cur ctx"
proof -
  note o = loader_okD [OF assms(2)] and g = grownD [OF assms(3)]
  have "apart L v' cur ctx" "unchanged v v' cur" using g(5) [of cur] o(1,5) by (simp_all add: apart_def)
  moreover have "phys_addr v' ctx a = Some a" if "heap_address L a" for a
  proof -
    have "a < 0x40000000"
      using that init_ranges(10) [OF assms(1)] by (simp add: heap_address_def word_less_nat_alt)
    then show ?thesis using g(6) [of a] o(7) [OF that] by auto
  qed
  ultimately show ?thesis using o g(1,9,10) by (simp add: loader_ok_def apart_def unchanged_def active_def)
qed

section \<open>Allocating pages for the new context\<close>

text \<open>What allocating the pages \<open>ps\<close> in \<open>ctx\<close> does, with the frames \<open>fs\<close>.\<close>

definition allocated :: "layout \<Rightarrow> u32 \<Rightarrow> u32 \<Rightarrow> u32 list \<Rightarrow> u32 list \<Rightarrow> vmm \<Rightarrow> vmm \<Rightarrow> bool" where
  "allocated L cur ctx ps fs v v' \<longleftrightarrow>
     length fs = length ps \<and> distinct fs
   \<and> (\<forall>f \<in> set fs. above_heap L f \<and> \<not> page_used (pm v) f \<and> page_used (pm v') f)
   \<and> (\<forall>k < length ps. \<forall>a. same_page a (ps ! k) \<longrightarrow> phys_addr v' ctx a = Some (fs ! k OR (a AND 0xFFF)))
   \<and> (\<forall>a. (\<forall>i \<in> set ps. \<not> same_page a i) \<longrightarrow> phys_addr v' ctx a = phys_addr v ctx a)
   \<and> (\<forall>a. phys_addr v' cur a = phys_addr v cur a)
   \<and> (\<forall>b. page_used (pm v) b \<longrightarrow> page_used (pm v') b) \<and> (\<forall>b. \<not> pool_address L b \<longrightarrow> mem v' b = mem v b)
   \<and> free_frames L v' + length ps = free_frames L v \<and> free_pool L v \<le> free_pool L v' + length ps"

lemma alloc_one:
  assumes L: "layout_ok L" and ok: "loader_ok L v cur ctx" and i: "page_aligned i" "0x40000000 \<le> i"
    and room: "0 < free_frames L v" "0 < free_pool L v"
  shows "\<exists>v' f. vmm_alloc_page L ctx i v = Inr v' \<and> loader_ok L v' cur ctx \<and> allocated L cur ctx [i] [f] v v'"
proof -
  note o = loader_okD [OF ok]
  obtain a where a: "in_pool L a" "\<not> page_used (pm v) a" using room(2) by (auto simp: free_pool_def card_gt_0_iff)
  obtain g where g: "above_heap L g" "\<not> page_used (pm v) g" using room(1) by (auto simp: free_frames_def card_gt_0_iff)
  obtain v' where run: "vmm_alloc_page L ctx i v = Inr v'"
    using vmm_alloc_page_returns [OF L i(1) context_okD(2) [OF o(9)] a g] by blast
  note gr = alloc_page_grown [OF L o(2) i run]
  have ok': "loader_ok L v' cur ctx" by (rule loader_ok_grown [OF L ok gr])
  have cur: "phys_addr v' cur a = phys_addr v cur a" for a
    using grownD(5) [OF gr, of cur] o(1,5) by (simp add: apart_def unchanged_def)
  obtain f p where alloc: "frame_alloc L (pm v) = Inr (f, p)" and f0: "f \<noteq> 0" and map: "map_page L ctx i f 1 (v\<lparr>pm := p\<rparr>) = Inr v'"
    by (rule vmm_alloc_page_run [OF run])
  note new = frames.alloc_page [OF L alloc f0] and used = frames.alloc_used [OF L alloc f0]
  let ?v = "v\<lparr>pm := p\<rparr>"
  have mono: "\<forall>b. page_used (pm v) b \<longrightarrow> page_used (pm ?v) b" using used by auto
  have d: "tables_in_pool L ?v ctx" "phys_addr ?v ctx a = phys_addr v ctx a" for a
    by (rule data_frame [OF L o(2) _ mono], simp)+
  have cok: "context_ok ?v ctx" using d(1) by (simp add: tables_in_pool_def)
  note m = map_page_effect [OF L cok map] and fr = map_page_frame [OF L d(1) map]
  have walk: "phys_addr v' ctx a = (if same_page a i then Some (f OR (a AND 0xFFF)) else phys_addr v ctx a)" for a
  proof -
    have "page_aligned f" using new by (simp add: above_heap_def)
    then show ?thesis using m d(2) [of a] by (simp add: phys_addr_def)
  qed
  have pool_f: "\<not> pool_address L b" if "above_heap L b" for b
    using that layout_unat [OF L] by (auto simp: pool_address_def above_heap_def word_le_nat_alt word_less_nat_alt)
  have al: "page_aligned f" "above_heap L f" "\<not> page_used (pm v) f" using new by (auto simp: above_heap_def)
  have used': "page_used (pm v') b \<longleftrightarrow> same_page f b \<or> page_used (pm v) b" if "\<not> pool_address L b" for b
    using m fr(7) [of b] that used by auto
  have "same_page f b \<longleftrightarrow> b = f" if "page_aligned b" for b using same_page_aligned [OF al(1) that] by auto
  then have frames: "{b. above_heap L b \<and> \<not> page_used (pm v') b} = {b. above_heap L b \<and> \<not> page_used (pm v) b} - {f}"
    using used' pool_f by (auto simp: above_heap_def)
  have "Suc (free_frames L v') = free_frames L v"
    unfolding free_frames_def frames by (rule card_Suc_Diff1) (use al in simp_all)
  moreover have "free_pool L v \<le> free_pool L v' + 1"
  proof -
    have "\<not> same_page f b" if "in_pool L b" for b
      using that pool_f [OF al(2)] pool_page_address [OF L that] by blast
    then have "free_pool L ?v = free_pool L v"
      unfolding free_pool_def by (intro arg_cong [of _ _ card]) (auto simp: used)
    moreover have "card (tables v' ctx) \<le> card (tables ?v ctx) + 1"
      using map_page_tables [OF L cok map] card_insert_le_m1 [of "card (tables ?v ctx) + 1" "tables ?v ctx"] by (simp add: card_insert_if)
    ultimately show ?thesis using map_page_tables [OF L cok map] by linarith
  qed
  moreover have "page_used (pm v') f" using used' pool_f [OF al(2)] by simp
  ultimately have "allocated L cur ctx [i] [f] v v'"
    using al walk cur grownD(7) [OF gr] fr(2) by (simp add: allocated_def)
  with run ok' show ?thesis by blast
qed

lemma allocated_cons:
  assumes one: "allocated L cur ctx [i] [f] v v1" and rest: "allocated L cur ctx ps fs v1 v'"
    and apart: "\<forall>j \<in> set ps. \<not> same_page i j"
  shows "allocated L cur ctx (i # ps) (f # fs) v v'"
proof -
  note o = one [unfolded allocated_def] and r = rest [unfolded allocated_def]
  have at_i: "phys_addr v' ctx a = Some (f OR (a AND 0xFFF))" if "same_page a i" for a
  proof -
    have "\<forall>j \<in> set ps. \<not> same_page a j" using apart that same_page_sym same_page_trans by blast
    then show ?thesis using r o that by simp
  qed
  have "phys_addr v' ctx a = Some ((f # fs) ! k OR (a AND 0xFFF))" if "k < length (i # ps)" "same_page a ((i # ps) ! k)" for k a
    using that at_i r by (cases k) auto
  moreover have "distinct (f # fs)" "length (f # fs) = length (i # ps)" using o r by auto
  moreover have "\<forall>g \<in> set (f # fs). above_heap L g \<and> \<not> page_used (pm v) g \<and> page_used (pm v') g" using o r by auto
  moreover have "phys_addr v' ctx a = phys_addr v ctx a" if "\<forall>j \<in> set (i # ps). \<not> same_page a j" for a
    using that o r by simp
  moreover have "phys_addr v' cur a = phys_addr v cur a" for a using o r by simp
  moreover have "page_used (pm v) b \<longrightarrow> page_used (pm v') b" for b using o r by blast
  moreover have "\<not> pool_address L b \<longrightarrow> mem v' b = mem v b" for b using o r by simp
  moreover have "free_frames L v' + length (i # ps) = free_frames L v \<and> free_pool L v \<le> free_pool L v' + length (i # ps)"
    using o r by simp
  ultimately show ?thesis unfolding allocated_def by blast
qed

lemma alloc_pages:
  assumes L: "layout_ok L" and "loader_ok L v cur ctx" "\<forall>i \<in> set ps. page_aligned i \<and> 0x40000000 \<le> i" "distinct ps"
    and "length ps \<le> free_frames L v" "length ps \<le> free_pool L v"
  shows "\<exists>v' fs. foldE (vmm_alloc_page L ctx) ps v = Inr v' \<and> loader_ok L v' cur ctx \<and> allocated L cur ctx ps fs v v'"
  using assms(2-)
proof (induction ps arbitrary: v)
  case Nil
  then show ?case by (intro exI [of _ v] exI [of _ "[]"]) (simp add: allocated_def)
next
  case (Cons i ps)
  obtain v1 f where one: "vmm_alloc_page L ctx i v = Inr v1" "loader_ok L v1 cur ctx" "allocated L cur ctx [i] [f] v v1"
    using alloc_one [OF L Cons.prems(1), of i] Cons.prems by auto
  have room: "length ps \<le> free_frames L v1" "length ps \<le> free_pool L v1"
    using Cons.prems(4,5) one(3) by (auto simp: allocated_def)
  obtain v' fs where rest: "foldE (vmm_alloc_page L ctx) ps v1 = Inr v'" "loader_ok L v' cur ctx" "allocated L cur ctx ps fs v1 v'"
    using Cons.IH [OF one(2) _ _ room] Cons.prems(2,3) by auto
  have "\<not> same_page i j" if "j \<in> set ps" for j
    using that Cons.prems(2,3) same_page_aligned by auto
  then have "allocated L cur ctx (i # ps) (f # fs) v v'" using allocated_cons [OF one(3) rest(3)] by blast
  then show ?case using one(1) rest by (intro exI [of _ v'] exI [of _ "f # fs"]) simp
qed

section \<open>Memory for a segment\<close>

text \<open>A range of user space that starts at a page, and the addresses in its pages.\<close>

definition user_range :: "u32 \<Rightarrow> u32 \<Rightarrow> bool" where
  "user_range vaddr n \<longleftrightarrow> page_aligned vaddr \<and> 0x40000000 \<le> vaddr \<and> unat vaddr + unat n \<le> 0xFFFFF000"

definition in_pages :: "u32 \<Rightarrow> u32 \<Rightarrow> u32 \<Rightarrow> bool" where
  "in_pages vaddr n a \<longleftrightarrow> vaddr \<le> frame_of a \<and> unat (frame_of a) < unat vaddr + unat n"

lemma user_range_end:
  assumes "user_range vaddr n"
  shows "unat (vaddr + n) = unat vaddr + unat n" "vaddr + n \<le> 0xFFFFF000"
proof -
  show "unat (vaddr + n) = unat vaddr + unat n" using assms by (simp add: user_range_def unat_word_ariths)
  then show "vaddr + n \<le> 0xFFFFF000" using assms by (simp add: user_range_def word_le_nat_alt)
qed

lemma in_pages_set: "user_range vaddr n \<Longrightarrow> in_pages vaddr n a \<longleftrightarrow> frame_of a \<in> set (pages_of vaddr (vaddr + n))"
  using set_pages_of [of vaddr "frame_of a" "vaddr + n"] user_range_end [of vaddr n]
  by (simp add: user_range_def in_pages_def word_less_nat_alt)

lemma user_range_byte:
  assumes r: "user_range vaddr n" and i: "i < unat n"
  shows "unat (vaddr + of_nat i) = unat vaddr + i" "in_pages vaddr n (vaddr + of_nat i)"
proof -
  have "unat (of_nat i :: u32) = i" using i u32_unat_less [of n] by (simp add: unat_of_nat)
  then show at: "unat (vaddr + of_nat i) = unat vaddr + i" using r i by (simp add: user_range_def unat_word_ariths)
  obtain k where "unat vaddr = k * 4096" using r by (auto simp: user_range_def elim: page_alignedE)
  then have "unat vaddr \<le> (unat vaddr + i) div 4096 * 4096" by simp
  moreover have "(unat vaddr + i) div 4096 * 4096 < unat vaddr + unat n"
    using i by (meson add_less_cancel_left div_times_less_eq_dividend le_less_trans)
  ultimately show "in_pages vaddr n (vaddr + of_nat i)"
    by (simp add: in_pages_def unat_frame_of at word_le_nat_alt)
qed

text \<open>What allocating a segment's memory does; byte \<open>i\<close> of it lies at \<open>dp i\<close> in physical memory.\<close>

definition backed :: "layout \<Rightarrow> u32 \<Rightarrow> u32 \<Rightarrow> u32 \<Rightarrow> u32 \<Rightarrow> (nat \<Rightarrow> u32) \<Rightarrow> vmm \<Rightarrow> vmm \<Rightarrow> bool" where
  "backed L cur ctx vaddr n dp v v' \<longleftrightarrow>
     (\<forall>i < unat n. phys_addr v' ctx (vaddr + of_nat i) = Some (dp i) \<and> HEAP_END L \<le> dp i
        \<and> \<not> page_used (pm v) (dp i) \<and> page_used (pm v') (dp i))
   \<and> inj_on dp {..<unat n}
   \<and> (\<forall>a. \<not> in_pages vaddr n a \<longrightarrow> phys_addr v' ctx a = phys_addr v ctx a)
   \<and> (\<forall>a. phys_addr v' cur a = phys_addr v cur a)
   \<and> (\<forall>b. page_used (pm v) b \<longrightarrow> page_used (pm v') b) \<and> (\<forall>b. \<not> pool_address L b \<longrightarrow> mem v' b = mem v b)
   \<and> free_frames L v \<le> free_frames L v' + page_count vaddr (vaddr + n)
   \<and> free_pool L v \<le> free_pool L v' + page_count vaddr (vaddr + n)"

lemma segment_alloc:
  assumes L: "layout_ok L" and ok: "loader_ok L v cur ctx" and r: "user_range vaddr n"
    and room: "page_count vaddr (vaddr + n) \<le> free_frames L v" "page_count vaddr (vaddr + n) \<le> free_pool L v"
  shows "\<exists>v' dp. vmm_alloc L ctx vaddr n v = Inr v' \<and> loader_ok L v' cur ctx \<and> backed L cur ctx vaddr n dp v v'"
proof -
  let ?ps = "pages_of vaddr (vaddr + n)"
  have len: "length ?ps = page_count vaddr (vaddr + n)" by (simp add: pages_of_def)
  have ps: "p \<in> set ?ps \<longleftrightarrow> vaddr \<le> p \<and> p < vaddr + n \<and> page_aligned p" for p
    by (rule set_pages_of) (use r user_range_end(2) [OF r] in \<open>simp_all add: user_range_def\<close>)
  have "distinct ?ps" using distinct_pages_of [of vaddr "vaddr + n"] unfolding distinct_map by (rule conjunct1)
  moreover have "\<forall>i \<in> set ?ps. page_aligned i \<and> 0x40000000 \<le> i"
  proof
    have "0x40000000 \<le> vaddr" using r by (simp add: user_range_def)
    then show "page_aligned i \<and> 0x40000000 \<le> i" if "i \<in> set ?ps" for i
      using that unfolding ps by (meson order_trans)
  qed
  ultimately obtain v' fs where run: "foldE (vmm_alloc_page L ctx) ?ps v = Inr v'" and ok': "loader_ok L v' cur ctx"
    and al: "allocated L cur ctx ?ps fs v v'"
    using alloc_pages [OF L ok, of ?ps] room len by auto
  have fs: "length fs = length ?ps" "distinct fs"
    and frame: "\<And>f. f \<in> set fs \<Longrightarrow> above_heap L f \<and> \<not> page_used (pm v) f \<and> page_used (pm v') f"
    and maps: "\<And>k a. k < length ?ps \<Longrightarrow> same_page a (?ps ! k) \<Longrightarrow> phys_addr v' ctx a = Some (fs ! k OR (a AND 0xFFF))"
    and other: "\<And>a. \<forall>i \<in> set ?ps. \<not> same_page a i \<Longrightarrow> phys_addr v' ctx a = phys_addr v ctx a"
    using al unfolding allocated_def by blast+
  have frame_k: "frame_of (fs ! k OR (a AND 0xFFF)) = fs ! k" "above_heap L (fs ! k)"
      "\<not> page_used (pm v) (fs ! k)" "page_used (pm v') (fs ! k)" if "k < length ?ps" for k a
  proof -
    have "fs ! k \<in> set fs" using that fs(1) by simp
    then show f: "above_heap L (fs ! k)" "\<not> page_used (pm v) (fs ! k)" "page_used (pm v') (fs ! k)" using frame by blast+
    then have "frame_of (fs ! k) = fs ! k" using same_page_frame [of "fs ! k" "fs ! k"] by (simp add: above_heap_def)
    then show "frame_of (fs ! k OR (a AND 0xFFF)) = fs ! k" using frame_of_join [of "fs ! k" a] by simp
  qed
  have offset: "(fs ! k OR (a AND 0xFFF)) AND 0xFFF = a AND 0xFFF" if "k < length ?ps" for k a
    using frame_k(1) [OF that, of a] frame_k(1) [OF that, of 0] offset_join [of "fs ! k" a] by simp
  define ix where "ix i = (SOME k. k < length ?ps \<and> same_page (vaddr + of_nat i) (?ps ! k))" for i :: nat
  define dp where "dp i = fs ! ix i OR ((vaddr + of_nat i) AND 0xFFF)" for i :: nat
  have ix: "ix i < length ?ps" "same_page (vaddr + of_nat i) (?ps ! ix i)" if "i < unat n" for i
  proof -
    have "frame_of (vaddr + of_nat i) \<in> set ?ps" using user_range_byte(2) [OF r that] in_pages_set [OF r] by blast
    then obtain k where k: "k < length ?ps" "frame_of (vaddr + of_nat i) = ?ps ! k" by (auto simp: in_set_conv_nth)
    have "same_page (vaddr + of_nat i) (?ps ! k)"
      using same_page_frame [OF frame_of_aligned, of "vaddr + of_nat i" "vaddr + of_nat i"] k(2) by simp
    with k(1) have "\<exists>k. k < length ?ps \<and> same_page (vaddr + of_nat i) (?ps ! k)" by blast
    then have "ix i < length ?ps \<and> same_page (vaddr + of_nat i) (?ps ! ix i)" unfolding ix_def by (rule someI_ex)
    then show "ix i < length ?ps" "same_page (vaddr + of_nat i) (?ps ! ix i)" by simp_all
  qed
  have at: "phys_addr v' ctx (vaddr + of_nat i) = Some (dp i) \<and> HEAP_END L \<le> dp i
        \<and> \<not> page_used (pm v) (dp i) \<and> page_used (pm v') (dp i)" if i: "i < unat n" for i
  proof -
    note f = frame_k [OF ix(1) [OF i]]
    have fr: "frame_of (dp i) = fs ! ix i" using f(1) by (simp add: dp_def)
    then have "same_page (dp i) (fs ! ix i)" using same_page_frame [OF frame_of_aligned, of "dp i" "dp i"] by simp
    then have "page_used p (dp i) \<longleftrightarrow> page_used p (fs ! ix i)" for p by (rule page_used_same)
    moreover have "HEAP_END L \<le> fs ! ix i" using f(2) by (simp add: above_heap_def)
    then have "HEAP_END L \<le> dp i" using frame_of_le [of "dp i"] fr by (metis order_trans)
    moreover have "phys_addr v' ctx (vaddr + of_nat i) = Some (dp i)"
      using maps [OF ix [OF i]] by (simp add: dp_def)
    ultimately show ?thesis using f(3,4) by simp
  qed
  have "inj_on dp {..<unat n}"
  proof (rule inj_onI)
    fix i j assume "i \<in> {..<unat n}" "j \<in> {..<unat n}" and eq: "dp i = dp j"
    then have i: "i < unat n" and j: "j < unat n" by simp_all
    have "fs ! ix i = fs ! ix j"
      using frame_k(1) [OF ix(1) [OF i], of "vaddr + of_nat i"] frame_k(1) [OF ix(1) [OF j], of "vaddr + of_nat j"] eq
      unfolding dp_def by simp
    moreover have "ix i < length fs" "ix j < length fs" using ix(1) [OF i] ix(1) [OF j] fs(1) by (simp_all only:)
    ultimately have "ix i = ix j" using nth_eq_iff_index_eq [OF fs(2)] by blast
    with ix(2) [OF j] have "same_page (vaddr + of_nat j) (?ps ! ix i)" by (simp only:)
    then have "same_page (?ps ! ix i) (vaddr + of_nat j)" by (rule same_page_sym [THEN iffD1])
    with ix(2) [OF i] have "same_page (vaddr + of_nat i) (vaddr + of_nat j)" by (rule same_page_trans)
    then have "frame_of (vaddr + of_nat i) = frame_of (vaddr + of_nat j)" by (simp add: same_page_frames)
    moreover have "dp i AND 0xFFF = (vaddr + of_nat i) AND 0xFFF" "dp j AND 0xFFF = (vaddr + of_nat j) AND 0xFFF"
      unfolding dp_def by (rule offset [OF ix(1) [OF i]], rule offset [OF ix(1) [OF j]])
    then have "(vaddr + of_nat i) AND 0xFFF = (vaddr + of_nat j) AND 0xFFF" unfolding eq by simp
    ultimately have "vaddr + of_nat i = vaddr + of_nat j" by (rule eq_parts)
    then have "unat (vaddr + of_nat i) = unat (vaddr + of_nat j)" by (rule arg_cong)
    then show "i = j" unfolding user_range_byte(1) [OF r i] user_range_byte(1) [OF r j] by (rule add_left_imp_eq)
  qed
  moreover have "phys_addr v' ctx a = phys_addr v ctx a" if "\<not> in_pages vaddr n a" for a
  proof (rule other, rule ballI)
    fix p assume p: "p \<in> set ?ps"
    have "frame_of a \<notin> set ?ps" using that in_pages_set [OF r] by blast
    then show "\<not> same_page a p" using p ps [of p] same_page_frame [of p a] by auto
  qed
  moreover have "\<forall>a. phys_addr v' cur a = phys_addr v cur a" "\<forall>b. page_used (pm v) b \<longrightarrow> page_used (pm v') b"
    "\<forall>b. \<not> pool_address L b \<longrightarrow> mem v' b = mem v b"
    "free_frames L v' + length ?ps = free_frames L v" "free_pool L v \<le> free_pool L v' + length ?ps"
    using al unfolding allocated_def by blast+
  ultimately have "backed L cur ctx vaddr n dp v v'" using at len by (simp add: backed_def)
  moreover have "vmm_alloc L ctx vaddr n v = Inr v'"
    using run user_range_end(2) [OF r] by (simp add: vmm_alloc_def for_pages_foldE)
  ultimately show ?thesis using ok' by blast
qed

text \<open>Whatever \<open>vmm_alloc\<close> is asked for in user space, it only makes that context grow.\<close>

lemma alloc_pages_grown:
  assumes L: "layout_ok L"
  shows "foldE (vmm_alloc_page L ctx) ps v = Inr v' \<Longrightarrow> tables_in_pool L v ctx \<Longrightarrow>
    \<forall>i \<in> set ps. page_aligned i \<and> 0x40000000 \<le> i \<Longrightarrow> grown L ctx v v'"
proof (induction ps arbitrary: v)
  case (Cons i ps)
  from Cons.prems(1) obtain v1 where v1: "vmm_alloc_page L ctx i v = Inr v1" "foldE (vmm_alloc_page L ctx) ps v1 = Inr v'"
    by (auto simp: bindE_Inr_iff)
  have g: "grown L ctx v v1" by (rule alloc_page_grown [OF L Cons.prems(2) _ _ v1(1)]) (use Cons.prems(3) in simp_all)
  with Cons.IH [OF v1(2) grownD(1) [OF g]] Cons.prems(3) show ?case by (auto intro: grown_trans)
qed (simp add: grown_refl)

lemma user_range_pages:
  assumes "user_range vaddr n" "i \<in> set (pages_of vaddr (vaddr + n))"
  shows "page_aligned i" "0x40000000 \<le> i"
proof -
  have "vaddr \<le> i \<and> i < vaddr + n \<and> page_aligned i"
    using set_pages_of [of vaddr i "vaddr + n"] user_range_end(2) [OF assms(1)] assms by (simp add: user_range_def)
  then show "page_aligned i" "0x40000000 \<le> i" using assms(1) by (auto simp: user_range_def)
qed

lemma vmm_alloc_grown:
  assumes L: "layout_ok L" and ok: "tables_in_pool L v ctx" and r: "user_range vaddr n"
    and run: "vmm_alloc L ctx vaddr n v = Inr v'"
  shows "grown L ctx v v'"
proof (rule alloc_pages_grown [OF L _ ok])
  show "foldE (vmm_alloc_page L ctx) (pages_of vaddr (vaddr + n)) v = Inr v'"
    using run user_range_end(2) [OF r] by (simp add: vmm_alloc_def for_pages_foldE)
qed (use user_range_pages [OF r] in blast)

end
