(* ===== verification/Elf_Load.thy ===== *)
theory Elf_Load
  imports User_Memory
begin

text \<open>
  What loading a program means: after \<open>ParseElf\<close> of \<open>elf.c\<close> every segment of the image is in the new
  address space, byte by byte, with the rest of its memory zero, and nothing else has changed.
\<close>

section \<open>The buffer on the heap\<close>

text \<open>A heap whose blocks end at \<open>e\<close> at the latest; a buffer taken and given back extends it once.\<close>

definition heap_below :: "layout \<Rightarrow> kheap \<Rightarrow> nat \<Rightarrow> bool" where
  "heap_below L h e \<longleftrightarrow> (\<exists>ns. heap_inv L h ns \<and> block_end h (last ns) \<le> e)"

definition buffer_cycle :: "layout \<Rightarrow> u32 \<Rightarrow> kheap \<Rightarrow> nat \<Rightarrow> u32 \<Rightarrow> kheap \<Rightarrow> kheap \<Rightarrow> bool" where
  "buffer_cycle L sz h e p h' h'' \<longleftrightarrow> kmalloc L sz h = Inr (p, h') \<and> HEAP_START L \<le> p \<and> unat p + unat sz \<le> e
     \<and> heap_below L h' e \<and> kfree L p h' = Inr h'' \<and> heap_below L h'' e"

lemma kfree_block_start:
  assumes "heap_inv L h ns" "n \<in> set ns" "unat (BLOCK_START n) < unat (HEAP_END L)"
  shows "\<exists>h'. kfree L (BLOCK_START n) h = Inr h' \<and> heap_inv L h' ns \<and> (\<forall>m. block_end h' m = block_end h m)"
proof -
  have "kfree L (BLOCK_START n) h = Inr (upd_node n (nd_free_update (\<lambda>_. 1)) h)"
    by (rule kfree_block [OF assms(1,2)]) (simp add: word_less_nat_alt assms(3))
  moreover have "heap_inv L (upd_node n (nd_free_update (\<lambda>_. 1)) h) ns" by (rule heap_inv_upd_free [OF assms(1)]) simp
  ultimately show ?thesis by (auto simp: block_end_def upd_node_def)
qed

lemma kmalloc_below:
  assumes L: "layout_ok L" and below: "heap_below L h e" and sz: "0 < sz" and room: "e + 16 + unat sz \<le> unat (HEAP_END L)"
  shows "\<exists>p h' h''. buffer_cycle L sz h (e + 16 + unat sz) p h' h''"
proof -
  from below obtain ns where ns: "heap_inv L h ns" "block_end h (last ns) \<le> e" by (auto simp: heap_below_def)
  note last = heap_last [OF ns(1)]
  have "unat sz \<le> 0x40000000" using room init_ranges(10) [OF L] by simp
  then have req: "request_ok sz" by (simp add: request_ok_def word_le_nat_alt)
  have pos: "0 < unat sz" using sz by (simp add: word_less_nat_alt)
  have "\<exists>p h'. kmalloc L sz h = Inr (p, h')"
  proof (cases "find (fits h sz) ns")
    case None
    have "NEXT_BLOCK h (last ns) < HEAP_END L" using last(3) ns(2) room pos by (simp add: word_less_nat_alt)
    then show ?thesis using None sz by (auto simp: kmalloc_eq [OF ns(1)])
  qed (simp add: kmalloc_eq [OF ns(1)])
  then obtain p h' where run: "kmalloc L sz h = Inr (p, h')" by blast
  have finish: "\<exists>p h' h''. buffer_cycle L sz h (e + 16 + unat sz) p h' h''"
    if n: "heap_inv L h' ms" "n \<in> set ms" "p = BLOCK_START n" and bounds: "unat n + 16 + unat sz \<le> e + 16 + unat sz"
      and last': "block_end h' (last ms) \<le> e + 16 + unat sz" for n ms
  proof -
    have good: "good_node L h' n" using heap_invD(4) [OF n(1)] n(2) by blast
    then have p: "unat p = unat n + 16" using n(3) unat_BLOCK_START by simp
    then have "unat (BLOCK_START n) < unat (HEAP_END L)" using n(3) bounds room pos by simp
    then obtain h'' where "kfree L p h' = Inr h''" "heap_inv L h'' ms" "block_end h'' (last ms) = block_end h' (last ms)"
      using kfree_block_start [OF n(1,2)] n(3) by blast
    moreover have "HEAP_START L \<le> p" using good p by (simp add: good_node_def word_le_nat_alt)
    ultimately show ?thesis using run p bounds last' n(1) by (auto simp: buffer_cycle_def heap_below_def)
  qed
  show ?thesis
    using ns(1) req run
  proof (cases rule: heap_inv_kmalloc)
    case (reused n)
    have n: "n \<in> set ns" "sz \<le> nd_size (nodes h n)" using find_in_set [OF reused(1)] by (auto simp: fits_def)
    have ends: "block_end h' m = block_end h m" for m by (simp add: reused(3) block_end_def upd_node_def)
    have "block_end h n \<le> block_end h (last ns)"
    proof (cases "n = last ns")
      case False
      have "block_end h n \<le> unat (last ns) \<or> block_end h (last ns) \<le> unat n"
        using heap_separate [OF ns(1) n(1)] heap_invD(2) [OF ns(1)] False by simp
      then show ?thesis using last(4) n(1) block_end_gt [of "last ns" h] by fastforce
    qed simp
    then have "unat n + 16 + unat sz \<le> e + 16 + unat sz" using ns(2) by (simp add: block_end_def)
    then show ?thesis using finish [OF reused(4) n(1) reused(2)] ends ns(2) by simp
  next
    case (grown nx)
    have at: "unat nx = block_end h (last ns)" using last(3) grown(3) by simp
    have "block_end h' nx = unat nx + 16 + unat sz" by (simp add: grown(6) block_end_def appended_def upd_node_def)
    then show ?thesis using finish [OF grown(7) _ grown(5)] at ns(2) by simp
  qed
qed

lemma kmalloc_takes:
  assumes "layout_ok L" "heap_below L h e" "0 < sz" "e' = e + 16 + unat sz" "e' \<le> unat (HEAP_END L)"
  shows "\<exists>p h'. kmalloc L sz h = Inr (p, h') \<and> heap_below L h' e'"
  using kmalloc_below [OF assms(1-3)] assms(4,5) unfolding buffer_cycle_def by blast

section \<open>Bytes a context sees\<close>

text \<open>
  Address \<open>a\<close> of the context holds byte \<open>b\<close>, in a page in use that is neither in the page pool nor in the
  kernel heap, which is where user programs and images are.
\<close>

definition holds :: "layout \<Rightarrow> vmm \<Rightarrow> u32 \<Rightarrow> u32 \<Rightarrow> u8 \<Rightarrow> bool" where
  "holds L v ctx a b \<longleftrightarrow> (\<exists>p. phys_addr v ctx a = Some p \<and> mem v p = b \<and> page_used (pm v) p
     \<and> \<not> pool_address L p \<and> \<not> heap_address L p)"

lemma holds_read:
  assumes "active v ctx" "holds L v ctx a b"
  shows "read8 a v = Inr b"
  using assms(2) virt_to_phys_active [OF assms(1)] by (auto simp: holds_def read8_def)

lemma join_halves:
  "(ucast b0 OR push_bit 8 (ucast b1) OR push_bit 16 (ucast b2) OR push_bit 24 (ucast b3) :: u32)
     = ucast (ucast b0 OR push_bit 8 (ucast b1) :: u16) OR push_bit 16 (ucast (ucast b2 OR push_bit 8 (ucast b3) :: u16))"
  for b0 b1 b2 b3 :: u8
  by (rule bit_word_eqI) (auto simp: bit_simps dest: u8_bit_high bit_imp_le_length)

lemma load32_halves: "load32 m a = ucast (load16 m a) OR push_bit 16 (ucast (load16 m (a + 2)))"
proof -
  have "a + 2 + 1 = a + 3" by simp
  then show ?thesis unfolding load32_def load16_def join_halves by (simp only:)
qed

text \<open>A context that sees the bytes of \<open>img\<close> from \<open>a\<close> on.\<close>

definition sees :: "layout \<Rightarrow> vmm \<Rightarrow> u32 \<Rightarrow> memory \<Rightarrow> u32 \<Rightarrow> nat \<Rightarrow> bool" where
  "sees L v ctx img a n \<longleftrightarrow> (\<forall>i < n. holds L v ctx (a + of_nat i) (img (a + of_nat i)))"

lemma read16_sees:
  assumes "active v ctx" "sees L v ctx img a 2"
  shows "read16 a v = Inr (load16 img a)"
proof -
  have "holds L v ctx (a + of_nat 0) (img (a + of_nat 0))" "holds L v ctx (a + of_nat 1) (img (a + of_nat 1))"
    by (rule assms(2) [unfolded sees_def, rule_format], simp)+
  then have "read8 a v = Inr (img a)" "read8 (a + 1) v = Inr (img (a + 1))" using holds_read [OF assms(1)] by simp_all
  then show ?thesis by (simp add: read16_def load16_def)
qed

lemma sees_part: "sees L v ctx img a n \<Longrightarrow> k + m \<le> n \<Longrightarrow> sees L v ctx img (a + of_nat k) m"
proof -
  assume a: "sees L v ctx img a n" "k + m \<le> n"
  have "holds L v ctx (a + of_nat (k + i)) (img (a + of_nat (k + i)))" if "i < m" for i
    using a that by (simp add: sees_def del: of_nat_add)
  then show ?thesis by (simp add: sees_def algebra_simps)
qed

lemma read32_sees:
  assumes "active v ctx" "sees L v ctx img a 4"
  shows "read32 a v = Inr (load32 img a)"
  using read16_sees [OF assms(1), of L img a] read16_sees [OF assms(1), of L img "a + 2"]
    sees_part [OF assms(2), of 0 2] sees_part [OF assms(2), of 2 2]
  by (simp add: read32_def load32_halves)

section \<open>Loading one segment\<close>

lemma loader_ok_mem:
  assumes L: "layout_ok L" and ok: "loader_ok L v cur ctx" and same: "\<forall>b. pool_address L b \<longrightarrow> mem v' b = mem v b"
    and rest: "pm v' = pm v" "cr3 v' = cr3 v" "current_context v' = cur"
  shows "loader_ok L v' cur ctx" "c \<in> {cur, ctx} \<Longrightarrow> phys_addr v' c a = phys_addr v c a"
    "c \<in> {cur, ctx} \<Longrightarrow> pagedir (mem v') c = pagedir (mem v) c"
proof -
  note o = loader_okD [OF ok]
  have mono: "\<forall>b. page_used (pm v) b \<longrightarrow> page_used (pm v') b" using rest by simp
  note f = data_frame [OF L o(1) same mono] and g = data_frame [OF L o(2) same mono]
  have "own_tables v' cur ctx" using o(5) f(5) g(2,6) unfolding own_tables_def by auto
  moreover have "active v' cur" using o(3) f(2) rest by (simp add: active_def)
  ultimately show "loader_ok L v' cur ctx" using o(6,7) f(1,3) g(1,3) rest by (simp add: loader_ok_def)
  show "c \<in> {cur, ctx} \<Longrightarrow> phys_addr v' c a = phys_addr v c a" "c \<in> {cur, ctx} \<Longrightarrow> pagedir (mem v') c = pagedir (mem v) c"
    using f(2,3) g(2,3) by auto
qed

text \<open>The buffer of a segment, \<open>n\<close> bytes of the heap from \<open>buf\<close> on.\<close>

definition heap_buffer :: "layout \<Rightarrow> u32 \<Rightarrow> u32 \<Rightarrow> bool" where
  "heap_buffer L buf n \<longleftrightarrow> HEAP_START L \<le> buf \<and> unat buf + unat n \<le> unat (HEAP_END L)"

lemma heap_not_pool: "heap_address L a \<Longrightarrow> \<not> pool_address L a"
  unfolding heap_address_def pool_address_def HEAP_START_def by (meson leD)

lemma heap_buffer_byte:
  assumes L: "layout_ok L" and buf: "heap_buffer L buf n" and i: "i < unat n"
  shows "unat (buf + of_nat i) = unat buf + i" "heap_address L (buf + of_nat i)"
proof -
  have "unat (of_nat i :: u32) = i" using i u32_unat_less [of n] by (simp add: unat_of_nat)
  then show at: "unat (buf + of_nat i) = unat buf + i"
    using buf i init_ranges(10) [OF L] by (simp add: heap_buffer_def unat_word_ariths)
  then show "heap_address L (buf + of_nat i)"
    using buf i by (simp add: heap_buffer_def heap_address_def word_le_nat_alt word_less_nat_alt)
qed

lemma heap_buffer_inj:
  assumes "layout_ok L" "heap_buffer L buf n"
  shows "inj_on (\<lambda>i. buf + of_nat i) {..<unat n}"
proof (rule inj_onI)
  fix i j assume i: "i \<in> {..<unat n}" and j: "j \<in> {..<unat n}" and eq: "buf + of_nat i = buf + of_nat j"
  have "unat (buf + of_nat i) = unat (buf + of_nat j)" using eq by (rule arg_cong)
  then show "i = j" using heap_buffer_byte(1) [OF assms] i j by (simp del: add_left_cancel)
qed

text \<open>Copying the image of a segment to its buffer, in the context that runs.\<close>

lemma fill_buffer:
  assumes L: "layout_ok L" and ok: "loader_ok L v cur ctx" and buf: "heap_buffer L buf n"
    and src: "sees L v cur img src (unat n)"
  shows "\<exists>m. memcpy buf src n v = Inr (v\<lparr>mem := m\<rparr>) \<and> loader_ok L (v\<lparr>mem := m\<rparr>) cur ctx
    \<and> (\<forall>i < unat n. m (buf + of_nat i) = img (src + of_nat i)) \<and> (\<forall>b. \<not> heap_address L b \<longrightarrow> m b = mem v b)"
proof -
  note o = loader_okD [OF ok]
  let ?dp = "\<lambda>i. buf + of_nat i"
  define sp where "sp i = the (phys_addr v cur (src + of_nat i))" for i :: nat
  have sp: "phys_addr v cur (src + of_nat i) = Some (sp i)" "mem v (sp i) = img (src + of_nat i)" "\<not> heap_address L (sp i)"
    if "i < unat n" for i
    using src that unfolding sees_def holds_def sp_def by auto
  have heap: "heap_address L (?dp i)" if "i < unat n" for i by (rule heap_buffer_byte(2) [OF L buf that])
  have out: "b \<notin> ?dp ` {..<unat n}" if "\<not> heap_address L b" for b using that heap by auto
  have "\<exists>m. memcpy buf src n v = Inr (v\<lparr>mem := m\<rparr>) \<and> (\<forall>i < unat n. m (?dp i) = mem v (sp i))
      \<and> (\<forall>b. b \<notin> ?dp ` {..<unat n} \<longrightarrow> m b = mem v b)"
  proof (rule memcpy_writes [OF L o(1,3) _ heap_buffer_inj [OF L buf]])
    show "phys_addr v cur (?dp i) = Some (?dp i) \<and> \<not> pool_address L (?dp i)" if "i < unat n" for i
      using o(6) [OF heap [OF that]] heap_not_pool [OF heap [OF that]] by simp
    show "phys_addr v cur (src + of_nat i) = Some (sp i) \<and> sp i \<notin> ?dp ` {..<unat n}" if "i < unat n" for i
      using sp [OF that] out by blast
  qed
  then obtain m where m: "memcpy buf src n v = Inr (v\<lparr>mem := m\<rparr>)" "\<forall>i < unat n. m (?dp i) = mem v (sp i)"
      "\<forall>b. b \<notin> ?dp ` {..<unat n} \<longrightarrow> m b = mem v b" by blast
  have "mem (v\<lparr>mem := m\<rparr>) b = mem v b" if "pool_address L b" for b
    using m(3) out heap_not_pool that by auto
  then have "loader_ok L (v\<lparr>mem := m\<rparr>) cur ctx" using loader_ok_mem(1) [OF L ok] o(4) by simp
  then show ?thesis using m out sp(2) by (intro exI [of _ m]) simp
qed

text \<open>Filling the segment's memory from the buffer, in the new context.\<close>

definition fill_segment :: "u32 \<Rightarrow> u32 \<Rightarrow> u32 \<Rightarrow> u32 \<Rightarrow> u32 \<Rightarrow> vmm \<Rightarrow> kerror + vmm" where
  "fill_segment ctx vaddr n buf k v =
     bindE (activate_memory_context ctx v) (\<lambda>v4.
     bindE (memset vaddr 0 n v4) (\<lambda>v5.
     bindE (memcpy vaddr buf k v5) (\<lambda>v6.
     activate_memory_context (current_context v) v6)))"

lemma fill_segment_effect:
  assumes L: "layout_ok L" and ok: "loader_ok L v cur ctx" and sz: "k \<le> n"
    and dp: "\<And>i. i < unat n \<Longrightarrow> phys_addr v ctx (vaddr + of_nat i) = Some (dp i) \<and> HEAP_END L \<le> dp i"
    and inj: "inj_on dp {..<unat n}" and buf: "heap_buffer L buf k"
  shows "\<exists>m. fill_segment ctx vaddr n buf k v = Inr (v\<lparr>mem := m\<rparr>) \<and> loader_ok L (v\<lparr>mem := m\<rparr>) cur ctx
    \<and> (\<forall>i < unat n. m (dp i) = (if i < unat k then mem v (buf + of_nat i) else 0))
    \<and> (\<forall>b. b < HEAP_END L \<or> b \<notin> dp ` {..<unat n} \<longrightarrow> m b = mem v b)"
proof -
  note o = loader_okD [OF ok]
  let ?v4 = "v\<lparr>cr3 := pagedir (mem v) ctx, current_context := ctx\<rparr>"
  have v4: "activate_memory_context ctx v = Inr ?v4"
    using context_okD(2) [OF o(9)] by (simp add: activate_memory_context_def derefE_nonzero)
  have above: "\<not> pool_address L b" "\<not> heap_address L b" if "HEAP_END L \<le> b" for b
    using that layout_unat [OF L]
    by (auto simp: pool_address_def heap_address_def word_le_nat_alt word_less_nat_alt)
  have ok4: "tables_in_pool L ?v4 ctx" "active ?v4 ctx" "phys_addr ?v4 ctx a = phys_addr v ctx a" for a
    using data_frame(1,3) [OF L o(2), of ?v4] by (simp_all add: active_def)
  have le: "unat k \<le> unat n" using sz by (simp add: word_le_nat_alt)
  have "\<exists>m. memset vaddr 0 n ?v4 = Inr (?v4\<lparr>mem := m\<rparr>)
      \<and> (\<forall>i < unat n. m (dp i) = 0) \<and> (\<forall>b. b \<notin> dp ` {..<unat n} \<longrightarrow> m b = mem ?v4 b)"
    by (rule memset_writes [OF L ok4(1,2) _ inj]) (use dp above ok4(3) in auto)
  then obtain m5 where m5: "memset vaddr 0 n ?v4 = Inr (?v4\<lparr>mem := m5\<rparr>)" "\<forall>i < unat n. m5 (dp i) = 0"
      "\<forall>b. b \<notin> dp ` {..<unat n} \<longrightarrow> m5 b = mem v b" by auto
  let ?v5 = "?v4\<lparr>mem := m5\<rparr>"
  have low: "b \<notin> dp ` {..<unat n}" if "b < HEAP_END L" for b
  proof
    assume "b \<in> dp ` {..<unat n}"
    then have "HEAP_END L \<le> b" using dp by blast
    with that show False by (meson leD)
  qed
  have pool_low: "b < HEAP_END L" if "pool_address L b" for b using that above(1) not_less by blast
  have same5: "\<forall>b. pool_address L b \<longrightarrow> mem ?v5 b = mem ?v4 b" using m5(3) low pool_low by auto
  note f5 = data_frame [OF L ok4(1) same5, simplified]
  have ok5: "tables_in_pool L ?v5 ctx" "active ?v5 ctx" "phys_addr ?v5 ctx a = phys_addr v ctx a" for a
    using f5(1,2,3) ok4(2,3) by (simp_all add: active_def)
  have heap: "heap_address L (buf + of_nat i)" if "i < unat k" for i by (rule heap_buffer_byte(2) [OF L buf that])
  have heap_low: "b < HEAP_END L" if "heap_address L b" for b using that by (simp add: heap_address_def)
  have sub: "dp ` {..<unat k} \<subseteq> dp ` {..<unat n}" using le by auto
  have "\<exists>m. memcpy vaddr buf k ?v5 = Inr (?v5\<lparr>mem := m\<rparr>) \<and> (\<forall>i < unat k. m (dp i) = mem ?v5 (buf + of_nat i))
      \<and> (\<forall>b. b \<notin> dp ` {..<unat k} \<longrightarrow> m b = mem ?v5 b)"
  proof (rule memcpy_writes [OF L ok5(1,2)])
    show "phys_addr ?v5 ctx (vaddr + of_nat i) = Some (dp i) \<and> \<not> pool_address L (dp i)" if "i < unat k" for i
      using that le dp [of i] above(1) ok5(3) by simp
    show "inj_on dp {..<unat k}" by (rule inj_on_subset [OF inj]) (use le in auto)
    show "phys_addr ?v5 ctx (buf + of_nat i) = Some (buf + of_nat i) \<and> buf + of_nat i \<notin> dp ` {..<unat k}"
      if "i < unat k" for i
      using ok5(3) o(7) [OF heap [OF that]] low [OF heap_low [OF heap [OF that]]] sub by auto
  qed
  then obtain m where m: "memcpy vaddr buf k ?v5 = Inr (?v5\<lparr>mem := m\<rparr>)"
      "\<forall>i < unat k. m (dp i) = m5 (buf + of_nat i)" "\<forall>b. b \<notin> dp ` {..<unat k} \<longrightarrow> m b = m5 b" by auto
  have keep: "m b = mem v b" if "b < HEAP_END L \<or> b \<notin> dp ` {..<unat n}" for b
  proof -
    have out: "b \<notin> dp ` {..<unat n}" using that low by blast
    then have "b \<notin> dp ` {..<unat k}" using sub by blast
    then show ?thesis using m(3) m5(3) out by simp
  qed
  have pool_same: "\<forall>b. pool_address L b \<longrightarrow> mem (v\<lparr>mem := m\<rparr>) b = mem v b" using keep pool_low by simp
  note final = loader_ok_mem [OF L ok pool_same, simplified, OF o(4)]
  have "activate_memory_context (current_context v) (?v5\<lparr>mem := m\<rparr>) = Inr (v\<lparr>mem := m\<rparr>)"
    using context_okD(2) [OF o(8)] o(3,4) final(3) by (simp add: activate_memory_context_def derefE_nonzero active_def)
  then have run: "fill_segment ctx vaddr n buf k v = Inr (v\<lparr>mem := m\<rparr>)"
    using v4 m5(1) m(1) by (simp add: fill_segment_def)
  have "m (dp i) = (if i < unat k then mem v (buf + of_nat i) else 0)" if i: "i < unat n" for i
  proof (cases "i < unat k")
    case True
    then show ?thesis using m(2) m5(3) low [OF heap_low [OF heap [OF True]]] by simp
  next
    case False
    have "dp i \<notin> dp ` {..<unat k}" using inj i False le by (auto dest!: inj_onD [of dp _ i])
    then show ?thesis using False m(3) m5(2) i by simp
  qed
  then show ?thesis using run final(1) keep by blast
qed

text \<open>
  A program header the loader loads, and the ones it can: a range of user space that starts at a page,
  with bytes in the image, no more than the memory asked for.
\<close>

definition loadable :: "u32 \<Rightarrow> program_t \<Rightarrow> bool" where
  "loadable addr ph \<longleftrightarrow> ph_type ph = 1 \<and> ph_vaddr ph \<noteq> 0 \<and> addr + ph_offset ph \<noteq> 0"

definition segment_ok :: "program_t \<Rightarrow> bool" where
  "segment_ok ph \<longleftrightarrow> user_range (ph_vaddr ph) (ph_msize ph) \<and> 0 < ph_fsize ph \<and> ph_fsize ph \<le> ph_msize ph"

definition segment_byte :: "memory \<Rightarrow> u32 \<Rightarrow> program_t \<Rightarrow> nat \<Rightarrow> u8" where
  "segment_byte img addr ph i = (if i < unat (ph_fsize ph) then img (addr + ph_offset ph + of_nat i) else 0)"

definition segment_pages :: "program_t \<Rightarrow> nat" where
  "segment_pages ph = page_count (ph_vaddr ph) (ph_vaddr ph + ph_msize ph)"

lemma program_fields:
  assumes "active v cur" "sees L v cur img program 32"
  shows "read32 program v = Inr (ph_type (program_at img program))"
    "read32 (program + 4) v = Inr (ph_offset (program_at img program))"
    "read32 (program + 8) v = Inr (ph_vaddr (program_at img program))"
    "read32 (program + 16) v = Inr (ph_fsize (program_at img program))"
    "read32 (program + 20) v = Inr (ph_msize (program_at img program))"
  using read32_sees [OF assms(1) sees_part [OF assms(2), of 0 4]] read32_sees [OF assms(1) sees_part [OF assms(2), of 4 4]]
    read32_sees [OF assms(1) sees_part [OF assms(2), of 8 4]] read32_sees [OF assms(1) sees_part [OF assms(2), of 16 4]]
    read32_sees [OF assms(1) sees_part [OF assms(2), of 20 4]]
  by (simp_all add: program_at_def)

lemma sees_mono: "(\<And>a b. holds L v c a b \<Longrightarrow> holds L v' c a b) \<Longrightarrow> sees L v c img a n \<Longrightarrow> sees L v' c img a n"
  by (simp add: sees_def)

lemma holds_grown:
  assumes "grown L ctx v v'" "apart L v c ctx" "holds L v c a b"
  shows "holds L v' c a b"
  using grownD(5) [OF assms(1,2)] grownD(7,8) [OF assms(1)] assms(3) by (auto simp: holds_def unchanged_def)

lemma loader_ok_apart: "loader_ok L v cur ctx \<Longrightarrow> apart L v cur ctx"
  by (simp add: loader_ok_def apart_def)

text \<open>The heap afterwards: the same blocks are in use.\<close>

definition heap_kept :: "layout \<Rightarrow> kheap \<Rightarrow> kheap \<Rightarrow> nat \<Rightarrow> bool" where
  "heap_kept L h h' e \<longleftrightarrow> heap_below L h' e \<and> (\<forall>b. live_block L h' b \<longleftrightarrow> live_block L h b)"

lemma heap_below_ok: "heap_below L h e \<Longrightarrow> heap_ok L h"
  by (auto simp: heap_below_def heap_ok_def)

text \<open>What loading a segment has done to the state of the memory.\<close>

definition segment_loaded :: "layout \<Rightarrow> memory \<Rightarrow> u32 \<Rightarrow> program_t \<Rightarrow> u32 \<Rightarrow> vmm \<Rightarrow> vmm \<Rightarrow> bool" where
  "segment_loaded L img addr ph ctx v v' \<longleftrightarrow>
     (\<forall>i < unat (ph_msize ph). holds L v' ctx (ph_vaddr ph + of_nat i) (segment_byte img addr ph i))
   \<and> grown L ctx v v'
   \<and> (\<forall>a b. holds L v ctx a b \<and> \<not> in_pages (ph_vaddr ph) (ph_msize ph) a \<longrightarrow> holds L v' ctx a b)
   \<and> free_frames L v \<le> free_frames L v' + segment_pages ph \<and> free_pool L v \<le> free_pool L v' + segment_pages ph"

lemma load_segment_unfold:
  assumes "active (vm s) cur" "sees L (vm s) cur img program 32" and ph: "ph = program_at img program"
  shows "load_segment L addr ctx program s =
     (if \<not> loadable addr ph then Inr s
      else
        bindE (kmalloc L (ph_fsize ph) (heap s)) (\<lambda>(buf, h1).
        bindE (memcpy buf (addr + ph_offset ph) (ph_fsize ph) (vm s)) (\<lambda>v2.
        bindE (vmm_alloc L ctx (ph_vaddr ph) (ph_msize ph) v2) (\<lambda>v3.
        bindE (fill_segment ctx (ph_vaddr ph) (ph_msize ph) buf (ph_fsize ph) v3) (\<lambda>v7.
        bindE (kfree L buf h1) (\<lambda>h2. Inr (s\<lparr>vm := v7, heap := h2\<rparr>)))))))"
  using program_fields [OF assms(1,2)]
  by (cases "kmalloc L (ph_fsize (program_at img program)) (heap s)")
    (simp_all add: load_segment_def loadable_def Let_def ph k_malloc_def k_free_def on_vm_def fill_segment_def
      bindE_assoc split_beta)

lemma load_segment_loads:
  assumes L: "layout_ok L" and ok: "loader_ok L (vm s) cur ctx" and hdr: "sees L (vm s) cur img program 32"
    and ph: "ph = program_at img program" and load: "loadable addr ph" and seg: "segment_ok ph"
    and src: "sees L (vm s) cur img (addr + ph_offset ph) (unat (ph_fsize ph))"
    and heap: "heap_below L (heap s) e" "e + 16 + unat (ph_fsize ph) \<le> unat (HEAP_END L)"
    and room: "segment_pages ph \<le> free_frames L (vm s)" "segment_pages ph \<le> free_pool L (vm s)"
  shows "\<exists>v' h'. load_segment L addr ctx program s = Inr (s\<lparr>vm := v', heap := h'\<rparr>) \<and> loader_ok L v' cur ctx
    \<and> heap_kept L (heap s) h' (e + 16 + unat (ph_fsize ph)) \<and> segment_loaded L img addr ph ctx (vm s) v'"
proof -
  let ?n = "ph_msize ph" and ?k = "ph_fsize ph" and ?vaddr = "ph_vaddr ph" and ?src = "addr + ph_offset ph"
  have r: "user_range ?vaddr ?n" "?k \<le> ?n" "0 < ?k" using seg by (auto simp: segment_ok_def)
  obtain buf h1 h2 where b: "buffer_cycle L ?k (heap s) (e + 16 + unat ?k) buf h1 h2"
    using kmalloc_below [OF L heap(1) r(3) heap(2)] by blast
  then have buf: "heap_buffer L buf ?k" using heap(2) by (simp add: buffer_cycle_def heap_buffer_def)
  obtain m1 where m1: "memcpy buf ?src ?k (vm s) = Inr ((vm s)\<lparr>mem := m1\<rparr>)" "loader_ok L ((vm s)\<lparr>mem := m1\<rparr>) cur ctx"
      "\<forall>i < unat ?k. m1 (buf + of_nat i) = img (?src + of_nat i)" "\<forall>b. \<not> heap_address L b \<longrightarrow> m1 b = mem (vm s) b"
    using fill_buffer [OF L ok buf src] by blast
  define v2 where "v2 = (vm s)\<lparr>mem := m1\<rparr>"
  have v2: "loader_ok L v2 cur ctx" "pm v2 = pm (vm s)" using m1(2) by (simp_all add: v2_def)
  have same2: "phys_addr v2 c a = phys_addr (vm s) c a" if "c \<in> {cur, ctx}" for c a
  proof (rule loader_ok_mem(2) [OF L ok _ _ _ _ that])
    show "\<forall>b. pool_address L b \<longrightarrow> mem v2 b = mem (vm s) b"
      using m1(4) heap_not_pool by (auto simp: v2_def)
    show "current_context v2 = cur" using loader_okD(4) [OF v2(1)] .
  qed (simp_all add: v2_def)
  have room2: "page_count ?vaddr (?vaddr + ?n) \<le> free_frames L v2" "page_count ?vaddr (?vaddr + ?n) \<le> free_pool L v2"
    using room by (simp_all add: segment_pages_def free_frames_def free_pool_def v2(2))
  obtain v3 dp where v3: "vmm_alloc L ctx ?vaddr ?n v2 = Inr v3" "loader_ok L v3 cur ctx" and bk: "backed L cur ctx ?vaddr ?n dp v2 v3"
    using segment_alloc [OF L v2(1) r(1) room2] by blast
  note bk = bk [unfolded backed_def]
  have at: "phys_addr v3 ctx (?vaddr + of_nat i) = Some (dp i) \<and> HEAP_END L \<le> dp i" if "i < unat ?n" for i
    using bk that by blast
  have inj: "inj_on dp {..<unat ?n}" using bk by blast
  obtain m where m: "fill_segment ctx ?vaddr ?n buf ?k v3 = Inr (v3\<lparr>mem := m\<rparr>)" "loader_ok L (v3\<lparr>mem := m\<rparr>) cur ctx"
      "\<forall>i < unat ?n. m (dp i) = (if i < unat ?k then mem v3 (buf + of_nat i) else 0)"
      "\<forall>b. b < HEAP_END L \<or> b \<notin> dp ` {..<unat ?n} \<longrightarrow> m b = mem v3 b"
    using fill_segment_effect [OF L v3(2) r(2) at inj buf] by blast
  define v' where "v' = v3\<lparr>mem := m\<rparr>"
  have run: "load_segment L addr ctx program s = Inr (s\<lparr>vm := v', heap := h2\<rparr>)"
    using load_segment_unfold [OF loader_okD(3) [OF ok] hdr ph] load b m1(1) v3(1) m(1)
    by (simp add: buffer_cycle_def v2_def v'_def)
  have same': "phys_addr v' c a = phys_addr v3 c a" if "c \<in> {cur, ctx}" for c a
  proof (rule loader_ok_mem(2) [OF L v3(2) _ _ _ _ that])
    show "\<forall>b. pool_address L b \<longrightarrow> mem v' b = mem v3 b"
    proof (intro allI impI)
      fix b assume "pool_address L b"
      then have "b < HEAP_END L" using layout_unat [OF L] by (simp add: pool_address_def word_less_nat_alt)
      then show "mem v' b = mem v3 b" using m(4) by (simp add: v'_def)
    qed
    show "current_context v' = cur" using loader_okD(4) [OF v3(2)] by (simp add: v'_def)
  qed (simp_all add: v'_def)
  have pool_low: "b < HEAP_END L" if "pool_address L b" for b
    using that layout_unat [OF L] by (simp add: pool_address_def word_less_nat_alt)
  have keep: "mem v' p = mem (vm s) p \<and> page_used (pm v') p"
    if p: "page_used (pm (vm s)) p" "\<not> pool_address L p" "\<not> heap_address L p" for p
  proof -
    have "p \<notin> dp ` {..<unat ?n}" using bk p(1) v2(2) by auto
    then have "mem v' p = mem v3 p" using m(4) by (simp add: v'_def)
    also have "\<dots> = mem v2 p" using bk p(2) by blast
    also have "\<dots> = mem (vm s) p" using m1(4) p(3) by (simp add: v2_def)
    finally show ?thesis using bk p(1) v2(2) by (simp add: v'_def)
  qed
  have "holds L v' ctx (?vaddr + of_nat i) (segment_byte img addr ph i)" if i: "i < unat ?n" for i
  proof -
    have above: "\<not> pool_address L (dp i)" "\<not> heap_address L (dp i)"
      using at [OF i] layout_unat [OF L] by (auto simp: pool_address_def heap_address_def word_le_nat_alt word_less_nat_alt)
    have "mem v' (dp i) = segment_byte img addr ph i"
    proof (cases "i < unat ?k")
      case True
      have "mem v3 (buf + of_nat i) = mem v2 (buf + of_nat i)"
        using bk heap_not_pool [OF heap_buffer_byte(2) [OF L buf True]] by blast
      then show ?thesis using m(3) m1(3) i True by (simp add: v'_def v2_def segment_byte_def)
    next
      case False
      then show ?thesis using m(3) i by (simp add: v'_def segment_byte_def)
    qed
    moreover have "phys_addr v' ctx (?vaddr + of_nat i) = Some (dp i)" using same' [of ctx] at [OF i] by simp
    moreover have "page_used (pm v') (dp i)" using bk i by (simp add: v'_def)
    ultimately show ?thesis using above by (auto simp: holds_def)
  qed
  moreover have "grown L ctx (vm s) v'"
  proof -
    have "grown L ctx (vm s) v2" unfolding v2_def
      by (rule grown_write [OF L grown_refl [OF loader_okD(2) [OF ok]]]) (use m1(4) heap_not_pool in auto)
    then have "grown L ctx (vm s) v3"
      using vmm_alloc_grown [OF L loader_okD(2) [OF v2(1)] r(1) v3(1)] by (rule grown_trans)
    moreover have "m p = mem v3 p" if "page_used (pm (vm s)) p" for p
    proof -
      have "p \<notin> dp ` {..<unat ?n}" using bk that v2(2) by auto
      then show ?thesis using m(4) by blast
    qed
    ultimately show ?thesis unfolding v'_def
      by (intro grown_write [OF L]) (use m(4) pool_low in auto)
  qed
  moreover have "holds L v' ctx a b" if "holds L (vm s) ctx a b" "\<not> in_pages ?vaddr ?n a" for a b
    using that keep same' [of ctx a] same2 [of ctx a] bk by (auto simp: holds_def)
  moreover have "free_frames L (vm s) \<le> free_frames L v' + segment_pages ph" "free_pool L (vm s) \<le> free_pool L v' + segment_pages ph"
    using bk by (simp_all add: segment_pages_def free_frames_def free_pool_def v2(2) v'_def)
  ultimately have "segment_loaded L img addr ph ctx (vm s) v'" by (simp add: segment_loaded_def)
  moreover have "heap_kept L (heap s) h2 (e + 16 + unat ?k)"
  proof -
    have "request_ok ?k" using heap(2) init_ranges(10) [OF L] by (simp add: request_ok_def word_le_nat_alt)
    then have "request_ok n" if "read32 (program + 16) (vm s) = Inr n" for n
      using that program_fields(4) [OF loader_okD(3) [OF ok] hdr] ph by simp
    from load_segment_heap [OF heap_below_ok [OF heap(1)] run this] obtain h v where
      same: "s\<lparr>vm := v', heap := h2\<rparr> = s\<lparr>vm := v, heap := h\<rparr>" and live: "\<forall>b. live_block L h b \<longleftrightarrow> live_block L (heap s) b"
      by blast
    have "h2 = h" using arg_cong [OF same, of heap] by simp
    with live have "\<forall>b. live_block L h2 b \<longleftrightarrow> live_block L (heap s) b" by simp
    then show ?thesis using b by (simp add: buffer_cycle_def heap_kept_def)
  qed
  moreover have "loader_ok L v' cur ctx" using m(2) by (simp add: v'_def)
  ultimately show ?thesis using run by blast
qed

section \<open>Loading the image\<close>

text \<open>The program headers of the image at \<open>addr\<close>, and the segments among them that are loaded.\<close>

definition program_address :: "memory \<Rightarrow> u32 \<Rightarrow> nat \<Rightarrow> u32" where
  "program_address img addr k = addr + h_offset (header_at img addr) + 32 * of_nat k"

definition segments_from :: "memory \<Rightarrow> u32 \<Rightarrow> nat \<Rightarrow> program_t list" where
  "segments_from img addr i = filter (loadable addr)
     (map (\<lambda>k. program_at img (program_address img addr k)) [i..<unat (h_pentry_count (header_at img addr))])"

abbreviation segments :: "memory \<Rightarrow> u32 \<Rightarrow> program_t list" where
  "segments img addr \<equiv> segments_from img addr 0"

definition segment_covers :: "program_t \<Rightarrow> u32 \<Rightarrow> bool" where
  "segment_covers ph a \<longleftrightarrow> in_pages (ph_vaddr ph) (ph_msize ph) a"

text \<open>An image whose segments can be loaded and do not share pages, and that \<open>cur\<close> sees.\<close>

definition elf_ok :: "memory \<Rightarrow> u32 \<Rightarrow> bool" where
  "elf_ok img addr \<longleftrightarrow> addr \<noteq> 0 \<and> h_magic (header_at img addr) = ELF_MAGIC \<and> (\<forall>ph \<in> set (segments img addr). segment_ok ph)
     \<and> sorted_wrt (\<lambda>p q. \<forall>a. \<not> (segment_covers p a \<and> segment_covers q a)) (segments img addr)"

definition sees_image :: "layout \<Rightarrow> vmm \<Rightarrow> u32 \<Rightarrow> memory \<Rightarrow> u32 \<Rightarrow> bool" where
  "sees_image L v cur img addr \<longleftrightarrow> sees L v cur img addr 52
     \<and> (\<forall>k < unat (h_pentry_count (header_at img addr)). sees L v cur img (program_address img addr k) 32)
     \<and> (\<forall>ph \<in> set (segments img addr). sees L v cur img (addr + ph_offset ph) (unat (ph_fsize ph)))"

text \<open>The heap space and the pages the segments take at most.\<close>

definition heap_need :: "program_t list \<Rightarrow> nat" where
  "heap_need phs = (\<Sum>ph \<leftarrow> phs. 16 + unat (ph_fsize ph))"

definition page_need :: "program_t list \<Rightarrow> nat" where
  "page_need phs = (\<Sum>ph \<leftarrow> phs. segment_pages ph)"

definition segments_loaded :: "layout \<Rightarrow> memory \<Rightarrow> u32 \<Rightarrow> program_t list \<Rightarrow> u32 \<Rightarrow> vmm \<Rightarrow> vmm \<Rightarrow> bool" where
  "segments_loaded L img addr phs ctx v v' \<longleftrightarrow>
     (\<forall>ph \<in> set phs. \<forall>i < unat (ph_msize ph). holds L v' ctx (ph_vaddr ph + of_nat i) (segment_byte img addr ph i))
   \<and> grown L ctx v v'
   \<and> (\<forall>a b. holds L v ctx a b \<and> (\<forall>ph \<in> set phs. \<not> segment_covers ph a) \<longrightarrow> holds L v' ctx a b)
   \<and> free_frames L v \<le> free_frames L v' + page_need phs \<and> free_pool L v \<le> free_pool L v' + page_need phs"

lemma segments_from_step:
  assumes "i < unat (h_pentry_count (header_at img addr))"
  defines "ph \<equiv> program_at img (program_address img addr i)"
  shows "segments_from img addr i = (if loadable addr ph then ph # segments_from img addr (Suc i) else segments_from img addr (Suc i))"
  using assms by (simp add: segments_from_def upt_conv_Cons)

lemma segments_loaded_cons:
  assumes one: "segment_loaded L img addr ph ctx v v1" and rest: "segments_loaded L img addr phs ctx v1 v'"
    and apart: "\<forall>q \<in> set phs. \<forall>a. \<not> (segment_covers ph a \<and> segment_covers q a)" and seg: "segment_ok ph"
  shows "segments_loaded L img addr (ph # phs) ctx v v'"
proof -
  have "holds L v' ctx (ph_vaddr ph + of_nat i) (segment_byte img addr ph i)" if i: "i < unat (ph_msize ph)" for i
  proof -
    have "segment_covers ph (ph_vaddr ph + of_nat i)"
      using user_range_byte(2) [of "ph_vaddr ph" "ph_msize ph" i] seg i by (simp add: segment_ok_def segment_covers_def)
    then have "\<forall>q \<in> set phs. \<not> segment_covers q (ph_vaddr ph + of_nat i)" using apart by blast
    moreover have "holds L v1 ctx (ph_vaddr ph + of_nat i) (segment_byte img addr ph i)"
      using one i by (simp add: segment_loaded_def)
    ultimately show ?thesis using rest by (simp add: segments_loaded_def)
  qed
  moreover have "holds L v' ctx a b" if "holds L v ctx a b" "\<forall>q \<in> set (ph # phs). \<not> segment_covers q a" for a b
    using that one rest by (simp add: segment_loaded_def segments_loaded_def segment_covers_def)
  moreover have "grown L ctx v v'"
    using one rest grown_trans by (auto simp: segments_loaded_def segment_loaded_def)
  moreover have "page_need (ph # phs) = segment_pages ph + page_need phs" by (simp add: page_need_def)
  then have "free_frames L v \<le> free_frames L v' + page_need (ph # phs)" "free_pool L v \<le> free_pool L v' + page_need (ph # phs)"
    using one rest by (simp_all add: segments_loaded_def segment_loaded_def)
  ultimately show ?thesis using rest by (simp add: segments_loaded_def)
qed

lemma sees_image_mono:
  assumes "\<And>a b. holds L v cur a b \<Longrightarrow> holds L v' cur a b" "sees_image L v cur img addr"
  shows "sees_image L v' cur img addr"
  using assms(2) sees_mono [of L v cur v', OF assms(1)] by (simp add: sees_image_def)

lemma segment_member: "i \<le> k \<Longrightarrow> set (segments_from img addr k) \<subseteq> set (segments_from img addr i)"
  by (auto simp: segments_from_def)

lemma elf_loop_loads:
  assumes L: "layout_ok L" and elf: "elf_ok img addr"
    and i: "i \<le> unat (h_pentry_count (header_at img addr))"
    and ok: "loader_ok L (vm s) cur ctx" "sees_image L (vm s) cur img addr"
    and heap: "heap_below L (heap s) e" "e + heap_need (segments_from img addr i) \<le> unat (HEAP_END L)"
    and room: "page_need (segments_from img addr i) \<le> free_frames L (vm s)" "page_need (segments_from img addr i) \<le> free_pool L (vm s)"
  shows "\<exists>v' h'. elf_loop L addr ctx i (program_address img addr i) s = Some (Inr (s\<lparr>vm := v', heap := h'\<rparr>))
    \<and> loader_ok L v' cur ctx \<and> segments_loaded L img addr (segments_from img addr i) ctx (vm s) v'
    \<and> heap_kept L (heap s) h' (e + heap_need (segments_from img addr i))"
  using i ok heap room
proof (induction "unat (h_pentry_count (header_at img addr)) - i" arbitrary: i s e)
  case (0 i s e)
  then have "i = unat (h_pentry_count (header_at img addr))" by simp
  moreover have "read16 (addr + 44) (vm s) = Inr (h_pentry_count (header_at img addr))"
    using read16_sees [OF loader_okD(3) [OF "0.prems"(2)], of L img "addr + 44"]
      sees_part [of L "vm s" cur img addr 52 44 2] "0.prems"(3) by (simp add: sees_image_def header_at_def)
  ultimately show ?case
    using "0.prems"(2,4) loader_okD(2) [OF "0.prems"(2)] by (intro exI [of _ "vm s"] exI [of _ "heap s"])
      (simp add: elf_loop.simps segments_from_def segments_loaded_def heap_need_def page_need_def heap_kept_def grown_refl)
next
  case (Suc d i s e)
  let ?ph = "program_at img (program_address img addr i)"
  have lt: "i < unat (h_pentry_count (header_at img addr))" using Suc.hyps(2) by simp
  have count: "read16 (addr + 44) (vm s) = Inr (h_pentry_count (header_at img addr))"
    using read16_sees [OF loader_okD(3) [OF Suc.prems(2)], of L img "addr + 44"]
      sees_part [of L "vm s" cur img addr 52 44 2] Suc.prems(3) by (simp add: sees_image_def header_at_def)
  have hdr: "sees L (vm s) cur img (program_address img addr i) 32" using Suc.prems(3) lt by (simp add: sees_image_def)
  have next_addr: "program_address img addr i + 32 = program_address img addr (Suc i)"
    by (simp add: program_address_def algebra_simps)
  have d: "d = unat (h_pentry_count (header_at img addr)) - Suc i" using Suc.hyps(2) by simp
  show ?case
  proof (cases "loadable addr ?ph")
    case False
    have step: "load_segment L addr ctx (program_address img addr i) s = Inr s"
      using load_segment_unfold [OF loader_okD(3) [OF Suc.prems(2)] hdr refl] False by simp
    have same: "segments_from img addr i = segments_from img addr (Suc i)" using segments_from_step [OF lt] False by simp
    obtain v' h' where "elf_loop L addr ctx (Suc i) (program_address img addr (Suc i)) s = Some (Inr (s\<lparr>vm := v', heap := h'\<rparr>))"
        "loader_ok L v' cur ctx" "segments_loaded L img addr (segments_from img addr (Suc i)) ctx (vm s) v'"
        "heap_kept L (heap s) h' (e + heap_need (segments_from img addr (Suc i)))"
      using Suc.hyps(1) [OF d _ Suc.prems(2,3,4)] Suc.prems(5-7) lt unfolding same by auto
    then show ?thesis unfolding same using step count lt next_addr
      by (intro exI [of _ v'] exI [of _ h']) (simp add: elf_loop.simps [of L addr ctx i])
  next
    case True
    have segs: "segments_from img addr i = ?ph # segments_from img addr (Suc i)" using segments_from_step [OF lt] True by simp
    have mem: "?ph \<in> set (segments img addr)" using segment_member [of 0 i img addr] segs by auto
    have seg: "segment_ok ?ph" using elf mem by (simp add: elf_ok_def)
    have src: "sees L (vm s) cur img (addr + ph_offset ?ph) (unat (ph_fsize ?ph))"
      using Suc.prems(3) mem by (simp add: sees_image_def)
    have need: "heap_need (segments_from img addr i) = 16 + unat (ph_fsize ?ph) + heap_need (segments_from img addr (Suc i))"
      "page_need (segments_from img addr i) = segment_pages ?ph + page_need (segments_from img addr (Suc i))"
      by (simp_all add: segs heap_need_def page_need_def)
    obtain v1 h1 where step: "load_segment L addr ctx (program_address img addr i) s = Inr (s\<lparr>vm := v1, heap := h1\<rparr>)"
      and ok1: "loader_ok L v1 cur ctx" and kept: "heap_kept L (heap s) h1 (e + 16 + unat (ph_fsize ?ph))"
      and one: "segment_loaded L img addr ?ph ctx (vm s) v1"
      using load_segment_loads [OF L Suc.prems(2) hdr refl True seg src Suc.prems(4)] Suc.prems(5-7) need by auto
    have below: "heap_below L h1 (e + 16 + unat (ph_fsize ?ph))" using kept by (simp add: heap_kept_def)
    have im1: "sees_image L v1 cur img addr"
      using sees_image_mono [OF _ Suc.prems(3)] holds_grown [OF _ loader_ok_apart [OF Suc.prems(2)]] one
      by (simp add: segment_loaded_def)
    have room1: "e + 16 + unat (ph_fsize ?ph) + heap_need (segments_from img addr (Suc i)) \<le> unat (HEAP_END L)"
      "page_need (segments_from img addr (Suc i)) \<le> free_frames L v1" "page_need (segments_from img addr (Suc i)) \<le> free_pool L v1"
      using Suc.prems(5-7) need one by (simp_all add: segment_loaded_def)
    obtain v' h' where rest: "elf_loop L addr ctx (Suc i) (program_address img addr (Suc i)) (s\<lparr>vm := v1, heap := h1\<rparr>)
          = Some (Inr (s\<lparr>vm := v', heap := h'\<rparr>))"
        "loader_ok L v' cur ctx" "segments_loaded L img addr (segments_from img addr (Suc i)) ctx v1 v'"
        "heap_kept L h1 h' (e + 16 + unat (ph_fsize ?ph) + heap_need (segments_from img addr (Suc i)))"
      using Suc.hyps(1) [OF d, of "s\<lparr>vm := v1, heap := h1\<rparr>" "e + 16 + unat (ph_fsize ?ph)"] lt ok1 im1 below room1 by auto
    have "sorted_wrt (\<lambda>p q. \<forall>a. \<not> (segment_covers p a \<and> segment_covers q a)) (segments_from img addr i)"
    proof -
      have "[0..<unat (h_pentry_count (header_at img addr))] = [0..<i] @ [i..<unat (h_pentry_count (header_at img addr))]"
        using upt_add_eq_append [of 0 i "unat (h_pentry_count (header_at img addr)) - i"] lt by simp
      then have "segments img addr = filter (loadable addr)
          (map (\<lambda>k. program_at img (program_address img addr k)) [0..<i]) @ segments_from img addr i"
        by (simp add: segments_from_def)
      then show ?thesis using elf by (simp add: elf_ok_def sorted_wrt_append)
    qed
    then have apart: "\<forall>q \<in> set (segments_from img addr (Suc i)). \<forall>a. \<not> (segment_covers ?ph a \<and> segment_covers q a)"
      by (simp add: segs)
    have "segments_loaded L img addr (segments_from img addr i) ctx (vm s) v'"
      unfolding segs by (rule segments_loaded_cons [OF one rest(3) apart seg])
    moreover have "heap_kept L (heap s) h' (e + heap_need (segments_from img addr i))"
      using kept rest(4) need(1) by (simp add: heap_kept_def add.assoc)
    ultimately show ?thesis using step count lt next_addr rest(1,2)
      by (intro exI [of _ v'] exI [of _ h']) (simp add: elf_loop.simps [of L addr ctx i])
  qed
qed

section \<open>Images that are not loaded\<close>

text \<open>The number of program headers is read anew in every turn, but it has 16 bits.\<close>

lemma u16_bound: "unat (n :: u16) < 65536"
  using unsigned_less [of n] by simp

lemma elf_loop_unfold:
  "elf_loop L addr ctx i program s =
     (case read16 (addr + 44) (vm s) of
        Inl e \<Rightarrow> Some (Inl e)
      | Inr n \<Rightarrow>
          if i < unat n
          then (case load_segment L addr ctx program s of
                  Inl e \<Rightarrow> Some (Inl e)
                | Inr s' \<Rightarrow> elf_loop L addr ctx (i + 1) (program + 32) s')
          else Some (Inr s))"
  by (rule elf_loop.simps)

lemma elf_loop_ends: "\<exists>r. elf_loop L addr ctx i program s = Some r"
proof (induction "65536 - i" arbitrary: i program s)
  case 0
  have "\<not> i < unat n" for n :: u16 using u16_bound [of n] "0.hyps" by linarith
  then show ?case by (subst elf_loop_unfold) (simp split: sum.split)
next
  case (Suc d)
  have "d = 65536 - (i + 1)" using Suc.hyps(2) by simp
  note IH = Suc.hyps(1) [OF this]
  show ?case
    by (subst elf_loop_unfold) (auto split: sum.split intro: IH [simplified])
qed

section \<open>The whole of ParseElf\<close>

lemma ParseElf_effect:
  assumes "layout_ok L" "loader_ok L (vm s) cur ctx" "elf_ok img addr" "sees_image L (vm s) cur img addr"
    and "heap_below L (heap s) e" "e + heap_need (segments img addr) \<le> unat (HEAP_END L)"
    and "page_need (segments img addr) \<le> free_frames L (vm s)" "page_need (segments img addr) \<le> free_pool L (vm s)"
  obtains v' h' where "ParseElf L addr ctx s = Inr (h_entry (header_at img addr), s\<lparr>vm := v', heap := h'\<rparr>)"
    "loader_ok L v' cur ctx" "segments_loaded L img addr (segments img addr) ctx (vm s) v'"
    "heap_kept L (heap s) h' (e + heap_need (segments img addr))"
proof -
  obtain v' h' where loop: "elf_loop L addr ctx 0 (program_address img addr 0) s = Some (Inr (s\<lparr>vm := v', heap := h'\<rparr>))"
    and ok': "loader_ok L v' cur ctx" and loaded: "segments_loaded L img addr (segments img addr) ctx (vm s) v'"
    and below: "heap_kept L (heap s) h' (e + heap_need (segments img addr))"
    using elf_loop_loads [OF assms(1,3) _ assms(2,4-8)] by auto
  have hdr: "sees L (vm s) cur img addr 52" using assms(4) by (simp add: sees_image_def)
  have hdr': "sees L v' cur img addr 52"
    using sees_mono [OF _ hdr] holds_grown [OF _ loader_ok_apart [OF assms(2)]] loaded by (simp add: segments_loaded_def)
  have "read32 (addr + 28) (vm s) = Inr (h_offset (header_at img addr))" "read32 addr (vm s) = Inr (h_magic (header_at img addr))"
    using read32_sees [OF loader_okD(3) [OF assms(2)] sees_part [OF hdr, of 28 4]]
      read32_sees [OF loader_okD(3) [OF assms(2)] sees_part [OF hdr, of 0 4]] by (simp_all add: header_at_def)
  moreover have "read32 (addr + 24) v' = Inr (h_entry (header_at img addr))"
    using read32_sees [OF loader_okD(3) [OF ok'] sees_part [OF hdr', of 24 4]] by (simp add: header_at_def)
  moreover have "ctx \<noteq> 0" using context_okD(2) [OF loader_okD(9) [OF assms(2)]] .
  moreover have "addr \<noteq> 0" "h_magic (header_at img addr) = ELF_MAGIC" using assms(3) by (simp_all add: elf_ok_def)
  ultimately have "ParseElf L addr ctx s = Inr (h_entry (header_at img addr), s\<lparr>vm := v', heap := h'\<rparr>)"
    using loop by (simp add: ParseElf_def program_address_def returned_def)
  with ok' loaded below show ?thesis using that by blast
qed

section \<open>Properties\<close>

text \<open>
  C9: Loading a program. Where the current context sees a well-formed image, the new context shares the
  kernel's tables with it, and there are a page of memory and one for a table for every page of the
  segments and room on the heap for their bytes, \<open>ParseElf\<close> succeeds with the image's entry point, and
  then: the new context holds the bytes of every segment at its address, followed by zeros up to its size
  in memory; what any other context saw, the current one included, it still sees; what the new context
  held outside the segments' pages it still holds; and nothing but memory and heap has changed.
\<close>

theorem ParseElf_loads:
  assumes "layout_ok L" "loader_ok L (vm s) cur ctx" "elf_ok img addr" "sees_image L (vm s) cur img addr"
    and "heap_below L (heap s) e" "e + heap_need (segments img addr) \<le> unat (HEAP_END L)"
    and "page_need (segments img addr) \<le> free_frames L (vm s)" "page_need (segments img addr) \<le> free_pool L (vm s)"
  shows "\<exists>v' h'. ParseElf L addr ctx s = Inr (h_entry (header_at img addr), s\<lparr>vm := v', heap := h'\<rparr>)
    \<and> (\<forall>ph \<in> set (segments img addr). \<forall>i < unat (ph_msize ph).
          holds L v' ctx (ph_vaddr ph + of_nat i) (segment_byte img addr ph i))
    \<and> (\<forall>c a b. (c = cur \<or> apart L (vm s) c ctx) \<and> holds L (vm s) c a b \<longrightarrow> holds L v' c a b)
    \<and> (\<forall>a b. holds L (vm s) ctx a b \<and> (\<forall>ph \<in> set (segments img addr). \<not> segment_covers ph a) \<longrightarrow> holds L v' ctx a b)
    \<and> loader_ok L v' cur ctx"
proof -
  obtain v' h' where run: "ParseElf L addr ctx s = Inr (h_entry (header_at img addr), s\<lparr>vm := v', heap := h'\<rparr>)"
    and ok: "loader_ok L v' cur ctx" and loaded: "segments_loaded L img addr (segments img addr) ctx (vm s) v'"
    by (rule ParseElf_effect [OF assms])
  have "holds L v' c a b" if "c = cur \<or> apart L (vm s) c ctx" "holds L (vm s) c a b" for c a b
    using that holds_grown loader_ok_apart [OF assms(2)] loaded unfolding segments_loaded_def by blast
  then show ?thesis
    using run ok loaded by (intro exI [of _ v'] exI [of _ h']) (simp add: segments_loaded_def)
qed

text \<open>
  C31: \<open>ParseElf\<close> on anything else. Whatever the memory holds, the loop over the program headers ends; and
  for a null address, a null context or an image without the magic number, \<open>ParseElf\<close> returns \<open>NULL\<close> and
  leaves the kernel as it is.
\<close>

theorem ParseElf_rejects:
  "(\<exists>r. elf_loop L addr ctx i program s = Some r)
   \<and> (addr = 0 \<or> ctx = 0 \<or> (\<exists>off m. read32 (addr + 28) (vm s) = Inr off \<and> read32 addr (vm s) = Inr m \<and> m \<noteq> ELF_MAGIC)
        \<longrightarrow> ParseElf L addr ctx s = Inr (0, s))"
  using elf_loop_ends by (auto simp: ParseElf_def)

theorem ParseElf_rejects_witness:
  "ParseElf example_layout 0x1000 0 boot_kernel = Inr (0, boot_kernel)"
  using ParseElf_rejects [of example_layout "0x1000" 0 0 0 boot_kernel] by blast

end
