(* ===== verification/Program_Start.thy ===== *)
theory Program_Start
  imports Elf_Load
begin

text \<open>
  From boot to a program in memory: the address spaces that \<open>InitVmm\<close> and \<open>CreateUsermodeContext\<close> of
  \<open>vmm.c\<close> build are ones \<open>ParseElf\<close> of \<open>elf.c\<close> can load into, so that a kernel that has booted loads the
  programs it is given.
\<close>

section \<open>Setting up address spaces only touches the page pool\<close>

definition pool_only :: "layout \<Rightarrow> vmm \<Rightarrow> vmm \<Rightarrow> bool" where
  "pool_only L v v' \<longleftrightarrow> (\<forall>b. \<not> pool_address L b \<longrightarrow> mem v' b = mem v b)
     \<and> (\<forall>b. page_used (pm v) b \<longrightarrow> page_used (pm v') b)
     \<and> (\<forall>b. page_used (pm v') b \<and> \<not> page_used (pm v) b \<longrightarrow> pool_address L b)"

lemma pool_only_refl [simp]: "mem v' = mem v \<Longrightarrow> pm v' = pm v \<Longrightarrow> pool_only L v v'"
  by (simp add: pool_only_def)

lemma pool_only_trans: "pool_only L v v1 \<Longrightarrow> pool_only L v1 v2 \<Longrightarrow> pool_only L v v2"
  unfolding pool_only_def by metis

lemma pool_only_frames:
  assumes "layout_ok L" "pool_only L v v'"
  shows "free_frames L v' = free_frames L v"
proof -
  have "\<not> pool_address L b" if "above_heap L b" for b
    using that layout_unat [OF assms(1)] by (auto simp: pool_address_def above_heap_def word_le_nat_alt word_less_nat_alt)
  then have "{f. above_heap L f \<and> \<not> page_used (pm v') f} = {f. above_heap L f \<and> \<not> page_used (pm v) f}"
    using assms(2) by (auto simp: pool_only_def)
  then show ?thesis by (simp add: free_frames_def)
qed

lemma tables_in_pool_same: "mem v' = mem v \<Longrightarrow> pm v' = pm v \<Longrightarrow> tables_in_pool L v' ctx \<longleftrightarrow> tables_in_pool L v ctx"
  by (simp add: tables_in_pool_def context_page_def context_ok_def)

lemma create_context_pool:
  assumes L: "layout_ok L" and run: "create_context L v = Inr (ctx, v')"
  shows "tables_in_pool L v' ctx" "pool_only L v v'" "tables v' ctx = {}"
proof -
  obtain pd where m': "mem v' = fill_table pd (\<lambda>_ _. 0) 1024 (store32 (mem v) ctx pd)"
    and pool: "in_pool L ctx" "in_pool L pd"
    and used: "\<And>b. page_used (pm v') b \<longleftrightarrow> same_page ctx b \<or> same_page pd b \<or> page_used (pm v) b"
    and pd: "pagedir (mem v') ctx = pd"
    by (rule create_context_effect [OF L run]) (rule that)
  note m = create_context_memory [OF L run]
  show "tables v' ctx = {}" using m(4) by (auto simp: tables_def)
  show "tables_in_pool L v' ctx"
    using m(1,4) pool pd by (auto simp: tables_in_pool_def context_page_def)
  have "mem v' b = mem v b" if "\<not> pool_address L b" for b
  proof -
    have "page_aligned ctx" "page_aligned pd" using pool by (simp_all add: in_pool_def)
    moreover have "unat b div 4096 \<noteq> unat pd div 4096" "unat b div 4096 \<noteq> unat ctx div 4096"
      using that pool_page_address [OF L pool(1), of b] pool_page_address [OF L pool(2), of b] by (auto simp: same_page_unat)
    ultimately show ?thesis
      using fill_table_outside [of pd 1024 b] store_entry_outside [of ctx 0 b "mem v" pd] by (simp add: m' entry_def)
  qed
  moreover have "pool_address L b" if "page_used (pm v') b" "\<not> page_used (pm v) b" for b
    using that used pool_page_address [OF L pool(1), of b] pool_page_address [OF L pool(2), of b] by (auto simp: same_page_sym)
  ultimately show "pool_only L v v'" using used unfolding pool_only_def by blast
qed

lemma identity_pool:
  assumes L: "layout_ok L" and ok: "tables_in_pool L v ctx" and run: "identity L ctx start n v = Inr v'"
  shows "tables_in_pool L v' ctx \<and> pool_only L v v'
    \<and> tables v' ctx = tables v ctx \<union> (\<lambda>k. pd_index (start + 0x1000 * of_nat k)) ` {..<n}"
  using run
proof (induction n arbitrary: v')
  case 0
  then show ?case using ok by (simp add: identity_def)
next
  case (Suc n)
  let ?p = "start + 0x1000 * of_nat n"
  from Suc.prems obtain v1 where v1: "identity L ctx start n v = Inr v1" "map_page L ctx ?p ?p 1 v1 = Inr v'"
    by (auto simp: identity_Suc bindE_Inr_iff)
  have IH: "tables_in_pool L v1 ctx" "pool_only L v v1"
      "tables v1 ctx = tables v ctx \<union> (\<lambda>k. pd_index (start + 0x1000 * of_nat k)) ` {..<n}"
    using Suc.IH [OF v1(1)] by auto
  then have ok1: "context_ok v1 ctx" by (simp add: tables_in_pool_def)
  note f = map_page_frame [OF L IH(1) v1(2)]
  have "pool_only L v1 v'"
    using f(2,7) map_page_effect [OF L ok1 v1(2)] by (auto simp: pool_only_def)
  moreover have "tables v' ctx = insert (pd_index ?p) (tables v1 ctx)" using map_page_tables [OF L ok1 v1(2)] by blast
  ultimately show ?case using f(1) IH(2,3) pool_only_trans by (auto simp: lessThan_Suc)
qed

lemma map_range_pool:
  assumes L: "layout_ok L" and ok: "tables_in_pool L v ctx" and s: "page_aligned sz"
    and room: "unat s + unat sz < 0x40000000" and run: "map_range L ctx s s sz 1 v = Inr v'" and S: "tables v ctx \<subseteq> {..<256}"
  shows "tables_in_pool L v' ctx" "pool_only L v v'" "tables v' ctx \<subseteq> {..<256}"
proof -
  have "identity L ctx s (Suc (unat sz div 4096)) v = Inr v'"
    using run map_range_fold [of s sz L ctx s 1 v] room s by (simp add: identity_def)
  note i = identity_pool [OF L ok this]
  show "tables_in_pool L v' ctx" "pool_only L v v'" using i by simp_all
  have "pd_index (s + 0x1000 * of_nat k) < 256" if "k < Suc (unat sz div 4096)" for k
  proof -
    have le: "4096 * k \<le> unat sz" using that by (simp add: less_Suc_eq_le less_eq_div_iff_mult_less_eq)
    then have "unat (of_nat k :: u32) = k" using room by (simp add: unat_of_nat)
    then have "unat (s + 0x1000 * of_nat k) = unat s + 4096 * k" using le room by (simp add: unat_word_ariths)
    then have "unat (s + 0x1000 * of_nat k) < 0x40000000" using le room by simp
    then have "unat (s + 0x1000 * of_nat k) div 4194304 < 256" by (simp add: less_mult_imp_div_less)
    then show ?thesis by (simp add: pd_index_def unat_div_distrib div_mult2_eq [symmetric])
  qed
  then show "tables v' ctx \<subseteq> {..<256}" using i S by auto
qed

text \<open>What \<open>InitVmm\<close> has done, for a kernel that leaves user space a directory entry of its own.\<close>

lemma InitVmm_pool:
  assumes L: "layout_ok L" and small: "kernel_end L < 0x3EA00000" and run: "InitVmm L v = Inr v'"
  shows "tables_in_pool L v' (kernel_context v')" "pool_only L v v'" "tables v' (kernel_context v') \<subseteq> {..<256}"
proof -
  from run obtain ctx v1 v3 v4 v5 where c: "create_context L v = Inr (ctx, v1)"
    and r1: "map_range L ctx (kernel_start L) (kernel_start L) (kernel_end L - kernel_start L) 1 (v1\<lparr>kernel_context := ctx\<rparr>) = Inr v3"
    and r2: "map_range L ctx (PAGEPOOL_START L) (PAGEPOOL_START L) (PAGEPOOL_END L - PAGEPOOL_START L) 1 v3 = Inr v4"
    and r3: "map_range L ctx (HEAP_START L) (HEAP_START L) HEAP_SIZE 1 v4 = Inr v5"
    and v': "v' = v5\<lparr>cr3 := pagedir (mem v5) ctx, current_context := ctx, cr0 := cr0 v5 OR push_bit 31 1\<rparr>"
    by (auto simp: InitVmm_def activate_memory_context_def bindE_Inr_iff derefE_Inr_iff)
  note i = init_ranges [OF L] and u = layout_unat [OF L]
  have low: "unat (HEAP_END L) < 0x40000000" using u small by (simp add: word_less_nat_alt)
  note c' = create_context_pool [OF L c]
  let ?v2 = "v1\<lparr>kernel_context := ctx\<rparr>"
  have v2: "tables_in_pool L ?v2 ctx" "tables ?v2 ctx \<subseteq> {..<256}" "pool_only L v ?v2"
    using c'(1) tables_in_pool_same [of ?v2 v1] c'(3) c'(2) by (auto simp: tables_def pool_only_def)
  have ids: "context_ok ?v2 ctx" using v2(1) by (simp add: tables_in_pool_def)
  have b: "unat (kernel_start L) + unat (kernel_end L - kernel_start L) < 0x40000000"
    "unat (PAGEPOOL_START L) + unat (PAGEPOOL_END L - PAGEPOOL_START L) < 0x40000000"
    "unat (HEAP_START L) + unat HEAP_SIZE < 0x40000000" using i u low by simp_all
  note m1 = map_range_pool [OF L v2(1) i(2) b(1) r1 v2(2)]
  note m2 = map_range_pool [OF L m1(1) i(5) b(2) r2 m1(3)]
  note m3 = map_range_pool [OF L m2(1) i(8) b(3) r3 m2(3)]
  have "kernel_context v5 = ctx"
  proof -
    have b': "unat (kernel_start L) + unat (kernel_end L - kernel_start L) < 0xFFFFF000"
      "unat (PAGEPOOL_START L) + unat (PAGEPOOL_END L - PAGEPOOL_START L) < 0xFFFFF000"
      "unat (HEAP_START L) + unat HEAP_SIZE < 0xFFFFF000" using b by simp_all
    note k1 = map_range_identity [OF L ids i(1,2) b'(1) r1]
    note k2 = map_range_identity [OF L conjunct1 [OF k1] i(4,5) b'(2) r2]
    note k3 = map_range_identity [OF L conjunct1 [OF k2] i(7,8) b'(3) r3]
    show ?thesis using k1 k2 k3 by simp
  qed
  then have kc: "kernel_context v' = ctx" by (simp add: v')
  have same: "mem v' = mem v5" "pm v' = pm v5" by (simp_all add: v')
  show "tables_in_pool L v' (kernel_context v')" using m3(1) tables_in_pool_same [OF same] kc by simp
  show "tables v' (kernel_context v') \<subseteq> {..<256}" using m3(3) kc same(1) by (simp add: tables_def)
  have "pool_only L v5 v'" using same by simp
  then show "pool_only L v v'" using v2(3) m1(2) m2(2) m3(2) pool_only_trans by blast
qed

lemma usermode_context_pool:
  assumes L: "layout_ok L" and ok: "tables_in_pool L v (kernel_context v)"
    and run: "CreateUsermodeContext L w v = Inr (ctx, v')"
  defines "k \<equiv> kernel_context v"
  shows "tables_in_pool L v' k" "tables_in_pool L v' ctx" "pool_only L v v'" "cr3 v' = cr3 v" "current_context v' = current_context v"
    "\<not> context_page v' k (pagedir (mem v') ctx)" "pagedir (mem v') k = pagedir (mem v) k" "tables v' k = tables v k"
    "\<forall>i < 1024. table_at (mem v') (pagedir (mem v') ctx) i = table_at (mem v') (pagedir (mem v') k) i"
    "\<forall>a. walk_context v' ctx a = walk_context v k a \<and> walk_context v' k a = walk_context v k a" "kernel_context v' = k"
proof -
  have cok: "context_ok v (kernel_context v)" and pool: "\<And>t. context_page v k t \<Longrightarrow> in_pool L t"
    using ok by (auto simp: tables_in_pool_def k_def)
  note e = usermode_context_effect [OF L cok run, folded k_def]
  show k: "tables_in_pool L v' k" using e(9,13) pool by (simp add: tables_in_pool_def)
  have "in_pool L t" if "context_page v' ctx t" for t
  proof -
    have "t = ctx \<or> t = pagedir (mem v') ctx \<or> context_page v' k t"
      using that e(12) by (auto simp: context_page_def)
    then show ?thesis using e(13,15,16) pool by blast
  qed
  then show "tables_in_pool L v' ctx" using e(7) by (simp add: tables_in_pool_def)
  have out: "\<not> same_page b t" if "\<not> pool_address L b" "in_pool L t" for b t
    using that pool_page_address [OF L that(2)] by blast
  have "pool_address L b" if "page_used (pm v') b" "\<not> page_used (pm v) b" for b
    using that e(2) out e(15,16) same_page_sym by metis
  then show "pool_only L v v'" using e(2,14) out by (auto simp: pool_only_def)
  show "cr3 v' = cr3 v" "current_context v' = current_context v"
    using run by (auto simp: CreateUsermodeContext_def create_context_def Let_def kernel_simps)
  show "\<not> context_page v' k (pagedir (mem v') ctx)"
    using e(3,13) context_page_used [OF cok] by (auto simp: k_def)
  have same: "\<forall>t b. context_page v k t \<and> same_page b t \<longrightarrow> mem v' b = mem v b"
    using e(17) context_page_used [OF cok] page_used_same unfolding k_def by blast
  have mono: "\<forall>b. page_used (pm v) b \<longrightarrow> page_used (pm v') b" using e(2) by blast
  note f = context_frame [OF cok, folded k_def, OF same mono]
  show "pagedir (mem v') k = pagedir (mem v) k" by (rule f(1))
  then show "tables v' k = tables v k" using f(2) by (auto simp: tables_def)
  show "\<forall>i < 1024. table_at (mem v') (pagedir (mem v') ctx) i = table_at (mem v') (pagedir (mem v') k) i" using e(12) by blast
  show "\<forall>a. walk_context v' ctx a = walk_context v k a \<and> walk_context v' k a = walk_context v k a" using e(8,10) by blast
  show "kernel_context v' = k" by (rule e(4))
qed

lemma frame_of_flags: "frame_of (frame_of a OR 7) = frame_of a"
  using frame_of_entry [OF frame_of_aligned, of a 1] by (simp add: page_flags_def)

lemma heap_identity:
  assumes L: "layout_ok L" and id: "identity_mapped L v" and a: "heap_address L a"
  shows "phys_addr v (kernel_context v) a = Some a"
proof -
  have "frame_of a \<le> HEAP_END L" using a frame_of_le [of a] by (auto simp: heap_address_def)
  moreover have "kernel_start L \<le> frame_of a"
  proof -
    have "page_aligned (HEAP_START L)" by (rule init_ranges(7) [OF L])
    then obtain k where k: "unat (HEAP_START L) = k * 4096" by (rule page_alignedE)
    have "unat (HEAP_START L) \<le> unat a" using a by (simp add: heap_address_def word_le_nat_alt)
    then have "unat (HEAP_START L) \<le> unat (frame_of a)" unfolding unat_frame_of k using div_le_mono [of "k * 4096" "unat a" 4096] by simp
    then show ?thesis using init_ranges(12) [OF L] layout_unat(2) [OF L] by (simp add: word_le_nat_alt)
  qed
  ultimately have "walk_context v (kernel_context v) a = Some (frame_of a OR 7)" using id by (simp add: identity_mapped_def)
  then show ?thesis by (simp add: phys_addr_def join_parts frame_of_flags)
qed

text \<open>
  A context made for a new process next to the one that runs, in a kernel whose context maps the kernel to
  itself: \<open>ParseElf\<close> can load into it.
\<close>

lemma new_context_loadable:
  assumes L: "layout_ok L" and id: "identity_mapped L v" and ok: "tables_in_pool L v (kernel_context v)"
    and low: "tables v (kernel_context v) \<subseteq> {..<256}"
    and cur: "cr3 v = pagedir (mem v) (kernel_context v)" "current_context v = kernel_context v"
    and run: "CreateUsermodeContext L w v = Inr (ctx, v')"
  shows "loader_ok L v' (kernel_context v) ctx"
proof -
  let ?k = "kernel_context v"
  note u = usermode_context_pool [OF L ok run]
  have heap: "phys_addr v' ?k a = Some a \<and> phys_addr v' ctx a = Some a" if "heap_address L a" for a
    using heap_identity [OF L id that] u(10) by (simp add: phys_addr_def)
  have none: "table_at (mem v') (pagedir (mem v') ctx) i = None" if "256 \<le> i" "i < 1024" for i
  proof -
    have "i \<notin> tables v' ?k" using that low u(8) by auto
    then show ?thesis using that u(9) by (simp add: tables_def)
  qed
  then have "own_tables v' ?k ctx" using u(6) by (auto simp: own_tables_def)
  then show ?thesis using u(1,2,4,5,7) cur heap by (simp add: loader_ok_def active_def)
qed

section \<open>An example\<close>

text \<open>
  A program of one segment: two bytes, 10 and 20, to be loaded at \<open>0x80000000\<close> into four bytes of memory.
  It lies at \<open>0x1000\<close> and, as the files \<open>./vfs.elf\<close> and \<open>./init.elf\<close> of an archive with headers at \<open>0x1200\<close> and
  \<open>0x1600\<close>, at \<open>0x1400\<close> and \<open>0x1800\<close>.
\<close>

definition example_image :: memory where
  "example_image =
     (\<lambda>_. 0)(0 := 0x7F, 1 := 0x45, 2 := 0x4C, 3 := 0x46, 0x1B := 0x80, 0x1C := 52, 0x2C := 1,
       0x34 := 1, 0x38 := 84, 0x3F := 0x80, 0x44 := 2, 0x48 := 4, 0x54 := 10, 0x55 := 20)"

definition example_elf :: memory where
  "example_elf a =
     (if a < 0x1200 then example_image (a - 0x1000)
      else if a < 0x1400 then ((\<lambda>_. 0)(0 := 46, 1 := 47, 2 := 118, 3 := 102, 4 := 115, 5 := 46, 6 := 101, 7 := 108, 8 := 102)) (a - 0x1200)
      else if a < 0x1600 then example_image (a - 0x1400)
      else if a < 0x1800 then ((\<lambda>_. 0)(0 := 46, 1 := 47, 2 := 105, 3 := 110, 4 := 105, 5 := 116, 6 := 46, 7 := 101, 8 := 108, 9 := 102)) (a - 0x1600)
      else example_image (a - 0x1800))"

definition example_bases :: "u32 list" where
  "example_bases = [0x1000, 0x1400, 0x1800]"

definition example_program :: program_t where
  "example_program = \<lparr>ph_type = 1, ph_offset = 84, ph_vaddr = 0x80000000, ph_paddr = 0, ph_fsize = 2, ph_msize = 4,
     ph_flags = 0, ph_alignment = 0\<rparr>"

lemma example_base [simp]: "0x1000 \<in> set example_bases"
  by (simp add: example_bases_def)

lemma example_base_nonzero: "b \<in> set example_bases \<Longrightarrow> b \<noteq> 0 \<and> b + 84 \<noteq> 0"
  by (auto simp: example_bases_def)

lemma example_elf_image:
  assumes "b \<in> set example_bases" "k < 86"
  shows "example_elf (b + k) = example_image k"
proof -
  have "unat (b + k) = unat b + unat k" "unat k < 86"
    using assms by (auto simp: example_bases_def word_less_nat_alt unat_word_ariths)
  then have "b + k < c \<longleftrightarrow> unat b + unat k < unat c" for c by (simp add: word_less_nat_alt)
  moreover have "b = 0x1000 \<or> b = 0x1400 \<or> b = 0x1800" using assms(1) by (simp add: example_bases_def)
  ultimately show ?thesis using \<open>unat k < 86\<close> by (elim disjE) (simp_all add: example_elf_def)
qed

lemma example_elf_loads:
  assumes "b \<in> set example_bases" "k < 82"
  shows "load32 example_elf (b + k) = load32 example_image k" "load16 example_elf (b + k) = load16 example_image k"
proof -
  have "k + j < 86" if "j < 4" for j using assms(2) that by (simp add: word_less_nat_alt unat_word_ariths)
  then have "example_elf (b + k + j) = example_image (k + j)" if "j < 4" for j
    using example_elf_image [OF assms(1), of "k + j"] that by (simp add: add.assoc)
  from this [of 0] this [of 1] this [of 2] this [of 3]
  show "load32 example_elf (b + k) = load32 example_image k" "load16 example_elf (b + k) = load16 example_image k"
    by (simp_all add: load32_def load16_def)
qed

lemma example_elf_header:
  assumes "b \<in> set example_bases"
  shows "h_magic (header_at example_elf b) = ELF_MAGIC" "h_entry (header_at example_elf b) = 0x80000000"
    "h_offset (header_at example_elf b) = 52" "h_pentry_count (header_at example_elf b) = 1"
  using example_elf_loads [OF assms, of 0] example_elf_loads [OF assms, of 24] example_elf_loads [OF assms, of 28]
    example_elf_loads [OF assms, of 44]
  by (simp_all add: header_at_def) (simp_all add: load32_def load16_def example_image_def)

lemma example_elf_program:
  assumes "b \<in> set example_bases"
  shows "program_at example_elf (b + 52) = example_program"
proof -
  have "load32 example_elf (b + 52 + k) = load32 example_image (52 + k)" if "k < 29" for k
    using that example_elf_loads(1) [OF assms, of "52 + k"] by (simp add: word_less_nat_alt unat_word_ariths add.assoc)
  from this [of 0] this [of 4] this [of 8] this [of 12] this [of 16] this [of 20] this [of 24] this [of 28] show ?thesis
    by (simp add: program_at_def example_program_def) (simp add: load32_def example_image_def)
qed

lemma example_elf_segments: "b \<in> set example_bases \<Longrightarrow> segments example_elf b = [example_program]"
  by (simp add: segments_from_def program_address_def example_elf_header example_elf_program loadable_def upt_rec)
    (simp add: example_program_def example_base_nonzero)

lemma example_elf_ok: "b \<in> set example_bases \<Longrightarrow> elf_ok example_elf b"
  by (simp add: elf_ok_def example_elf_segments example_elf_header segment_ok_def user_range_def example_program_def example_base_nonzero)

lemma example_segment_bytes:
  assumes "b \<in> set example_bases"
  shows "segment_byte example_elf b example_program 1 = 20" "segment_byte example_elf b example_program 3 = 0"
proof -
  have "example_elf (b + 85) = 20" using example_elf_image [OF assms, of 85] by (simp add: example_image_def)
  then show "segment_byte example_elf b example_program 1 = 20" "segment_byte example_elf b example_program 3 = 0"
    by (simp_all add: segment_byte_def example_program_def add.assoc)
qed

definition loader_vmm :: vmm where
  "loader_vmm = \<lparr>pm = use 0x1000 empty_pmm, mem = example_elf, kernel_context = 0, current_context = 0, cr0 = 0, cr3 = 0\<rparr>"

lemma loader_vmm_used: "page_used (pm loader_vmm) a \<longleftrightarrow> same_page 0x1000 a"
  by (simp add: loader_vmm_def)

lemma loader_vmm_room: "480 \<le> free_pool example_layout loader_vmm"
proof (rule example_pool_room)
  fix a :: u32 assume "0x170000 \<le> a"
  then have "0x170000 \<le> unat a" by (simp add: word_le_nat_alt)
  then have "0x170 \<le> unat a div 4096" using div_le_mono [of "0x170000" "unat a" 4096] by simp
  then show "\<not> page_used (pm loader_vmm) a" by (auto simp: loader_vmm_used same_page_unat)
qed

text \<open>After paging is on and a context made, the kernel still sees the image.\<close>

lemma example_image_byte:
  assumes id: "identity_mapped example_layout v" and walk: "walk_context v2 k a = walk_context v (kernel_context v) a"
    and pool: "pool_only example_layout loader_vmm v2" and a: "frame_of a = 0x1000"
  shows "holds example_layout v2 k a (example_elf a)"
proof -
  have "walk_context v2 k a = Some (0x1000 OR 7)" using id walk a by (simp add: identity_mapped_def)
  moreover have "frame_of 0x1007 = 0x1000" by (simp add: frame_of_def)
  ultimately have "phys_addr v2 k a = Some a" using join_parts [of a] a by (simp add: phys_addr_def)
  moreover have "unat a < 0x2000" "0x1000 \<le> unat a"
  proof -
    have "unat a div 4096 * 4096 = 0x1000" using unat_frame_of [of a] a by simp
    then show "unat a < 0x2000" "0x1000 \<le> unat a" by linarith+
  qed
  then have low: "\<not> pool_address example_layout a" "\<not> heap_address example_layout a"
    by (auto simp: pool_address_def heap_address_def word_le_nat_alt)
  moreover have "page_used (pm v2) a"
  proof -
    have "same_page a 0x1000" using a same_page_frame [of "0x1000" a] by simp
    then have "page_used (pm loader_vmm) a" by (simp add: loader_vmm_used same_page_sym)
    then show ?thesis using pool by (simp add: pool_only_def)
  qed
  moreover have "mem v2 a = example_elf a" using pool low(1) by (simp add: pool_only_def loader_vmm_def)
  ultimately show ?thesis by (simp add: holds_def)
qed

lemma example_page: "i < 4096 \<Longrightarrow> frame_of (0x1000 + of_nat i) = 0x1000"
proof -
  assume i: "i < 4096"
  then have "unat (of_nat i :: u32) = i" by (simp add: unat_of_nat)
  then have "unat (0x1000 + of_nat i :: u32) = 4096 + i" using i by (simp add: unat_word_ariths)
  moreover have "(4096 + i) div 4096 * 4096 = 4096" using i by simp
  ultimately show ?thesis by (simp add: word_unat_eq_iff unat_frame_of)
qed

lemma example_image_seen:
  assumes "identity_mapped example_layout v" "\<And>a. walk_context v2 k a = walk_context v (kernel_context v) a"
    and "pool_only example_layout loader_vmm v2" and b: "b \<in> set example_bases"
  shows "sees_image example_layout v2 k example_elf b"
proof -
  have byte: "holds example_layout v2 k (0x1000 + of_nat j) (example_elf (0x1000 + of_nat j))" if "j < 4096" for j
    by (rule example_image_byte [OF assms(1,2,3) example_page [OF that]])
  have sees: "sees example_layout v2 k example_elf (0x1000 + of_nat j) n" if "j + n \<le> 4096" for j n
  proof -
    have "holds example_layout v2 k (0x1000 + of_nat (j + i)) (example_elf (0x1000 + of_nat (j + i)))" if "i < n" for i
      using byte [of "j + i"] that \<open>j + n \<le> 4096\<close> by (simp only:)
    then show ?thesis by (simp add: sees_def add.assoc)
  qed
  obtain i where i: "b = 0x1000 + of_nat i" "i + 86 \<le> 4096"
    using b that [of 0] that [of "0x400"] that [of "0x800"] by (auto simp: example_bases_def)
  have "sees example_layout v2 k example_elf b 52" "sees example_layout v2 k example_elf (b + 52) 32"
    "sees example_layout v2 k example_elf (b + 84) 2"
    using sees [of i 52] sees [of "i + 52" 32] sees [of "i + 84" 2] i by (simp_all add: ac_simps)
  then show ?thesis
    by (simp add: sees_image_def example_elf_header [OF b] example_elf_segments [OF b] program_address_def example_program_def)
qed

lemma example_needs:
  "b \<in> set example_bases \<Longrightarrow> heap_need (segments example_elf b) = 18"
  "b \<in> set example_bases \<Longrightarrow> page_need (segments example_elf b) = 1"
  by (simp_all add: example_elf_segments heap_need_def page_need_def segment_pages_def page_count_def example_program_def)

lemma example_heap_below: "heap_below example_layout fresh_heap 0x350010"
  using heap_inv_fresh by (auto simp: heap_below_def block_end_def fresh_heap_def kinit_heap_def upd_node_def)

lemma example_frames:
  assumes "pool_only example_layout loader_vmm v"
  shows "2 \<le> free_frames example_layout v"
proof -
  have "card {0x2000000, 0x2001000 :: u32} \<le> free_frames example_layout loader_vmm"
    unfolding free_frames_def by (rule card_mono) (auto simp: above_heap_def loader_vmm_used same_page_def)
  then show ?thesis using pool_only_frames [OF example_layout_ok assms] by simp
qed

text \<open>The example's memory after \<open>InitVmm\<close>.\<close>

lemma example_started:
  obtains v where "InitVmm example_layout loader_vmm = Inr v" "221 \<le> free_pool example_layout v" "kernel_context v \<noteq> 0"
    "identity_mapped example_layout v" "current_context v = kernel_context v" "cr3 v = pagedir (mem v) (kernel_context v)"
    "pool_only example_layout loader_vmm v" "tables_in_pool example_layout v (kernel_context v)"
    "tables v (kernel_context v) \<subseteq> {..<256}"
proof -
  obtain v where v: "InitVmm example_layout loader_vmm = Inr v" "221 \<le> free_pool example_layout v" "kernel_context v \<noteq> 0"
    using InitVmm_succeeds [OF example_layout_ok, of loader_vmm] loader_vmm_room by auto
  show ?thesis
    by (rule that [OF v]) (use InitVmm_identity_mapped [OF example_layout_ok v(1)] InitVmm_pool [OF example_layout_ok _ v(1)] in simp_all)
qed

theorem ParseElf_loads_witness:
  "\<exists>v ctx v2 v' h'. InitVmm example_layout loader_vmm = Inr v \<and> CreateUsermodeContext example_layout 0 v = Inr (ctx, v2)
     \<and> ParseElf example_layout 0x1000 ctx (boot_kernel\<lparr>vm := v2\<rparr>) = Inr (0x80000000, boot_kernel\<lparr>vm := v', heap := h'\<rparr>)
     \<and> holds example_layout v' ctx 0x80000001 20 \<and> holds example_layout v' ctx 0x80000003 0"
proof -
  let ?L = example_layout
  obtain v where v: "InitVmm ?L loader_vmm = Inr v" "221 \<le> free_pool ?L v" "kernel_context v \<noteq> 0"
    and id: "identity_mapped ?L v" "current_context v = kernel_context v" "cr3 v = pagedir (mem v) (kernel_context v)"
    and i: "pool_only ?L loader_vmm v" "tables_in_pool ?L v (kernel_context v)" "tables v (kernel_context v) \<subseteq> {..<256}"
    by (rule example_started)
  obtain ctx v2 where u: "CreateUsermodeContext ?L 0 v = Inr (ctx, v2)" "free_pool ?L v2 = free_pool ?L v - 2"
    using usermode_context_succeeds [OF example_layout_ok, of v 0] v(2,3) by auto
  note up = usermode_context_pool [OF example_layout_ok i(2) u(1)]
  have ok: "loader_ok ?L v2 (kernel_context v) ctx"
    by (rule new_context_loadable [OF example_layout_ok id(1) i(2,3) id(3,2) u(1)])
  have pool: "pool_only ?L loader_vmm v2" using i(1) up(3) pool_only_trans by blast
  have image: "sees_image ?L v2 (kernel_context v) example_elf 0x1000"
    by (rule example_image_seen [OF id(1) _ pool example_base]) (use up(10) in simp)
  have P: "loader_ok ?L (vm (boot_kernel\<lparr>vm := v2\<rparr>)) (kernel_context v) ctx"
    "sees_image ?L (vm (boot_kernel\<lparr>vm := v2\<rparr>)) (kernel_context v) example_elf 0x1000"
    "heap_below ?L (heap (boot_kernel\<lparr>vm := v2\<rparr>)) 0x350010" using ok image example_heap_below by simp_all
  have R: "0x350010 + heap_need (segments example_elf 0x1000) \<le> unat (HEAP_END ?L)"
    "page_need (segments example_elf 0x1000) \<le> free_frames ?L (vm (boot_kernel\<lparr>vm := v2\<rparr>))"
    "page_need (segments example_elf 0x1000) \<le> free_pool ?L (vm (boot_kernel\<lparr>vm := v2\<rparr>))"
    using example_needs example_frames [OF pool] u(2) v(2) by simp_all
  from ParseElf_loads [OF example_layout_ok P(1) example_elf_ok [OF example_base] P(2,3) R] obtain v' h' where
    run: "ParseElf ?L 0x1000 ctx (boot_kernel\<lparr>vm := v2\<rparr>) = Inr (0x80000000, boot_kernel\<lparr>vm := v', heap := h'\<rparr>)"
    and bytes: "\<forall>i < 4. holds ?L v' ctx (0x80000000 + of_nat i) (segment_byte example_elf 0x1000 example_program i)"
    by (auto simp: example_elf_header example_elf_segments example_program_def)
  have "holds ?L v' ctx 0x80000001 20" "holds ?L v' ctx 0x80000003 0"
    using bytes [rule_format, of 1] bytes [rule_format, of 3]
    by (simp_all add: example_segment_bytes [unfolded One_nat_def])
  then show ?thesis using v(1) u(1) run by blast
qed

end
