(* ===== verification/Sbrk.thy ===== *)
theory Sbrk
  imports User_Memory
begin

text \<open>
  The system call \<open>sbrk\<close> of \<open>hal.x86/syscall.c\<close> on every branch: when allocating a range succeeds, when it stops
  the kernel in an assertion, and what happens to sizes with which the break wraps around.
\<close>

section \<open>When allocating pages succeeds\<close>

lemma frame_not_pool:
  assumes L: "layout_ok L" and "above_heap L f" "in_pool L b"
  shows "\<not> same_page f b"
  using assms(2,3) layout_unat [OF L] same_page_aligned [of f b]
  by (auto simp: in_pool_def above_heap_def word_le_nat_alt word_less_nat_alt)

text \<open>Mapping takes pages of the pool only.\<close>

lemma map_page_new_pages:
  assumes L: "layout_ok L" and ok: "context_ok v ctx" and run: "map_page L ctx virt phys us v = Inr v'"
    and b: "page_used (pm v') b" "page_aligned b" "HEAP_END L \<le> b"
  shows "page_used (pm v) b"
proof (rule ccontr)
  assume new: "\<not> page_used (pm v) b"
  from run obtain t v1 where get: "get_page_table L ctx (pd_index virt) (page_flags us) v = Inr (t, v1)"
      and v': "v' = v1\<lparr>mem := store32 (mem v1) (entry t (pt_index virt)) (phys OR page_flags us)\<rparr>"
    by (auto simp: map_page_unfold kernel_simps)
  from get_page_table_ok(7) [OF L ok index_bounds(1) get, of b] b(1) new
  have t: "t < PAGEPOOL_END L" "same_page t b" by (simp_all add: v')
  then have "unat b = unat t div 4096 * 4096" using b(2) by (auto simp: same_page_unat page_aligned_unat)
  then have "unat b \<le> unat t" using div_mult_mod_eq [of "unat t" 4096] by linarith
  then show False using t(1) b(3) layout_unat [OF L] by (simp add: word_le_nat_alt word_less_nat_alt)
qed

text \<open>
  One page: it fails exactly for want of a frame, or of a page table that would have to be made; else it takes
  one frame, and a page of the pool for a table that was missing.
\<close>

lemma vmm_alloc_page_outcome:
  assumes L: "layout_ok L" and ok: "context_ok v ctx" and i: "page_aligned i"
  shows "if free_frames L v = 0 \<or> pd_index i \<notin> tables v ctx \<and> free_pool L v = 0
         then \<exists>msg. vmm_alloc_page L ctx i v = Inl (Assert_Failed msg)
         else \<exists>v'. vmm_alloc_page L ctx i v = Inr v' \<and> context_ok v' ctx \<and> Suc (free_frames L v') = free_frames L v
           \<and> tables v' ctx = insert (pd_index i) (tables v ctx)
           \<and> free_pool L v' + card (tables v' ctx) = free_pool L v + card (tables v ctx)"
proof -
  obtain f p where alloc: "frame_alloc L (pm v) = Inr (f, p)" using frames.alloc_total [OF L] by blast
  then have start: "pmm_alloc_start (HEAP_END L) (pm v) = (f, p)" by (simp add: frame_alloc_def)
  have none: "f = 0 \<longleftrightarrow> free_frames L v = 0"
    using frames.alloc_fails_iff [OF L alloc] by (auto simp: free_frames_def card_eq_0_iff)
  show ?thesis
  proof (cases "f = 0")
    case True
    then show ?thesis using none start by (simp add: vmm_alloc_page_def)
  next
    case f: False
    note new = frames.alloc_page [OF L alloc f] and used = frames.alloc_used [OF L alloc f]
    let ?v = "v\<lparr>pm := p\<rparr>"
    have al: "page_aligned f" "above_heap L f" using new by (auto simp: above_heap_def)
    have ok1: "context_ok ?v ctx" using ok used by (auto simp: context_ok_def Let_def)
    have pool: "free_pool L ?v = free_pool L v"
      unfolding free_pool_def by (intro arg_cong [of _ _ card]) (use used frame_not_pool [OF L al(2)] in auto)
    have tabs: "tables ?v ctx = tables v ctx" by (simp add: tables_def)
    have run: "vmm_alloc_page L ctx i v = map_page L ctx i f 1 ?v" using start f by (simp add: vmm_alloc_page_def)
    have full: "table_at (mem ?v) (pagedir (mem ?v) ctx) (pd_index i) = None \<and> (\<forall>a. in_pool L a \<longrightarrow> page_used (pm ?v) a)
        \<longleftrightarrow> pd_index i \<notin> tables v ctx \<and> free_pool L v = 0"
      unfolding pool [symmetric] using index_bounds(1) [of i] by (auto simp: tables_def free_pool_def card_eq_0_iff)
    note out = map_page_outcome [OF L, of i f ctx 1 ?v]
    show ?thesis
    proof (cases "pd_index i \<notin> tables v ctx \<and> free_pool L v = 0")
      case True
      then show ?thesis using out i al(1) context_okD(2) [OF ok] full by (simp add: run)
    next
      case False
      then obtain v' where v': "map_page L ctx i f 1 ?v = Inr v'"
        using out i al(1) context_okD(2) [OF ok] full by auto
      note m = map_page_effect [OF L ok1 v'] and t = map_page_tables [OF L ok1 v']
      have "{b. above_heap L b \<and> \<not> page_used (pm v') b} = {b. above_heap L b \<and> \<not> page_used (pm v) b} - {f}"
        using m used map_page_new_pages [OF L ok1 v'] same_page_aligned [OF al(1)] by (auto simp: above_heap_def)
      moreover have "f \<in> {b. above_heap L b \<and> \<not> page_used (pm v) b}" using al new by auto
      ultimately have "Suc (free_frames L v') = free_frames L v"
        unfolding free_frames_def using card_Suc_Diff1 [of "{b. above_heap L b \<and> \<not> page_used (pm v) b}" f] by simp
      then show ?thesis using f none False v' m t pool tabs by (auto simp: run)
    qed
  qed
qed

text \<open>A list of pages: room for it is a frame for each page and a page of the pool for each missing table.\<close>

definition room_for :: "layout \<Rightarrow> vmm \<Rightarrow> u32 \<Rightarrow> u32 list \<Rightarrow> bool" where
  "room_for L v ctx ps \<longleftrightarrow> length ps \<le> free_frames L v \<and> card (pd_index ` set ps - tables v ctx) \<le> free_pool L v"

lemma room_for_cons:
  assumes "Suc (free_frames L v') = free_frames L v" "tables v' ctx = insert (pd_index i) (tables v ctx)"
    and "free_pool L v' + card (tables v' ctx) = free_pool L v + card (tables v ctx)"
  shows "room_for L v ctx (i # ps) \<longleftrightarrow> room_for L v' ctx ps"
proof -
  have split: "card (A - T) + card T = card (A \<union> T)" if "finite A" "finite T" for A T :: "nat set"
    using that card_Un_disjoint [of "A - T" T] by (simp add: Diff_Int_distrib2 inf_commute)
  have "card (pd_index ` set (i # ps) - tables v ctx) + card (tables v ctx)
      = card (pd_index ` set ps - tables v' ctx) + card (tables v' ctx)"
    by (subst (1 2) split) (simp_all add: assms(2))
  then show ?thesis using assms(1,3) by (simp add: room_for_def) linarith
qed

lemma vmm_alloc_pages_outcome:
  assumes L: "layout_ok L" and "context_ok v ctx" "\<forall>i \<in> set ps. page_aligned i"
  shows "if room_for L v ctx ps then \<exists>v'. foldE (vmm_alloc_page L ctx) ps v = Inr v'
         else \<exists>msg. foldE (vmm_alloc_page L ctx) ps v = Inl (Assert_Failed msg)"
  using assms(2,3)
proof (induction ps arbitrary: v)
  case Nil
  then show ?case by (simp add: room_for_def)
next
  case (Cons i ps)
  note out = vmm_alloc_page_outcome [OF L Cons.prems(1), of i]
  show ?case
  proof (cases "free_frames L v = 0 \<or> pd_index i \<notin> tables v ctx \<and> free_pool L v = 0")
    case True
    then have "\<not> room_for L v ctx (i # ps)" by (auto simp: room_for_def card_eq_0_iff)
    with True out Cons.prems show ?thesis by auto
  next
    case False
    then obtain v' where v': "vmm_alloc_page L ctx i v = Inr v'" "context_ok v' ctx"
      "Suc (free_frames L v') = free_frames L v" "tables v' ctx = insert (pd_index i) (tables v ctx)"
      "free_pool L v' + card (tables v' ctx) = free_pool L v + card (tables v ctx)" using out Cons.prems by auto
    show ?thesis using Cons.IH [OF v'(2)] Cons.prems v'(1) room_for_cons [OF v'(3-5)] by simp
  qed
qed

section \<open>Ranges that reach the end of memory\<close>

text \<open>
  An end above the start of the last page is never reached by multiples of the page size: the loop wraps to
  address 0 and goes on, until memory is used up and the assertion stops the kernel.
\<close>

lemma vmm_alloc_wraps:
  assumes L: "layout_ok L" and "context_ok v ctx" "page_aligned i" "0xFFFFF000 < e"
  shows "\<exists>msg. page_loop (vmm_alloc_page L ctx) i e v = Some (Inl (Assert_Failed msg))"
  using assms(2,3)
proof (induction "free_frames L v" arbitrary: v i rule: less_induct)
  case less
  note i = below_last_page [OF less.prems(2) assms(4)] and out = vmm_alloc_page_outcome [OF L less.prems]
  show ?case
  proof (cases "free_frames L v = 0 \<or> pd_index i \<notin> tables v ctx \<and> free_pool L v = 0")
    case True
    then show ?thesis using out i(1) by (auto simp: page_loop.simps [of _ i])
  next
    case False
    then obtain v' where v': "vmm_alloc_page L ctx i v = Inr v'" "context_ok v' ctx"
      "Suc (free_frames L v') = free_frames L v" using out by auto
    then have "free_frames L v' < free_frames L v" by simp
    from less.hyps [OF this v'(2)] i(2) show ?thesis using v'(1) i(1) by (simp add: page_loop.simps [of _ i])
  qed
qed

lemma vmm_alloc_misaligned:
  assumes "vaddr < vaddr + sz" "\<not> page_aligned vaddr"
  shows "\<exists>msg. vmm_alloc L ctx vaddr sz v = Inl (Assert_Failed msg)"
proof -
  have "\<exists>msg. vmm_alloc_page L ctx vaddr v = Inl (Assert_Failed msg)"
  proof (cases "pmm_alloc_start (HEAP_END L) (pm v)")
    case (Pair f q)
    then show ?thesis
      using assms(2) by (cases "f = 0") (auto simp: vmm_alloc_page_def map_page_unfold)
  qed
  then show ?thesis using assms(1) by (auto simp: vmm_alloc_def for_pages_def page_loop.simps [of _ vaddr])
qed

text \<open>All of \<open>vmm_alloc\<close> on an aligned start.\<close>

lemma vmm_alloc_outcome:
  assumes L: "layout_ok L" and ok: "context_ok v ctx" and al: "page_aligned vaddr"
  shows "if vaddr + sz \<le> 0xFFFFF000 \<and> room_for L v ctx (pages_of vaddr (vaddr + sz))
         then \<exists>v'. vmm_alloc L ctx vaddr sz v = Inr v'
         else \<exists>msg. vmm_alloc L ctx vaddr sz v = Inl (Assert_Failed msg)"
proof (cases "vaddr + sz \<le> 0xFFFFF000")
  case True
  then show ?thesis
    using vmm_alloc_pages_outcome [OF L ok, of "pages_of vaddr (vaddr + sz)"] set_pages_of [OF al]
    by (auto simp: vmm_alloc_def for_pages_foldE)
next
  case False
  then have "0xFFFFF000 < vaddr + sz" by simp
  from vmm_alloc_wraps [OF L ok al this] False show ?thesis by (auto simp: vmm_alloc_def for_pages_def)
qed

section \<open>The system call\<close>


text \<open>
  A process asks for a page: it gets one. The same process asks for -1 bytes: nothing is mapped, and the answer
  is the break. After that, asking for anything stops the kernel.
\<close>

definition example_caller :: "u32 \<Rightarrow> u32 \<Rightarrow> machine" where
  "example_caller n brk = (example_machine 5 n)\<lparr>kst := upd_proc 0x10
     (\<lambda>p. p\<lparr>sbrk_state := brk, p_context := 0x160000\<rparr>) (kst (example_machine 5 n))\<rparr>"

lemma example_caller_sel:
  "eax (cpu_at (kst (example_caller n brk)) 0x5000) = 5" "ebx (cpu_at (kst (example_caller n brk)) 0x5000) = n"
  "current_process (kst (example_caller n brk)) = 0x10" "sbrk_state (proc_at (kst (example_caller n brk)) 0x10) = brk"
  "p_context (proc_at (kst (example_caller n brk)) 0x10) = 0x160000" "vm (kst (example_caller n brk)) = example_vmm"
  by (simp_all add: example_caller_def example_machine_def example_kernel_def upd_proc_def)


end
