(* ===== verification/Isolation.thy ===== *)
theory Isolation
  imports Program_Start Sbrk
begin

text \<open>
  All address spaces together. \<open>spaces_ok\<close> is the shape they keep from \<open>InitVmm\<close> on, whatever contexts are
  made, activated, given memory, loaded with programs and destroyed, and whatever programs store to their
  memory and the kernel to its own; and of all these steps a process sees at its user addresses only its own.
  What the steps leave out is said where they are defined.
\<close>

section \<open>Well-formed address spaces\<close>

text \<open>
  The kernel's context has tables below entry 256 of the directory only, what it maps there is mapped to
  itself, and the heap is. The contexts \<open>cs\<close> of the processes share these tables; the others of their tables are their own, and so is
  every frame at a user address, which lies above the heap and is in use.
\<close>

abbreviation user_address :: "u32 \<Rightarrow> bool" where
  "user_address a \<equiv> 0x40000000 \<le> a"

definition kernel_space :: "layout \<Rightarrow> vmm \<Rightarrow> bool" where
  "kernel_space L v \<longleftrightarrow> tables_in_pool L v (kernel_context v) \<and> tables v (kernel_context v) \<subseteq> {..<256}
     \<and> (\<forall>a. heap_address L a \<longrightarrow> phys_addr v (kernel_context v) a = Some a)
     \<and> (\<forall>a p. \<not> user_address a \<and> phys_addr v (kernel_context v) a = Some p \<longrightarrow> p = a)"

definition user_space :: "layout \<Rightarrow> vmm \<Rightarrow> u32 \<Rightarrow> bool" where
  "user_space L v c \<longleftrightarrow> tables_in_pool L v c
     \<and> (\<forall>i < 256. table_at (mem v) (pagedir (mem v) c) i = table_at (mem v) (pagedir (mem v) (kernel_context v)) i)
     \<and> (\<forall>a p. user_address a \<and> phys_addr v c a = Some p \<longrightarrow> HEAP_END L \<le> p \<and> page_used (pm v) p)"

definition disjoint_frames :: "vmm \<Rightarrow> u32 \<Rightarrow> u32 \<Rightarrow> bool" where
  "disjoint_frames v c d \<longleftrightarrow> (\<forall>a b p. user_address a \<and> user_address b \<and> phys_addr v c a = Some p \<longrightarrow> phys_addr v d b \<noteq> Some p)"

definition spaces_ok :: "layout \<Rightarrow> vmm \<Rightarrow> u32 list \<Rightarrow> bool" where
  "spaces_ok L v cs \<longleftrightarrow> distinct (kernel_context v # cs) \<and> kernel_space L v \<and> (\<forall>c \<in> set cs. user_space L v c)
     \<and> (\<forall>c \<in> set (kernel_context v # cs). \<forall>d \<in> set cs. c \<noteq> d \<longrightarrow> own_tables v c d)
     \<and> (\<forall>c \<in> set cs. \<forall>d \<in> set cs. c \<noteq> d \<longrightarrow> disjoint_frames v c d)
     \<and> current_context v \<in> set (kernel_context v # cs) \<and> active v (current_context v)"

lemma spaces_okD:
  assumes "spaces_ok L v cs"
  shows "distinct (kernel_context v # cs)" "kernel_space L v" "c \<in> set cs \<Longrightarrow> user_space L v c"
    "c \<in> set (kernel_context v # cs) \<Longrightarrow> d \<in> set cs \<Longrightarrow> c \<noteq> d \<Longrightarrow> own_tables v c d"
    "c \<in> set cs \<Longrightarrow> d \<in> set cs \<Longrightarrow> c \<noteq> d \<Longrightarrow> disjoint_frames v c d"
    "current_context v \<in> set (kernel_context v # cs)" "active v (current_context v)"
  using assms unfolding spaces_ok_def by blast+

lemma spaces_tables:
  assumes "spaces_ok L v cs" "c \<in> set (kernel_context v # cs)"
  shows "tables_in_pool L v c"
  using assms spaces_okD(2,3) [OF assms(1)] by (auto simp: kernel_space_def user_space_def)

lemma spaces_apart: "spaces_ok L v cs \<Longrightarrow> c \<in> set (kernel_context v # cs) \<Longrightarrow> d \<in> set cs \<Longrightarrow> c \<noteq> d \<Longrightarrow> apart L v c d"
  using spaces_tables spaces_okD(4) unfolding apart_def by blast

lemma pd_index_low: "a < 0x40000000 \<Longrightarrow> pd_index a < 256"
proof -
  assume "a < 0x40000000"
  then have "unat a < 256 * 4194304" by (simp add: word_less_nat_alt)
  then have "unat a div 4194304 < 256" by (rule less_mult_imp_div_less)
  then show ?thesis by (simp add: pd_index_def unat_div_distrib div_mult2_eq [symmetric])
qed

lemma shared_walk:
  assumes "table_at (mem v) (pagedir (mem v) c) (pd_index a) = table_at (mem v) (pagedir (mem v) d) (pd_index a)"
  shows "phys_addr v c a = phys_addr v d a"
  using assms by (simp add: phys_addr_def walk_context_def mmu_walk_table)

lemma spaces_heap:
  assumes L: "layout_ok L" and ok: "spaces_ok L v cs" and c: "c \<in> set (kernel_context v # cs)" and a: "heap_address L a"
  shows "phys_addr v c a = Some a"
proof -
  have k: "phys_addr v (kernel_context v) a = Some a" using spaces_okD(2) [OF ok] a by (simp add: kernel_space_def)
  have "a < 0x40000000" using a init_ranges(10) [OF L] by (simp add: heap_address_def word_less_nat_alt)
  then have "phys_addr v c a = phys_addr v (kernel_context v) a" if "c \<in> set cs"
    using spaces_okD(3) [OF ok that] pd_index_low by (intro shared_walk) (simp add: user_space_def)
  then show ?thesis using c k by auto
qed

text \<open>What any context maps below the user addresses it maps to itself.\<close>

lemma spaces_low:
  assumes ok: "spaces_ok L v cs" and c: "c \<in> set (kernel_context v # cs)" and a: "\<not> user_address a" "phys_addr v c a = Some p"
  shows "p = a"
proof -
  have "pd_index a < 256" using a(1) by (intro pd_index_low) simp
  then have "phys_addr v c a = phys_addr v (kernel_context v) a" if "c \<in> set cs"
    using spaces_okD(3) [OF ok that] by (intro shared_walk) (simp add: user_space_def)
  then have "phys_addr v (kernel_context v) a = Some p" using c a(2) by auto
  then show ?thesis using spaces_okD(2) [OF ok] a(1) by (simp add: kernel_space_def)
qed

text \<open>Any process's context can be loaded into while another context runs.\<close>

lemma spaces_loader_ok:
  assumes "layout_ok L" "spaces_ok L v cs" "c \<in> set cs" "current_context v \<noteq> c"
  shows "loader_ok L v (current_context v) c"
  using spaces_okD(4,6,7) [OF assms(2)] spaces_tables [OF assms(2)] spaces_heap [OF assms(1,2)] assms(3,4)
  unfolding loader_ok_def by (simp add: insertI2)

section \<open>Steps that keep the shape\<close>

lemma spaces_init:
  assumes L: "layout_ok L" and small: "kernel_end L < 0x3EA00000" and run: "InitVmm L v = Inr v'"
  shows "spaces_ok L v' []"
proof -
  have id: "identity_mapped L v'" using InitVmm_identity_mapped [OF L run] by simp
  have "p = a" if "phys_addr v' (kernel_context v') a = Some p" for a p
    using that id join_parts [of a] frame_of_flags [of a]
    by (auto simp: identity_mapped_def phys_addr_def split: if_splits)
  then show ?thesis
    using InitVmm_pool [OF assms] InitVmm_identity_mapped [OF L run] heap_identity [OF L, of v']
    by (simp add: spaces_ok_def kernel_space_def active_def)
qed

lemma context_page_fresh:
  assumes "\<And>i t. i < 1024 \<Longrightarrow> table_at (mem v') (pagedir (mem v) c) i = Some t \<Longrightarrow>
      table_at (mem v) (pagedir (mem v) c) i = Some t \<or> fresh_table L v t"
    and "pagedir (mem v') c = pagedir (mem v) c" "context_page v' c t"
  shows "context_page v c t \<or> fresh_table L v t"
  using assms by (auto simp: context_page_def)

lemma spaces_grown:
  assumes L: "layout_ok L" and ok: "spaces_ok L v cs" and c: "c \<in> set cs" and g: "grown L c v v'"
  shows "spaces_ok L v' cs"
proof -
  let ?k = "kernel_context v"
  note gd = grownD [OF g] and s = spaces_okD [OF ok]
  have kc: "kernel_context v' = ?k" by (rule gd(11))
  have k: "?k \<noteq> c" using s(1) c by auto
  have oth: "apart L v' d c" "unchanged v v' d" if "d \<in> set (?k # cs)" "d \<noteq> c" for d
    using gd(5) [OF spaces_apart [OF ok that(1) c that(2)]] by blast+
  have dir: "pagedir (mem v') d = pagedir (mem v) d" if "d \<in> set (?k # cs)" for d
    using oth(2) [OF that] gd(2) by (cases "d = c") (simp_all add: unchanged_def)
  have tabs: "table_at (mem v') (pagedir (mem v) d) i = table_at (mem v) (pagedir (mem v) d) i"
    if "d \<in> set (?k # cs)" "d \<noteq> c" "i < 1024" for d i
    using oth(2) [OF that(1,2)] that(3) by (simp add: unchanged_def)
  have low: "table_at (mem v') (pagedir (mem v) d) i = table_at (mem v) (pagedir (mem v) d) i"
    if "d \<in> set (?k # cs)" "i < 256" for d i
    using tabs [OF that(1), of i] gd(3) that(2) by (cases "d = c") simp_all
  have phys: "phys_addr v' d a = phys_addr v d a" if "d \<in> set (?k # cs)" "d \<noteq> c" for d a
    using oth(2) [OF that] by (simp add: unchanged_def)
  have pool: "tables_in_pool L v' d" if "d \<in> set (?k # cs)" for d
    using oth(1) [OF that] gd(1) by (cases "d = c") (simp_all add: apart_def)
  have used: "page_used (pm v) p" "HEAP_END L \<le> p" if "d \<in> set cs" "user_address a" "phys_addr v d a = Some p" for d a p
    using s(3) [OF that(1)] that by (auto simp: user_space_def)
  have kernel: "kernel_space L v'"
    using s(2) pool [of ?k] dir [of ?k] tabs [of ?k] phys [of ?k] k by (auto simp: kernel_space_def tables_def kc)
  have user: "user_space L v' d" if d: "d \<in> set cs" for d
  proof -
    have "HEAP_END L \<le> p \<and> page_used (pm v') p" if a: "user_address a" "phys_addr v' d a = Some p" for a p
      using a used [OF d a(1)] gd(6) [of a] gd(7) phys [of d a] d by (cases "d = c") (auto simp: fresh_frame_def)
    then have "\<forall>a p. user_address a \<and> phys_addr v' d a = Some p \<longrightarrow> HEAP_END L \<le> p \<and> page_used (pm v') p" by blast
    moreover have "table_at (mem v') (pagedir (mem v) d) i = table_at (mem v') (pagedir (mem v) ?k) i" if "i < 256" for i
      using low [of d i] low [of ?k i] s(3) [OF d] that d by (simp add: user_space_def)
    ultimately show ?thesis using pool d dir unfolding user_space_def kc by simp
  qed
  have own: "own_tables v' d e" if d: "d \<in> set (?k # cs)" and e: "e \<in> set cs" and ne: "d \<noteq> e" for d e
  proof (cases "e = c")
    case True
    then show ?thesis using oth(1) [OF d] ne by (simp add: apart_def)
  next
    case False
    have e': "e \<in> set (?k # cs)" using e by simp
    have used_e: "\<not> fresh_table L v t" if "context_page v e t" for t
      using context_page_used [OF _ that] spaces_tables [OF ok e'] by (simp add: tables_in_pool_def fresh_table_def)
    have page: "context_page v d t \<or> fresh_table L v t" if "context_page v' d t" for t
    proof (cases "d = c")
      case True
      show ?thesis unfolding True by (rule context_page_fresh, erule (1) gd(4), rule gd(2)) (use that True in simp)
    next
      case False
      then show ?thesis using oth(2) [OF d] that by (simp add: unchanged_def)
    qed
    note o = s(4) [OF d e ne, unfolded own_tables_def]
    have "\<not> context_page v' d (pagedir (mem v) e)"
      using page [of "pagedir (mem v) e"] used_e [of "pagedir (mem v) e"] o by (auto simp: context_page_def)
    moreover have "\<not> context_page v' d t" if t: "256 \<le> i" "i < 1024" "table_at (mem v) (pagedir (mem v) e) i = Some t" for i t
    proof -
      have "context_page v e t" using t by (auto simp: context_page_def)
      then show ?thesis using page [of t] used_e [of t] o t by blast
    qed
    ultimately show ?thesis using tabs [OF e' False] dir [OF e'] by (auto simp: own_tables_def)
  qed
  have frames: "disjoint_frames v' d e" if d: "d \<in> set cs" and e: "e \<in> set cs" and ne: "d \<noteq> e" for d e
    unfolding disjoint_frames_def
  proof (intro allI impI notI)
    fix a b p
    assume a: "user_address a \<and> user_address b \<and> phys_addr v' d a = Some p" and b: "phys_addr v' e b = Some p"
    have old: "phys_addr v x y = Some p \<or> \<not> page_used (pm v) p \<and> x = c" if "x \<in> set cs" "phys_addr v' x y = Some p" for x y
      using that phys [of x y] gd(6) [of y] by (cases "x = c") (auto simp: fresh_frame_def)
    have "phys_addr v d a \<noteq> Some p \<or> phys_addr v e b \<noteq> Some p"
      using s(5) [OF d e ne] a by (auto simp: disjoint_frames_def)
    then show False using old [OF d, of a] old [OF e b] used [OF d, of a p] used [OF e, of b p] a ne by auto
  qed
  have "active v' (current_context v)" using s(6,7) dir gd(9) by (simp add: active_def)
  then show ?thesis using s(1,6) kernel user own frames unfolding spaces_ok_def kc gd(10) by blast
qed

lemma spaces_switch:
  assumes ok: "spaces_ok L v cs" and c: "c \<in> set (kernel_context v # cs)" and run: "activate_memory_context c v = Inr v'"
  shows "spaces_ok L v' cs"
proof -
  have v': "v' = v\<lparr>cr3 := pagedir (mem v) c, current_context := c\<rparr>"
    using run by (auto simp: activate_memory_context_def bindE_Inr_iff derefE_Inr_iff)
  have same: "tables_in_pool L v' d = tables_in_pool L v d" "phys_addr v' d a = phys_addr v d a" "tables v' d = tables v d"
      "own_tables v' d e = own_tables v d e" for d e a
    by (simp_all add: v' tables_in_pool_same [of v' v] phys_addr_def walk_context_def tables_def own_tables_def context_page_def)
      (simp add: tables_in_pool_def context_ok_def context_page_def)
  have "kernel_space L v' = kernel_space L v" "user_space L v' d = user_space L v d" "disjoint_frames v' d e = disjoint_frames v d e"
    for d e
    unfolding kernel_space_def user_space_def disjoint_frames_def same by (simp_all add: v')
  then show ?thesis using ok c same(4) unfolding spaces_ok_def by (simp add: v' active_def)
qed

lemma spaces_new:
  assumes L: "layout_ok L" and ok: "spaces_ok L v cs" and run: "CreateUsermodeContext L w v = Inr (ctx, v')"
  shows "spaces_ok L v' (ctx # cs)" "c \<in> set (kernel_context v # cs) \<Longrightarrow> phys_addr v' c a = phys_addr v c a"
    "c \<in> set (kernel_context v # cs) \<Longrightarrow> context_page v' c t \<longleftrightarrow> context_page v c t" "ctx \<notin> set cs"
proof -
  let ?k = "kernel_context v"
  note s = spaces_okD [OF ok]
  have kpool: "tables_in_pool L v ?k" and klow: "tables v ?k \<subseteq> {..<256}" using s(2) by (simp_all add: kernel_space_def)
  have kok: "context_ok v ?k" using kpool by (simp add: tables_in_pool_def)
  note e = usermode_context_effect [OF L kok run] and u = usermode_context_pool [OF L kpool run]
  have kc: "kernel_context v' = ?k" by (rule e(4))
  have cok: "context_ok v c" if "c \<in> set (?k # cs)" for c using spaces_tables [OF ok that] by (simp add: tables_in_pool_def)
  have f: "pagedir (mem v') c = pagedir (mem v) c"
      "\<And>i. i < 1024 \<Longrightarrow> table_at (mem v') (pagedir (mem v) c) i = table_at (mem v) (pagedir (mem v) c) i"
      "\<And>a. phys_addr v' c a = phys_addr v c a" "context_ok v' c" "\<And>t. context_page v' c t \<longleftrightarrow> context_page v c t"
    if c: "c \<in> set (?k # cs)" for c
  proof -
    have same: "\<forall>t b. context_page v c t \<and> same_page b t \<longrightarrow> mem v' b = mem v b"
      using e(17) context_page_used [OF cok [OF c]] page_used_same by blast
    have mono: "\<forall>b. page_used (pm v) b \<longrightarrow> page_used (pm v') b" using e(2) by blast
    note g = context_frame [OF cok [OF c] same mono]
    show "pagedir (mem v') c = pagedir (mem v) c" "context_ok v' c" "\<And>t. context_page v' c t \<longleftrightarrow> context_page v c t"
      "\<And>i. i < 1024 \<Longrightarrow> table_at (mem v') (pagedir (mem v) c) i = table_at (mem v) (pagedir (mem v) c) i"
      "\<And>a. phys_addr v' c a = phys_addr v c a"
      by (simp_all add: g phys_addr_def)
  qed
  show "c \<in> set (?k # cs) \<Longrightarrow> phys_addr v' c a = phys_addr v c a"
    "c \<in> set (?k # cs) \<Longrightarrow> context_page v' c t \<longleftrightarrow> context_page v c t" by (fact f(3), fact f(5))
  have new: "ctx \<notin> set (?k # cs)" using e(11) context_okD(5) [OF cok] by blast
  then show "ctx \<notin> set cs" by simp
  have pages: "page_used (pm v) t" if "context_page v c t" "c \<in> set (?k # cs)" for c t
    using context_page_used [OF cok [OF that(2)] that(1)] .
  have none: "table_at (mem v') (pagedir (mem v') ctx) i = None" if "256 \<le> i" "i < 1024" for i
  proof -
    have "i \<notin> tables v' ?k" using that klow u(8) by auto
    then show ?thesis using that u(9) by (simp add: tables_def)
  qed
  have unmapped: "phys_addr v' ctx a = None" if "user_address a" for a
    using none [OF user_index [OF that] index_bounds(1)] by (simp add: phys_addr_def walk_context_def mmu_walk_table)
  have kernel: "kernel_space L v'" using s(2) u(1,8) f(3) [of ?k] by (simp add: kernel_space_def kc)
  have user: "user_space L v' c" if "c \<in> set (ctx # cs)" for c
  proof (cases "c = ctx")
    case True
    then show ?thesis using u(2,9) unmapped by (auto simp: user_space_def kc)
  next
    case False
    then have c: "c \<in> set cs" using that by simp
    have "tables_in_pool L v' c" using spaces_tables [OF ok, of c] f(4,5) [of c] c by (simp add: tables_in_pool_def)
    moreover have "page_used (pm v) p \<longrightarrow> page_used (pm v') p" for p using e(2) by blast
    ultimately show ?thesis using s(3) [OF c] f(1,2,3) [of c] f(1,2) [of ?k] c by (auto simp: user_space_def kc)
  qed
  have own: "own_tables v' c d" if c: "c \<in> set (?k # ctx # cs)" and d: "d \<in> set (ctx # cs)" and ne: "c \<noteq> d" for c d
  proof (cases "d = ctx")
    case True
    then have c': "c \<in> set (?k # cs)" using c ne by auto
    have "\<not> context_page v' c (pagedir (mem v') ctx)" using f(5) [OF c'] pages [OF _ c'] e(3) by blast
    then show ?thesis using none True by (auto simp: own_tables_def)
  next
    case False
    then have d': "d \<in> set cs" "d \<in> set (?k # cs)" using d by auto
    have page: "\<not> context_page v' c t" if t: "context_page v d t" "\<And>c. c \<in> set (?k # cs) \<Longrightarrow> c \<noteq> d \<Longrightarrow> \<not> context_page v c t" for t
    proof (cases "c = ctx")
      case True
      have "page_used (pm v) t" by (rule pages [OF t(1) d'(2)])
      then have "t \<noteq> ctx" "t \<noteq> pagedir (mem v') ctx" using e(3,11) by auto
      moreover have "\<not> context_page v' ?k t" using t(2) [of ?k] f(5) [of ?k] s(1) d'(1) by auto
      ultimately show ?thesis using u(9) unfolding True context_page_def by auto
    next
      case False
      then have c': "c \<in> set (?k # cs)" using c by auto
      then show ?thesis using t(2) [OF c' ne] f(5) [OF c'] by blast
    qed
    have "\<not> context_page v' c (pagedir (mem v) d)"
      by (rule page) (use s(4) [OF _ d'(1)] in \<open>auto simp: context_page_def own_tables_def\<close>)
    moreover have "\<not> context_page v' c t" if t: "256 \<le> i" "i < 1024" "table_at (mem v) (pagedir (mem v) d) i = Some t" for i t
      by (rule page) (use s(4) [OF _ d'(1)] t in \<open>auto simp: context_page_def own_tables_def\<close>)
    ultimately show ?thesis using f(1,2) [OF d'(2)] by (auto simp: own_tables_def)
  qed
  have frames: "disjoint_frames v' c d" if "c \<in> set (ctx # cs)" "d \<in> set (ctx # cs)" "c \<noteq> d" for c d
    using that s(5) [of c d] unmapped f(3) [of c] f(3) [of d] by (auto simp: disjoint_frames_def)
  have act: "active v' (current_context v')" using s(6,7) u(4,5) f(1) by (simp add: active_def)
  have cur: "current_context v' \<in> set (?k # ctx # cs)" using s(6) u(5) by auto
  have "distinct (?k # ctx # cs)" using s(1) new by auto
  then show "spaces_ok L v' (ctx # cs)" unfolding spaces_ok_def kc
    using kernel user own frames act cur by blast
qed

text \<open>Writes outside the page pool: those of programs, and those of the kernel to its own memory.\<close>

lemma spaces_data:
  assumes L: "layout_ok L" and ok: "spaces_ok L v cs" and same: "\<forall>b. pool_address L b \<longrightarrow> m b = mem v b"
  shows "spaces_ok L (v\<lparr>mem := m\<rparr>) cs" "c \<in> set (kernel_context v # cs) \<Longrightarrow> phys_addr (v\<lparr>mem := m\<rparr>) c a = phys_addr v c a"
proof -
  let ?k = "kernel_context v" and ?v = "v\<lparr>mem := m\<rparr>"
  note s = spaces_okD [OF ok]
  have f: "tables_in_pool L ?v c" "pagedir m c = pagedir (mem v) c" "phys_addr ?v c a = phys_addr v c a"
      "context_page ?v c t \<longleftrightarrow> context_page v c t"
      "i < 1024 \<Longrightarrow> table_at m (pagedir (mem v) c) i = table_at (mem v) (pagedir (mem v) c) i"
    if "c \<in> set (?k # cs)" for c a t i
    using data_frame [OF L spaces_tables [OF ok that], of ?v] same by simp_all
  show "c \<in> set (?k # cs) \<Longrightarrow> phys_addr ?v c a = phys_addr v c a" by (rule f(3))
  have "kernel_space L ?v" using s(2) f [of ?k] by (auto simp: kernel_space_def tables_def)
  moreover have "user_space L ?v c" if "c \<in> set cs" for c
    using s(3) [OF that] f [of c] f [of ?k] that by (auto simp: user_space_def)
  moreover have "own_tables ?v c d" if "c \<in> set (?k # cs)" "d \<in> set cs" "c \<noteq> d" for c d
    using s(4) [OF that] f(4) [OF that(1)] f(2,5) [of d] that(2) by (auto simp: own_tables_def)
  moreover have "disjoint_frames ?v c d" if "c \<in> set cs" "d \<in> set cs" "c \<noteq> d" for c d
    using s(5) [OF that] f(3) [of c] f(3) [of d] that by (simp add: disjoint_frames_def)
  moreover have "active ?v (current_context ?v)" using s(6,7) f(2) by (simp add: active_def)
  ultimately show "spaces_ok L ?v cs" using s(1,6) unfolding spaces_ok_def by simp
qed

section \<open>Isolation\<close>

text \<open>
  What a process sees at its user addresses, and the steps. The first argument is the context a step is for.
  The steps are a new context; memory for one, as \<open>sbrk\<close> asks for it; a switch; a store of the program that
  runs to its user addresses; a store below them, of the kernel or of a program, in whatever context runs; a
  program loaded into a context that does not run; and a kill, which destroys the context of a process and
  switches to another one. Each is the code's operation on the running page tables, and left out is this,
  which neither the code nor, as the kernel's pages are mapped for user space, the processor prevents: stores
  to the page pool, where the page tables are, and to the page at \<open>HEAP_END\<close>, which \<open>InitVmm\<close> maps though the
  first frame for user space is there; \<open>sbrk\<close> of a process whose break has wrapped around to below the user
  addresses; images that are not well formed; and a kill that gives back a page of another context: of what
  \<open>destroy_context\<close> gives back, \<open>spares\<close> asks that it is no page table and no frame of those that stay.
\<close>

definition user_view :: "vmm \<Rightarrow> u32 \<Rightarrow> u32 \<Rightarrow> u8 option" where
  "user_view v c a = (if user_address a then map_option (mem v) (phys_addr v c a) else None)"

definition can_load :: "layout \<Rightarrow> kernel \<Rightarrow> memory \<Rightarrow> u32 \<Rightarrow> bool" where
  "can_load L s img addr \<longleftrightarrow> elf_ok img addr \<and> sees_image L (vm s) (current_context (vm s)) img addr
     \<and> (\<exists>e. heap_below L (heap s) e \<and> e + heap_need (segments img addr) \<le> unat (HEAP_END L))
     \<and> page_need (segments img addr) \<le> free_frames L (vm s) \<and> page_need (segments img addr) \<le> free_pool L (vm s)"

definition spares :: "vmm \<Rightarrow> vmm \<Rightarrow> u32 list \<Rightarrow> bool" where
  "spares v v' cs \<longleftrightarrow> (\<forall>d \<in> set (kernel_context v # cs).
     (\<forall>t. context_page v d t \<longrightarrow> page_used (pm v') t)
   \<and> (\<forall>a p. user_address a \<and> phys_addr v d a = Some p \<longrightarrow> page_used (pm v') p))"

inductive space_step :: "layout \<Rightarrow> u32 \<Rightarrow> vmm \<times> u32 list \<Rightarrow> vmm \<times> u32 list \<Rightarrow> bool" for L where
  create: "CreateUsermodeContext L w v = Inr (c, v') \<Longrightarrow> space_step L c (v, cs) (v', c # cs)"
| alloc: "c \<in> set cs \<Longrightarrow> user_address vaddr \<Longrightarrow> vmm_alloc L c vaddr n v = Inr v' \<Longrightarrow> space_step L c (v, cs) (v', cs)"
| switch: "c \<in> set (kernel_context v # cs) \<Longrightarrow> activate_memory_context c v = Inr v' \<Longrightarrow> space_step L c (v, cs) (v', cs)"
| store: "current_context v = c \<Longrightarrow> c \<in> set cs \<Longrightarrow> user_address a \<Longrightarrow> write8 a b v = Inr v' \<Longrightarrow>
    space_step L c (v, cs) (v', cs)"
| low: "a < HEAP_END L \<Longrightarrow> \<not> pool_address L a \<Longrightarrow> write8 a b v = Inr v' \<Longrightarrow> space_step L (kernel_context v) (v, cs) (v', cs)"
| load: "c \<in> set cs \<Longrightarrow> c \<noteq> current_context (vm s) \<Longrightarrow> can_load L s img addr \<Longrightarrow> ParseElf L addr c s = Inr (e, s') \<Longrightarrow>
    space_step L c (vm s, cs) (vm s', cs)"
| kill: "c \<in> set cs \<Longrightarrow> destroy_context L c v = Inr v1 \<Longrightarrow> spares v v1 (remove1 c cs) \<Longrightarrow>
    d \<in> set (kernel_context v # remove1 c cs) \<Longrightarrow> activate_memory_context d v1 = Inr v' \<Longrightarrow>
    space_step L c (v, cs) (v', remove1 c cs)"

inductive_cases space_stepE: "space_step L c (v, cs) (v', cs')"

lemmas space_step_cases [consumes 1, case_names create alloc switch store low load kill] = space_stepE

lemma user_view_same:
  assumes "\<And>a. phys_addr v' d a = phys_addr v d a"
    and "\<And>a p. user_address a \<Longrightarrow> phys_addr v d a = Some p \<Longrightarrow> mem v' p = mem v p"
  shows "user_view v' d = user_view v d"
  unfolding user_view_def fun_eq_iff assms(1) using assms(2) by (auto split: option.split intro: map_option_cong)

lemma high_address: "layout_ok L \<Longrightarrow> HEAP_END L \<le> p \<Longrightarrow> \<not> pool_address L p \<and> \<not> heap_address L p"
  using layout_unat [of L] by (auto simp: pool_address_def heap_address_def word_le_nat_alt word_less_nat_alt)

lemma grown_view:
  assumes L: "layout_ok L" and ok: "spaces_ok L v cs" and g: "grown L c v v'" and c: "c \<in> set cs" and d: "d \<in> set cs" "d \<noteq> c"
  shows "user_view v' d = user_view v d"
proof (rule user_view_same)
  have "unchanged v v' d" using grownD(5) [OF g spaces_apart [OF ok _ c d(2)]] d(1) by simp
  then show "phys_addr v' d a = phys_addr v d a" for a by (simp add: unchanged_def)
  show "mem v' p = mem v p" if a: "user_address a" "phys_addr v d a = Some p" for a p
  proof -
    have "HEAP_END L \<le> p" "page_used (pm v) p" using spaces_okD(3) [OF ok d(1)] a by (auto simp: user_space_def)
    then show ?thesis using grownD(8) [OF g] high_address [OF L] by blast
  qed
qed

lemma store_address:
  assumes "spaces_ok L v cs" "write8 a b v = Inr v'"
  obtains p where "phys_addr v (current_context v) a = Some p" "v' = v\<lparr>mem := (mem v)(p := b)\<rparr>"
    "current_context v \<in> set cs \<Longrightarrow> user_address a \<Longrightarrow> HEAP_END L \<le> p" "\<not> user_address a \<Longrightarrow> p = a"
proof -
  from assms(2) obtain p where p: "virt_to_phys v a = Inr p" "v' = v\<lparr>mem := (mem v)(p := b)\<rparr>"
    by (auto simp: write8_def bindE_Inr_iff)
  have phys: "phys_addr v (current_context v) a = Some p"
    using p(1) spaces_okD(7) [OF assms(1)]
    by (auto simp: virt_to_phys_def active_def phys_addr_def walk_context_def split: option.splits)
  have "HEAP_END L \<le> p" if "current_context v \<in> set cs" "user_address a"
    using spaces_okD(3) [OF assms(1) that(1)] that(2) phys by (auto simp: user_space_def)
  then show ?thesis using that [OF phys p(2)] spaces_low [OF assms(1) spaces_okD(6) [OF assms(1)] _ phys] by blast
qed

text \<open>\<open>vmm_alloc\<close> returns for ranges that do not end behind the last page only, or that wrap around and so are empty.\<close>

lemma vmm_alloc_range:
  assumes L: "layout_ok L" and ok: "context_ok v ctx" and a: "user_address vaddr" and run: "vmm_alloc L ctx vaddr n v = Inr v'"
  shows "v' = v \<or> user_range vaddr n"
proof (cases "vaddr < vaddr + n")
  case True
  have al: "page_aligned vaddr" using vmm_alloc_misaligned [OF True, of L ctx v] run by auto
  have "vaddr + n \<le> 0xFFFFF000"
  proof (rule ccontr)
    assume "\<not> vaddr + n \<le> 0xFFFFF000"
    then show False using vmm_alloc_outcome [OF L ok al, of n] run by auto
  qed
  then have "unat vaddr + unat n \<le> 0xFFFFF000"
    using True u32_unat_less [of n] by (simp add: word_le_nat_alt unat_plus_if' word_less_nat_alt split: if_splits)
  then show ?thesis using al a by (simp add: user_range_def)
next
  case False
  then show ?thesis using run by (simp add: vmm_alloc_def for_pages_def page_loop.simps [of _ vaddr])
qed

lemma destroy_keeps_memory: "destroy_context L c v = Inr v' \<Longrightarrow> v' = v\<lparr>pm := pm v'\<rparr>"
  by (auto simp: destroy_context_def bindE_Inr_iff Let_def)

lemma spaces_kill:
  assumes ok: "spaces_ok L v cs" and c: "c \<in> set cs" and run: "destroy_context L c v = Inr v1"
    and spare: "spares v v1 (remove1 c cs)" and d: "d \<in> set (kernel_context v # remove1 c cs)"
    and act: "activate_memory_context d v1 = Inr v'"
  shows "spaces_ok L v' (remove1 c cs)" "user_view v' e = user_view v e"
proof -
  note s = spaces_okD [OF ok]
  obtain p where v1: "v1 = v\<lparr>pm := p\<rparr>" using destroy_keeps_memory [OF run] by blast
  have v': "v' = v\<lparr>pm := p, cr3 := pagedir (mem v) d, current_context := d\<rparr>"
    using act by (auto simp: v1 activate_memory_context_def bindE_Inr_iff derefE_Inr_iff)
  have sub: "set (remove1 c cs) \<subseteq> set cs" by (rule set_remove1_subset)
  have same: "phys_addr v' x a = phys_addr v x a" "tables v' x = tables v x" "own_tables v' x y = own_tables v x y"
      "context_page v' x t \<longleftrightarrow> context_page v x t" for x y a t
    by (simp_all add: v' phys_addr_def walk_context_def tables_def own_tables_def context_page_def)
  show "user_view v' e = user_view v e" using same(1) [of e] by (simp add: user_view_def fun_eq_iff) (simp add: v')
  have used: "\<forall>t. context_page v x t \<longrightarrow> page_used p t" "\<forall>a q. user_address a \<and> phys_addr v x a = Some q \<longrightarrow> page_used p q"
    if "x \<in> set (kernel_context v # remove1 c cs)" for x
    using spare that unfolding spares_def v1 by (auto simp del: set_remove1_eq)
  have tabs: "tables_in_pool L v' x" if x: "x \<in> set (kernel_context v # remove1 c cs)" for x
  proof -
    have "tables_in_pool L v x" using spaces_tables [OF ok, of x] x sub by auto
    then have "context_ok v x" "\<forall>t. context_page v x t \<longrightarrow> in_pool L t" by (simp_all add: tables_in_pool_def)
    moreover have "context_ok v' x"
      using calculation(1) used(1) [OF x] by (auto simp: context_ok_def context_page_def Let_def v')
    ultimately show ?thesis using same(4) by (simp add: tables_in_pool_def)
  qed
  have "kernel_space L v'" using s(2) tabs [of "kernel_context v"] same(1,2)
    unfolding kernel_space_def by (simp add: v')
  moreover have "user_space L v' x" if x: "x \<in> set (remove1 c cs)" for x
    using s(3) [of x] x sub tabs [of x] used(2) [of x] same(1) unfolding user_space_def by (auto simp: v')
  moreover have "disjoint_frames v' x y" if "x \<in> set (remove1 c cs)" "y \<in> set (remove1 c cs)" "x \<noteq> y" for x y
    using s(5) [of x y] that sub same(1) by (auto simp: disjoint_frames_def)
  moreover have "own_tables v' x y" if "x \<in> set (kernel_context v # remove1 c cs)" "y \<in> set (remove1 c cs)" "x \<noteq> y" for x y
    using s(4) [of x y] that sub same(3) by auto
  moreover have "distinct (kernel_context v # remove1 c cs)" using s(1) sub by auto
  ultimately show "spaces_ok L v' (remove1 c cs)" using d unfolding spaces_ok_def by (simp add: v' active_def)
qed

lemma load_grown:
  assumes L: "layout_ok L" and ok: "spaces_ok L (vm s) cs" and c: "c \<in> set cs" "c \<noteq> current_context (vm s)"
    and img: "can_load L s img addr" and run: "ParseElf L addr c s = Inr (e, s')"
  shows "grown L c (vm s) (vm s')"
proof -
  have "loader_ok L (vm s) (current_context (vm s)) c" using spaces_loader_ok [OF L ok c(1)] c(2) by simp
  moreover obtain top where "elf_ok img addr" "sees_image L (vm s) (current_context (vm s)) img addr"
      "heap_below L (heap s) top" "top + heap_need (segments img addr) \<le> unat (HEAP_END L)"
      "page_need (segments img addr) \<le> free_frames L (vm s)" "page_need (segments img addr) \<le> free_pool L (vm s)"
    using img by (auto simp: can_load_def)
  ultimately obtain v' h' where "ParseElf L addr c s = Inr (h_entry (header_at img addr), s\<lparr>vm := v', heap := h'\<rparr>)"
      "segments_loaded L img addr (segments img addr) c (vm s) v'"
    using ParseElf_effect [OF L] by metis
  then show ?thesis using run by (simp add: segments_loaded_def)
qed

lemma space_step_ok:
  assumes L: "layout_ok L" and ok: "spaces_ok L v cs" and step: "space_step L c (v, cs) (v', cs')"
  shows "spaces_ok L v' cs' \<and> set cs - {c} \<subseteq> set cs' \<and> (\<forall>d \<in> set cs. d \<noteq> c \<longrightarrow> user_view v' d = user_view v d)"
  using step
proof (cases rule: space_step_cases)
  case (create w)
  note n = spaces_new [OF L ok create(2)]
  have "user_view v' d = user_view v d" if d: "d \<in> set cs" for d
  proof (rule user_view_same)
    show "phys_addr v' d a = phys_addr v d a" for a using n(2) d by simp
    have kpool: "context_ok v (kernel_context v)" using spaces_tables [OF ok, of "kernel_context v"] by (simp add: tables_in_pool_def)
    show "mem v' p = mem v p" if "user_address a" "phys_addr v d a = Some p" for a p
      using spaces_okD(3) [OF ok d] that usermode_context_effect(17) [OF L kpool create(2)] by (auto simp: user_space_def)
  qed
  then show ?thesis using n(1) create(1) by auto
next
  case (alloc vaddr n)
  have pool: "tables_in_pool L v c" using spaces_tables [OF ok] alloc(2) by simp
  then have "v' = v \<or> user_range vaddr n"
    using vmm_alloc_range [OF L _ alloc(3,4)] by (simp add: tables_in_pool_def)
  then show ?thesis
  proof
    assume r: "user_range vaddr n"
    have "grown L c v v'" by (rule vmm_alloc_grown [OF L pool r alloc(4)])
    then show ?thesis using spaces_grown [OF L ok alloc(2)] grown_view [OF L ok _ alloc(2)] alloc(1) by simp
  qed (use ok alloc(1) in auto)
next
  case switch
  have "user_view v' d = user_view v d" for d
    using switch(3) by (auto simp: activate_memory_context_def bindE_Inr_iff derefE_Inr_iff user_view_def phys_addr_def walk_context_def)
  then show ?thesis using spaces_switch [OF ok _ switch(3)] switch(1,2) by auto
next
  case (store a b)
  obtain p where p: "phys_addr v c a = Some p" "HEAP_END L \<le> p" "v' = v\<lparr>mem := (mem v)(p := b)\<rparr>"
    using store_address [OF ok store(5)] store(2,3,4) by metis
  have pool: "\<forall>x. pool_address L x \<longrightarrow> ((mem v)(p := b)) x = mem v x" using high_address [OF L p(2)] by auto
  note d = spaces_data [OF L ok pool, folded p(3)]
  have "user_view v' e = user_view v e" if e: "e \<in> set cs" "e \<noteq> c" for e
  proof (rule user_view_same)
    show "phys_addr v' e x = phys_addr v e x" for x using d(2) e(1) by simp
    show "mem v' q = mem v q" if "user_address x" "phys_addr v e x = Some q" for x q
      using spaces_okD(5) [OF ok store(3) e(1)] that p store(4) e(2) by (auto simp: disjoint_frames_def)
  qed
  then show ?thesis using d(1) store(1) by auto
next
  case (low a b)
  have "\<not> user_address a" using low(3) init_ranges(10) [OF L] by (simp add: word_le_nat_alt word_less_nat_alt)
  then have v': "v' = v\<lparr>mem := (mem v)(a := b)\<rparr>" using store_address [OF ok low(5)] by metis
  have pool: "\<forall>x. pool_address L x \<longrightarrow> ((mem v)(a := b)) x = mem v x" using low(4) by auto
  note d = spaces_data [OF L ok pool, folded v']
  have "user_view v' e = user_view v e" if e: "e \<in> set cs" for e
  proof (rule user_view_same)
    show "phys_addr v' e x = phys_addr v e x" for x using d(2) e by simp
    show "mem v' q = mem v q" if "user_address x" "phys_addr v e x = Some q" for x q
    proof -
      have "HEAP_END L \<le> q" using spaces_okD(3) [OF ok e] that by (auto simp: user_space_def)
      then show ?thesis using low(3) v' by auto
    qed
  qed
  then show ?thesis using d(1) low(1,2) by auto
next
  case (load s img addr e s')
  have "grown L c v v'" using load_grown [OF L _ load(2,3,4,5)] ok load by simp
  then show ?thesis using spaces_grown [OF L ok] grown_view [OF L ok] load by auto
next
  case (kill v1 d)
  have "d \<in> set (kernel_context v # remove1 c cs)" using kill(5) by auto
  note k = spaces_kill [OF ok kill(2-4) this kill(6)]
  have "set cs - {c} \<subseteq> set cs'" using kill(1) spaces_okD(1) [OF ok] by auto
  then show ?thesis using k kill(1) by simp
qed

lemma space_steps_others:
  assumes L: "layout_ok L" and ok: "spaces_ok L v cs"
    and steps: "(\<lambda>x y. \<exists>c. P c \<and> space_step L c x y)\<^sup>*\<^sup>* (v, cs) (v', cs')"
  shows "spaces_ok L v' cs' \<and> (\<forall>d \<in> set cs. \<not> P d \<longrightarrow> d \<in> set cs' \<and> user_view v' d = user_view v d)"
  using steps
proof (induction rule: rtranclp_induct2)
  case (step v1 cs1 v2 cs2)
  then obtain c where c: "P c" "space_step L c (v1, cs1) (v2, cs2)" by blast
  have IH: "spaces_ok L v1 cs1" "\<And>d. d \<in> set cs \<Longrightarrow> \<not> P d \<Longrightarrow> d \<in> set cs1 \<and> user_view v1 d = user_view v d"
    using step.IH by blast+
  note s = space_step_ok [OF L IH(1) c(2)]
  have "d \<in> set cs2 \<and> user_view v2 d = user_view v d" if d: "d \<in> set cs" "\<not> P d" for d
  proof -
    have "d \<noteq> c" using d(2) c(1) by auto
    then show ?thesis using s IH(2) [OF d] by auto
  qed
  then show ?case using s by blast
qed (use ok in simp)

text \<open>
  C28: From \<open>InitVmm\<close> on the address spaces keep their shape, whatever steps of \<open>space_step\<close> follow in whatever
  order, kills that spare the other contexts' pages among them: the kernel's context maps the heap to itself,
  maps nothing else but to itself and has no tables for user space; every process's context shares
  the kernel's tables and has the tables of its user space to itself; its user addresses are mapped to
  frames above the heap that are in use and that no other process's user addresses are mapped to; and the
  processor's page directory is that of the current context.
\<close>

theorem address_spaces_well_formed:
  assumes "layout_ok L" "kernel_end L < 0x3EA00000" "InitVmm L v0 = Inr v"
    and "(\<lambda>x y. \<exists>c. space_step L c x y)\<^sup>*\<^sup>* (v, []) (v', cs)"
  shows "spaces_ok L v' cs"
  using space_steps_others [OF assms(1) spaces_init [OF assms(1-3)], of "\<lambda>_. True"] assms(4) by simp

text \<open>
  C10: Isolation. However many contexts are made, given memory, loaded, activated and destroyed, and whatever
  programs store at their user addresses and anyone at addresses below \<open>HEAP_END\<close> outside the page pool
  meanwhile: as long as no step is for the context of process \<open>d\<close>, its context stays, and so do the bytes at its
  user addresses and which of them are mapped. The steps ask for what neither the code nor the processor
  enforces: no stores to the page pool or the page at \<open>HEAP_END\<close>, no \<open>sbrk\<close> with a break below the user
  addresses, only well-formed images, and kills for which \<open>destroy_context\<close> gives back no page of another
  context.
\<close>

theorem memory_isolation:
  assumes "layout_ok L" "spaces_ok L v cs" "d \<in> set cs"
    and "(\<lambda>x y. \<exists>c. c \<noteq> d \<and> space_step L c x y)\<^sup>*\<^sup>* (v, cs) (v', cs')"
  shows "d \<in> set cs' \<and> user_view v' d = user_view v d"
  using space_steps_others [OF assms(1,2,4)] assms(3) by auto

section \<open>Booting\<close>

lemma CreateKernelProcess_spaces:
  assumes L: "layout_ok L" and ok: "spaces_ok L (vm s) cs" and run: "CreateKernelProcess L e s = Inr (p, s')"
  obtains ctx where "spaces_ok L (vm s') (ctx # cs)" "p_context (proc_at s' p) = ctx"
proof -
  from run obtain ctx v where "CreateUsermodeContext L 1 (vm s) = Inr (ctx, v)" "vm s' = v" "p_context (proc_at s' p) = ctx"
    by (rule CreateKernelProcess_run) simp
  then show ?thesis using spaces_new(1) [OF L ok] that by blast
qed

text \<open>
  The three processes that the kernel has after booting have well-formed address spaces, so that all steps
  after it keep them so.
\<close>

theorem boot_spaces:
  assumes L: "layout_ok L" and small: "kernel_end L < 0x3EA00000" and run: "start_kernel L env k = Inr k'"
  shows "\<exists>cs. length cs = 3 \<and> spaces_ok L (vm k') cs"
proof -
  from run obtain p v where v: "InitVmm L ((vm k)\<lparr>pm := p\<rparr>) = Inr v"
      and "InitMultitasking L (e_kernel_proc env) (e_idle env) (e_ramdisk_proc env) (k\<lparr>vm := v, heap := kinit_heap L (heap k)\<rparr>) = Inr k'"
    by (auto simp: start_kernel_def bindE_Inr_iff)
  then obtain p0 s1 p1 s2 p2 s3 where
    c: "CreateKernelProcess L (e_kernel_proc env) (k\<lparr>vm := v, heap := kinit_heap L (heap k)\<rparr>) = Inr (p0, s1)"
      "CreateKernelProcess L (e_idle env) s1 = Inr (p1, s2)"
      "CreateKernelProcess L (e_ramdisk_proc env) (s2\<lparr>idle_process := p1\<rparr>) = Inr (p2, s3)"
    and k': "vm k' = vm s3"
    by (auto simp: InitMultitasking_def bindE_Inr_iff upd_proc_def)
  have s0: "spaces_ok L (vm (k\<lparr>vm := v, heap := kinit_heap L (heap k)\<rparr>)) []" using spaces_init [OF L small v] by simp
  obtain c0 where "spaces_ok L (vm s1) [c0]" by (rule CreateKernelProcess_spaces [OF L s0 c(1)])
  then obtain c1 where "spaces_ok L (vm s2) [c1, c0]" by (rule CreateKernelProcess_spaces [OF L _ c(2)])
  then have "spaces_ok L (vm (s2\<lparr>idle_process := p1\<rparr>)) [c1, c0]" by simp
  then obtain c2 where "spaces_ok L (vm s3) [c2, c1, c0]" by (rule CreateKernelProcess_spaces [OF L _ c(3)])
  then show ?thesis using k' by (intro exI [of _ "[c2, c1, c0]"]) simp
qed

section \<open>Witnesses\<close>

lemma example_range: "user_range 0x80000000 0x1000" "page_count 0x80000000 0x80001000 = 1"
  by (simp_all add: user_range_def page_count_def)

lemma example_space:
  assumes ok: "spaces_ok example_layout v cs" and room: "3 \<le> free_pool example_layout v" "1 \<le> free_frames example_layout v"
    and k: "current_context v = kernel_context v"
  obtains c v1 v2 p where "CreateUsermodeContext example_layout 0 v = Inr (c, v1)" "vmm_alloc example_layout c 0x80000000 0x1000 v1 = Inr v2"
    "spaces_ok example_layout v2 (c # cs)" "phys_addr v2 c 0x80000000 = Some p" "current_context v2 = kernel_context v2"
    "free_pool example_layout v \<le> free_pool example_layout v2 + 3" "free_frames example_layout v \<le> free_frames example_layout v2 + 1"
proof -
  let ?L = example_layout
  note L = example_layout_ok
  have kpool: "tables_in_pool ?L v (kernel_context v)" using spaces_tables [OF ok] by simp
  then have "kernel_context v \<noteq> 0" using context_okD(2) by (auto simp: tables_in_pool_def)
  then obtain c v1 where new: "CreateUsermodeContext ?L 0 v = Inr (c, v1)" "free_pool ?L v1 = free_pool ?L v - 2"
    using usermode_context_succeeds [OF L, of v 0] room by auto
  note u = usermode_context_pool [OF L kpool new(1)] and s = spaces_new(1) [OF L ok new(1)]
  have c: "current_context v1 = kernel_context v1" using u(5,11) k by simp
  then have ne: "current_context v1 \<noteq> c" using spaces_okD(1) [OF s] by auto
  have r: "1 \<le> free_frames ?L v1" "1 \<le> free_pool ?L v1"
    using pool_only_frames [OF L u(3)] room new(2) by simp_all
  obtain v2 dp where al: "vmm_alloc ?L c 0x80000000 0x1000 v1 = Inr v2" "backed ?L (current_context v1) c 0x80000000 0x1000 dp v1 v2"
    using segment_alloc [OF L spaces_loader_ok [OF L s _ ne] example_range(1)] r example_range(2) by auto
  have g: "grown ?L c v1 v2" by (rule vmm_alloc_grown [OF L u(2) example_range(1) al(1)])
  have at: "phys_addr v2 c 0x80000000 = Some (dp 0)"
  proof -
    have "phys_addr v2 c (0x80000000 + of_nat 0) = Some (dp 0)"
      using al(2) unfolding backed_def by (elim conjE allE [of _ 0]) simp
    then show ?thesis by simp
  qed
  show ?thesis
  proof (rule that [OF new(1) al(1) spaces_grown [OF L s _ g] at])
    show "current_context v2 = kernel_context v2" using grownD(10,11) [OF g] c by simp
    show "free_pool ?L v \<le> free_pool ?L v2 + 3" "free_frames ?L v \<le> free_frames ?L v2 + 1"
    proof -
      have "free_frames ?L v1 \<le> free_frames ?L v2 + 1" "free_pool ?L v1 \<le> free_pool ?L v2 + 1"
        using al(2) example_range(2) by (simp_all add: backed_def)
      then show "free_pool ?L v \<le> free_pool ?L v2 + 3" "free_frames ?L v \<le> free_frames ?L v2 + 1"
        using new(2) pool_only_frames [OF L u(3)] by linarith+
    qed
  qed simp
qed

lemma example_spaces:
  obtains v c v1 v2 p where "InitVmm example_layout loader_vmm = Inr v" "spaces_ok example_layout v []"
    "CreateUsermodeContext example_layout 0 v = Inr (c, v1)" "vmm_alloc example_layout c 0x80000000 0x1000 v1 = Inr v2"
    "spaces_ok example_layout v2 [c]" "phys_addr v2 c 0x80000000 = Some p" "current_context v2 = kernel_context v2"
    "3 \<le> free_pool example_layout v2" "1 \<le> free_frames example_layout v2"
proof -
  obtain v where v: "InitVmm example_layout loader_vmm = Inr v" "221 \<le> free_pool example_layout v"
      "current_context v = kernel_context v" "pool_only example_layout loader_vmm v"
    by (rule example_started)
  have s: "spaces_ok example_layout v []" by (rule spaces_init [OF example_layout_ok _ v(1)]) simp
  have room: "3 \<le> free_pool example_layout v" "1 \<le> free_frames example_layout v" using v(2) example_frames [OF v(4)] by simp_all
  show ?thesis
  proof (rule example_space [OF s room v(3)])
    fix c v1 v2 p
    assume a: "CreateUsermodeContext example_layout 0 v = Inr (c, v1)" "vmm_alloc example_layout c 0x80000000 0x1000 v1 = Inr v2"
      "spaces_ok example_layout v2 [c]" "phys_addr v2 c 0x80000000 = Some p" "current_context v2 = kernel_context v2"
      and f: "free_pool example_layout v \<le> free_pool example_layout v2 + 3" "free_frames example_layout v \<le> free_frames example_layout v2 + 1"
    show ?thesis by (rule that [OF v(1) s a]) (use f v(2) example_frames [OF v(4)] in simp_all)
  qed
qed

text \<open>A context that is made and destroyed at once, the current one staying.\<close>

lemma create_and_kill:
  assumes L: "layout_ok L" and ok: "spaces_ok L v cs" and run: "CreateUsermodeContext L w v = Inr (c, v1)"
  obtains v2 where "space_step L c (v, cs) (v1, c # cs)" "space_step L c (v1, c # cs) (v2, cs)"
    "\<forall>b. page_used (pm v2) b \<longleftrightarrow> page_used (pm v) b" "current_context v2 = current_context v" "kernel_context v2 = kernel_context v"
proof -
  note n = spaces_new [OF L ok run] and s = spaces_okD [OF ok]
  have k: "context_ok v (kernel_context v)" using spaces_tables [OF ok] by (simp add: tables_in_pool_def)
  note e = usermode_context_effect [OF L k run] and u = usermode_context_pool [OF L _ run]
  obtain v' where v': "destroy_context L c v1 = Inr v'" "\<forall>b. page_used (pm v') b \<longleftrightarrow> page_used (pm v) b"
    using usermode_context_roundtrip [OF L k run] by blast
  have kc: "kernel_context v1 = kernel_context v" "current_context v1 = current_context v"
    using e(4) u(5) spaces_tables [OF ok, of "kernel_context v"] by simp_all
  have cur: "current_context v \<noteq> 0"
    using spaces_tables [OF ok s(6)] context_okD(2) by (auto simp: tables_in_pool_def)
  have frames: "page_used (pm v) p" if "x \<in> set (kernel_context v # cs)" "user_address a" "phys_addr v x a = Some p" for x a p
  proof (cases "x = kernel_context v")
    case True
    then have "pd_index a \<in> tables v x"
      using that(3) index_bounds(1) [of a] by (auto simp: phys_addr_def walk_context_def mmu_walk_table tables_def split: option.splits)
    then show ?thesis using s(2) user_index [OF that(2)] True by (auto simp: kernel_space_def)
  next
    case False
    then show ?thesis using s(3) [of x] that by (auto simp: user_space_def)
  qed
  have pages: "page_used (pm v) t" if "x \<in> set (kernel_context v # cs)" "context_page v x t" for x t
    using context_page_used [OF _ that(2)] spaces_tables [OF ok that(1)] by (simp add: tables_in_pool_def)
  have "spares v1 v' cs"
    unfolding spares_def kc v'(2) [rule_format]
  proof (intro ballI conjI allI impI)
    fix x assume x: "x \<in> set (kernel_context v # cs)"
    show "page_used (pm v) t" if "context_page v1 x t" for t using pages [OF x] n(3) [OF x] that by simp
    show "page_used (pm v) p" if "user_address a \<and> phys_addr v1 x a = Some p" for a p
      by (rule frames [OF x conjunct1 [OF that]]) (use n(2) [OF x] that in simp)
  qed
  moreover define v2 where "v2 = v'\<lparr>cr3 := pagedir (mem v') (current_context v), current_context := current_context v\<rparr>"
  have "activate_memory_context (current_context v) v' = Inr v2"
    using cur by (simp add: activate_memory_context_def derefE_nonzero v2_def)
  ultimately have step: "space_step L c (v1, c # cs) (v2, cs)"
    using space_step.kill [of c "c # cs" L v1 v' "current_context v" v2] v'(1) s(6) kc by simp
  obtain q where q: "v' = v1\<lparr>pm := q\<rparr>" using destroy_keeps_memory [OF v'(1)] by blast
  show ?thesis
    by (rule that [OF space_step.create [OF run] step]) (use v'(2) kc in \<open>simp_all add: v2_def q\<close>)
qed

theorem address_spaces_well_formed_witness:
  "\<exists>v c v'. InitVmm example_layout loader_vmm = Inr v \<and> current_context v' = kernel_context v' \<and> spaces_ok example_layout v' [c]"
proof -
  obtain v c v1 v2 where e: "InitVmm example_layout loader_vmm = Inr v"
    "CreateUsermodeContext example_layout 0 v = Inr (c, v1)" "vmm_alloc example_layout c 0x80000000 0x1000 v1 = Inr v2"
    "current_context v2 = kernel_context v2"
    by (rule example_spaces)
  let ?S = "\<lambda>x y. \<exists>c. space_step example_layout c x y"
  have "space_step example_layout c (v, []) (v1, [c])" by (rule space_step.create [OF e(2)])
  then have 1: "?S\<^sup>*\<^sup>* (v, []) (v1, [c])" by blast
  have "space_step example_layout c (v1, [c]) (v2, [c])" by (rule space_step.alloc [OF _ _ e(3)]) simp_all
  then have "?S\<^sup>*\<^sup>* (v1, [c]) (v2, [c])" by blast
  with 1 have "?S\<^sup>*\<^sup>* (v, []) (v2, [c])" by (rule rtranclp_trans)
  from address_spaces_well_formed [OF example_layout_ok _ e(1) this] e(1,4) show ?thesis by auto
qed

text \<open>
  A process with a page, and a second one that is made and killed; then a third one gets a page at the same
  address, is activated and stores to its page. The first one sees what it saw.
\<close>

theorem memory_isolation_witness:
  "\<exists>v v' c d e. current_context v' = c \<and> c \<noteq> d \<and> user_view v' d 0x80000000 \<noteq> None
     \<and> user_view v' d 0x80000000 = user_view v d 0x80000000 \<and> user_view v' c 0x80000000 = Some 7
     \<and> (\<exists>v1 v2. CreateUsermodeContext example_layout 0 v = Inr (e, v1) \<and> space_step example_layout e (v1, [e, d]) (v2, [d]))"
proof -
  let ?L = example_layout
  note L = example_layout_ok
  obtain u d p where u: "spaces_ok ?L u [d]" "phys_addr u d 0x80000000 = Some p"
      "current_context u = kernel_context u" "3 \<le> free_pool ?L u" "1 \<le> free_frames ?L u"
    by (rule example_spaces)
  have "kernel_context u \<noteq> 0" using spaces_tables [OF u(1), of "kernel_context u"] context_okD(2) by (auto simp: tables_in_pool_def)
  then obtain e u1 where new: "CreateUsermodeContext ?L 0 u = Inr (e, u1)"
    using usermode_context_succeeds [OF L, of u 0] u(4) by auto
  obtain v where kill: "space_step ?L e (u, [d]) (u1, [e, d])" "space_step ?L e (u1, [e, d]) (v, [d])"
      "\<forall>b. page_used (pm v) b \<longleftrightarrow> page_used (pm u) b" "current_context v = current_context u" "kernel_context v = kernel_context u"
    by (rule create_and_kill [OF L u(1) new])
  have v: "spaces_ok ?L v [d]" "current_context v = kernel_context v" "3 \<le> free_pool ?L v" "1 \<le> free_frames ?L v"
    using space_step_ok [OF L conjunct1 [OF space_step_ok [OF L u(1) kill(1)]] kill(2)] kill(3-5) u(3-5)
    by (simp_all add: free_pool_def free_frames_def)
  obtain c v1 v2 q where c: "CreateUsermodeContext ?L 0 v = Inr (c, v1)" "vmm_alloc ?L c 0x80000000 0x1000 v1 = Inr v2"
      "spaces_ok ?L v2 [c, d]" "phys_addr v2 c 0x80000000 = Some q"
    by (rule example_space [OF v(1,3,4,2)])
  have "c \<noteq> d" "c \<noteq> 0" using spaces_okD(1) [OF c(3)] spaces_tables [OF c(3), of c] context_okD(2)
    by (auto simp: tables_in_pool_def)
  define v3 where "v3 = v2\<lparr>cr3 := pagedir (mem v2) c, current_context := c\<rparr>"
  define v4 where "v4 = v3\<lparr>mem := (mem v3)(q := 7)\<rparr>"
  have run3: "activate_memory_context c v2 = Inr v3" using \<open>c \<noteq> 0\<close> by (simp add: activate_memory_context_def derefE_nonzero v3_def)
  have at: "phys_addr v3 c 0x80000000 = Some q" using c(4) by (simp add: v3_def phys_addr_def walk_context_def)
  have run4: "write8 0x80000000 7 v3 = Inr v4"
    using virt_to_phys_active [OF _ at] by (simp add: write8_def v4_def active_def) (simp add: v3_def)
  have s3: "spaces_ok ?L v3 [c, d]" by (rule spaces_switch [OF c(3) _ run3]) simp
  let ?S = "\<lambda>x y. \<exists>c. c \<noteq> d \<and> space_step ?L c x y"
  have "e \<noteq> d" using spaces_new(4) [OF L u(1) new] by simp
  then have "?S\<^sup>*\<^sup>* (u, [d]) (u1, [e, d])" "?S\<^sup>*\<^sup>* (u1, [e, d]) (v, [d])" using kill(1,2) by blast+
  moreover have "space_step ?L c (v, [d]) (v1, [c, d])" "space_step ?L c (v1, [c, d]) (v2, [c, d])"
    "space_step ?L c (v2, [c, d]) (v3, [c, d])" "space_step ?L c (v3, [c, d]) (v4, [c, d])"
    using space_step.create [OF c(1)] space_step.alloc [OF _ _ c(2)] space_step.switch [OF _ run3]
      space_step.store [OF _ _ _ run4] by (simp_all add: v3_def)
  then have "?S\<^sup>*\<^sup>* (v, [d]) (v1, [c, d])" "?S\<^sup>*\<^sup>* (v1, [c, d]) (v2, [c, d])" "?S\<^sup>*\<^sup>* (v2, [c, d]) (v3, [c, d])"
    "?S\<^sup>*\<^sup>* (v3, [c, d]) (v4, [c, d])" using \<open>c \<noteq> d\<close> by blast+
  ultimately have "?S\<^sup>*\<^sup>* (u, [d]) (v4, [c, d])" by (meson rtranclp_trans)
  from memory_isolation [OF L u(1) _ this] have "user_view v4 d = user_view u d" by simp
  moreover have "user_view u d 0x80000000 \<noteq> None" using u(2) by (simp add: user_view_def)
  moreover have "user_space ?L v2 c" using spaces_okD(3) [OF c(3), of c] by simp
  then have "HEAP_END ?L \<le> q" using c(4) unfolding user_space_def by (elim conjE allE [of _ "0x80000000"] allE [of _ q]) simp
  then have "\<forall>b. pool_address ?L b \<longrightarrow> ((mem v3)(q := 7)) b = mem v3 b" using high_address [OF L] by auto
  then have "phys_addr v4 c 0x80000000 = Some q" using spaces_data(2) [OF L s3] at by (simp add: v4_def)
  then have "user_view v4 c 0x80000000 = Some 7" by (simp add: user_view_def v4_def)
  moreover have "current_context v4 = c" by (simp add: v4_def v3_def)
  ultimately show ?thesis using \<open>c \<noteq> d\<close> new kill(2)
    by (intro exI [of _ u] exI [of _ v4] exI [of _ c] exI [of _ d] exI [of _ e]) auto
qed

end
