(* ===== verification/Launch.thy ===== *)
theory Launch
  imports Isolation
begin

text \<open>
  Launching a program, from the system call (\<open>Syscall\<close> of \<open>syscall.c\<close>) and at boot (\<open>driver.c\<close>): the parts that
  make a context, load the image (\<open>elf.c\<close>) and create the process (\<open>multitasking.c\<close>) together. The result is a
  runnable process whose address space holds the program and that starts at the program's entry point; one
  launch after the other makes as many, as the start of \<open>kernel_process\<close> (\<open>kernel-process.c\<close>) does.
\<close>

section \<open>The parts in sequence\<close>

lemma new_context_holds:
  assumes L: "layout_ok L" and ok: "spaces_ok L v cs" and run: "CreateUsermodeContext L w v = Inr (ctx, v')"
    and c: "c \<in> set (kernel_context v # cs)" and h: "holds L v c a b"
  shows "holds L v' c a b"
proof -
  have k: "context_ok v (kernel_context v)" using spaces_tables [OF ok, of "kernel_context v"] by (simp add: tables_in_pool_def)
  note e = usermode_context_effect(2,17) [OF L k run]
  show ?thesis using h spaces_new(2) [OF L ok run c] e by (auto simp: holds_def)
qed

text \<open>The three blocks of a user process.\<close>

lemma CreateUserProcess_succeeds:
  assumes L: "layout_ok L" and heap: "heap_below L (heap s) e" "e + 8292 \<le> unat (HEAP_END L)"
  shows "\<exists>p s'. CreateUserProcess L en ctx s = Inr (p, s') \<and> heap_below L (heap s') (e + 8292)"
proof -
  obtain stk h1 where 1: "kmalloc L 4096 (heap s) = Inr (stk, h1)" "heap_below L h1 (e + 4112)"
    using kmalloc_takes [OF L heap(1), of 4096 "e + 4112"] heap(2) by auto
  obtain ustk h2 where 2: "kmalloc L 4096 h1 = Inr (ustk, h2)" "heap_below L h2 (e + 8224)"
    using kmalloc_takes [OF L 1(2), of 4096 "e + 8224"] heap(2) by auto
  obtain p h3 where 3: "kmalloc L sizeof_process h2 = Inr (p, h3)" "heap_below L h3 (e + 8292)"
    using kmalloc_takes [OF L 2(2), of sizeof_process "e + 8292"] heap(2) by auto
  show ?thesis using 1(1) 2(1) 3 by (simp add: CreateUserProcess_def k_malloc_def Let_def upd_proc_def upd_cpu_def)
qed

text \<open>
  A process \<open>p\<close> that has been made for the image at \<open>addr\<close>: runnable, with the next PID and the context \<open>ctx\<close>,
  about to start in user mode at the image's entry point with its stack empty, and its memory holds the
  segments, zero-filled. All other processes are as they were.
\<close>

definition program_started :: "layout \<Rightarrow> memory \<Rightarrow> u32 \<Rightarrow> u32 \<Rightarrow> u32 \<Rightarrow> kernel \<Rightarrow> kernel \<Rightarrow> bool" where
  "program_started L img addr ctx p s s' \<longleftrightarrow>
     p_context (proc_at s' p) = ctx \<and> pid (proc_at s' p) = num_proc s \<and> status (proc_at s' p) = PROCESS_RUNNABLE
   \<and> (let c = cpu_at s' (p_state (proc_at s' p)) in
        eip c = h_entry (header_at img addr) \<and> esp c = user_stack (proc_at s' p) + 4096 \<and> r_cs c = 0x1B \<and> r_ss c = 0x23)
   \<and> (\<forall>ph \<in> set (segments img addr). \<forall>i < unat (ph_msize ph).
        user_view (vm s') ctx (ph_vaddr ph + of_nat i) = Some (segment_byte img addr ph i))
   \<and> (\<forall>q. q \<noteq> p \<longrightarrow> proc_at s' q = proc_at s q)"

text \<open>What launching needs: an image the current context sees, and room for it, its context and its process.\<close>

definition launch_room :: "layout \<Rightarrow> kernel \<Rightarrow> memory \<Rightarrow> u32 \<Rightarrow> nat \<Rightarrow> bool" where
  "launch_room L s img addr e \<longleftrightarrow> elf_ok img addr \<and> sees_image L (vm s) (current_context (vm s)) img addr
     \<and> heap_below L (heap s) e \<and> e + heap_need (segments img addr) + 8292 \<le> unat (HEAP_END L)
     \<and> page_need (segments img addr) \<le> free_frames L (vm s) \<and> page_need (segments img addr) + 2 \<le> free_pool L (vm s)"

definition can_launch :: "layout \<Rightarrow> kernel \<Rightarrow> memory \<Rightarrow> u32 \<Rightarrow> bool" where
  "can_launch L s img addr \<longleftrightarrow> (\<exists>e. launch_room L s img addr e)"

lemma holds_view: "holds L v c a b \<Longrightarrow> user_address a \<Longrightarrow> user_view v c a = Some b"
  by (auto simp: holds_def user_view_def)

text \<open>
  What is left after launching, for the next launch: the kernel's structures with the new process in front if
  its block held no old message queue, what the current context sees, and room.
\<close>

definition kept :: "layout \<Rightarrow> vmm \<Rightarrow> vmm \<Rightarrow> bool" where
  "kept L v v' \<longleftrightarrow> current_context v' = current_context v
     \<and> (\<forall>a b. holds L v (current_context v) a b \<longrightarrow> holds L v' (current_context v) a b)"

definition left_over :: "layout \<Rightarrow> memory \<Rightarrow> u32 \<Rightarrow> nat \<Rightarrow> u32 \<Rightarrow> kernel \<Rightarrow> kernel \<Rightarrow> bool" where
  "left_over L img addr e p s s' \<longleftrightarrow>
     (\<forall>ps Q. system_ok L s ps Q \<and> ml_first (messages (proc_at s p)) = 0 \<longrightarrow> system_ok L s' (p # ps) (Q(p := [])))
   \<and> num_proc s' = num_proc s + 1 \<and> current_process s' = current_process s
   \<and> kept L (vm s) (vm s')
   \<and> heap_below L (heap s') (e + heap_need (segments img addr) + 8292)
   \<and> free_frames L (vm s) \<le> free_frames L (vm s') + page_need (segments img addr)
   \<and> free_pool L (vm s) \<le> free_pool L (vm s') + page_need (segments img addr) + 2"

lemma start_program:
  assumes L: "layout_ok L" and spaces: "spaces_ok L (vm s) cs" and inv: "system_ok L s ps Q"
    and cur: "current_process s = 0 \<or> current_process s \<in> set ps" and wrap: "num_proc s \<noteq> -1" and can: "launch_room L s img addr e"
  obtains ctx v s1 p s2 where "CreateUsermodeContext L w (vm s) = Inr (ctx, v)"
    "ParseElf L addr ctx (s\<lparr>vm := v\<rparr>) = Inr (h_entry (header_at img addr), s1)"
    "CreateUserProcess L (h_entry (header_at img addr)) ctx s1 = Inr (p, s2)"
    "program_started L img addr ctx p s s2" "processes_ok L s2 (p # ps)" "spaces_ok L (vm s2) (ctx # cs)"
    "\<forall>d \<in> set cs. user_view (vm s2) d = user_view (vm s) d" "left_over L img addr e p s s2"
proof -
  note c = can [unfolded launch_room_def]
  then have e: "heap_below L (heap s) e" "e + heap_need (segments img addr) + 8292 \<le> unat (HEAP_END L)" by simp_all
  let ?k = "kernel_context (vm s)" and ?cur = "current_context (vm s)"
  have kpool: "tables_in_pool L (vm s) ?k" using spaces_tables [OF spaces] by simp
  then have kok: "context_ok (vm s) ?k" by (simp add: tables_in_pool_def)
  from kpool have k: "?k \<noteq> 0" using context_okD(2) by (auto simp: tables_in_pool_def)
  obtain ctx v where new: "CreateUsermodeContext L w (vm s) = Inr (ctx, v)" "free_pool L v = free_pool L (vm s) - 2"
    using usermode_context_succeeds [OF L _ k, of w] c by auto
  note u = usermode_context_pool [OF L kpool new(1)] and sp = spaces_new(1) [OF L spaces new(1)]
  have step1: "space_step L ctx (vm s, cs) (v, ctx # cs)" by (rule space_step.create [OF new(1)])
  have cc: "current_context v = ?cur" by (rule u(5))
  have "ctx \<notin> set (?k # cs)" using spaces_okD(1) [OF sp] u(11) by auto
  then have ne: "?cur \<noteq> ctx" using spaces_okD(6) [OF spaces] by auto
  have image: "sees_image L v ?cur img addr"
    using sees_image_mono [OF new_context_holds [OF L spaces new(1) spaces_okD(6) [OF spaces]]] c by blast
  have frames: "free_frames L v = free_frames L (vm s)" by (rule pool_only_frames [OF L u(3)])
  have load: "loader_ok L v ?cur ctx" using spaces_loader_ok [OF L sp] cc ne by simp
  let ?s = "s\<lparr>vm := v\<rparr>"
  have P: "loader_ok L (vm ?s) ?cur ctx" "elf_ok img addr" "sees_image L (vm ?s) ?cur img addr" "heap_below L (heap ?s) e"
    "e + heap_need (segments img addr) \<le> unat (HEAP_END L)"
    "page_need (segments img addr) \<le> free_frames L (vm ?s)" "page_need (segments img addr) \<le> free_pool L (vm ?s)"
    using load image e c frames new(2) by (simp_all add: le_diff_conv2)
  obtain v' h' where elf: "ParseElf L addr ctx ?s = Inr (h_entry (header_at img addr), s\<lparr>vm := v', heap := h'\<rparr>)"
    and loaded: "segments_loaded L img addr (segments img addr) ctx v v'"
    and kept: "heap_kept L (heap s) h' (e + heap_need (segments img addr))"
    by (rule ParseElf_effect [OF L P]) (use that in simp)
  define s1 where "s1 = s\<lparr>vm := v', heap := h'\<rparr>"
  have g: "grown L ctx v v'" using loaded by (simp add: segments_loaded_def)
  have sp': "spaces_ok L v' (ctx # cs)" by (rule spaces_grown [OF L sp _ g]) simp
  have below: "heap_below L (heap s1) (e + heap_need (segments img addr))" using kept by (simp add: heap_kept_def s1_def)
  obtain p s2 where create: "CreateUserProcess L (h_entry (header_at img addr)) ctx s1 = Inr (p, s2)"
    and below2: "heap_below L (heap s2) (e + heap_need (segments img addr) + 8292)"
    using CreateUserProcess_succeeds [OF L below] e(2) by blast
  have sys1: "system_ok L s1 ps Q" if "system_ok L s ps Q" for ps Q
    unfolding s1_def by (rule system_ok_heap [OF that]) (use kept heap_below_ok in \<open>auto simp: heap_kept_def\<close>)
  have "processes_ok L s1 ps" by (rule system_okD(1) [OF sys1 [OF inv]])
  moreover have "num_proc s1 \<noteq> -1" "current_process s1 = 0 \<or> current_process s1 \<in> set ps"
    using wrap cur by (simp_all add: s1_def)
  ultimately have eff: "processes_ok L s2 (p # ps)" "pid (proc_at s2 p) = num_proc s" "status (proc_at s2 p) = PROCESS_RUNNABLE"
    "p_context (proc_at s2 p) = ctx"
    "cpu_at s2 (p_state (proc_at s2 p)) = user_frame (h_entry (header_at img addr)) (user_stack (proc_at s2 p) + 4096)"
    "\<forall>q. q \<noteq> p \<longrightarrow> proc_at s2 q = proc_at s q"
    using CreateUserProcess_effect [OF _ _ _ create] by (simp_all add: s1_def)
  have vm2: "vm s2 = v'" using create by (auto elim!: CreateUserProcess_run simp: s1_def)
  have "user_view v' ctx (ph_vaddr ph + of_nat i) = Some (segment_byte img addr ph i)"
    if ph: "ph \<in> set (segments img addr)" and i: "i < unat (ph_msize ph)" for ph i
  proof (rule holds_view)
    show "holds L v' ctx (ph_vaddr ph + of_nat i) (segment_byte img addr ph i)"
      using loaded ph i by (simp add: segments_loaded_def)
    have r: "user_range (ph_vaddr ph) (ph_msize ph)" using c ph by (simp add: elf_ok_def segment_ok_def)
    show "user_address (ph_vaddr ph + of_nat i)"
      using user_range_byte(1) [OF r i] r by (simp add: user_range_def word_le_nat_alt)
  qed
  then have started: "program_started L img addr ctx p s s2" using eff by (simp add: program_started_def vm2 user_frame_def)
  have "user_view v' d = user_view (vm s) d" if d: "d \<in> set cs" for d
  proof -
    have "d \<noteq> ctx" using d \<open>ctx \<notin> set (?k # cs)\<close> by auto
    then show ?thesis
      using grown_view [OF L sp g, of d] space_step_ok [OF L spaces step1] d by simp
  qed
  then have others: "\<forall>d \<in> set cs. user_view (vm s2) d = user_view (vm s) d" by (simp add: vm2)
  have sees: "holds L v' ?cur a b" if "holds L (vm s) ?cur a b" for a b
    using holds_grown [OF g loader_ok_apart [OF load]] new_context_holds [OF L spaces new(1) spaces_okD(6) [OF spaces] that] by blast
  have "system_ok L s2 (p # ps) (Q(p := []))" if "system_ok L s ps Q" "ml_first (messages (proc_at s p)) = 0" for ps Q
    by (rule system_ok_CreateUserProcess [OF sys1 [OF that(1)] _ create]) (use wrap that(2) in \<open>simp_all add: s1_def\<close>)
  moreover have "num_proc s2 = num_proc s + 1 \<and> current_process s2 = current_process s"
    using create by (auto elim!: CreateUserProcess_run simp: s1_def)
  moreover have "free_frames L v \<le> free_frames L v' + page_need (segments img addr)" "free_pool L v \<le> free_pool L v' + page_need (segments img addr)"
    using loaded by (simp_all add: segments_loaded_def)
  then have "free_frames L (vm s) \<le> free_frames L v' + page_need (segments img addr)"
    "free_pool L (vm s) \<le> free_pool L v' + page_need (segments img addr) + 2" using frames new(2) by linarith+
  moreover have "kept L (vm s) v'" using grownD(10) [OF g] cc sees by (simp add: kept_def)
  ultimately have "left_over L img addr e p s s2" using below2 unfolding left_over_def vm2 by blast
  then show ?thesis
    by (intro that [OF new(1) elf [folded s1_def] create started eff(1) _ others]) (simp_all add: vm2 sp')
qed

section \<open>Launches that fail\<close>

text \<open>
  The system call makes the context before it looks at the image, and gives it back in no case. So every
  call without an image takes two pages of the pool; without two free pages the call stops the kernel.
\<close>

lemma create_context_fails:
  assumes L: "layout_ok L" and few: "free_pool L v < 2"
  shows "\<exists>msg. create_context L v = Inl (Assert_Failed msg)"
proof -
  obtain c p1 where c: "pool_alloc L (pm v) = Inr (c, p1)" using pool.alloc_total [OF L] by blast
  obtain d p2 where d: "pool_alloc L p1 = Inr (d, p2)" using pool.alloc_total [OF L] by blast
  have "d = 0" if c0: "c \<noteq> 0"
  proof (rule ccontr)
    assume d0: "d \<noteq> 0"
    note pages = pool.alloc_page [OF L c c0] pool.alloc_page [OF L d d0] and used = pool.alloc_used [OF L c c0]
    have "page_used p1 c" using used [of c] by simp
    then have "c \<noteq> d" using pages(2) by blast
    moreover have "\<not> page_used (pm v) d" using used [of d] pages(2) by blast
    then have "{c, d} \<subseteq> {a. in_pool L a \<and> \<not> page_used (pm v) a}" using pages by blast
    then have "card {c, d} \<le> free_pool L v" unfolding free_pool_def by (intro card_mono) auto
    ultimately show False using few by simp
  qed
  then show ?thesis using c d by (cases "c = 0") (simp_all add: create_context_def pool_alloc_def pagedir_def)
qed

definition launches :: "layout \<Rightarrow> u32 \<Rightarrow> nat \<Rightarrow> machine \<Rightarrow> kerror + machine" where
  "launches L frame n = foldE (\<lambda>_ m. bindE (Syscall L frame m) (\<lambda>(_, m'). Inr m')) [0..<n]"

lemma launches_Suc:
  "launches L frame (Suc n) m = bindE (launches L frame n m) (\<lambda>m1. bindE (Syscall L frame m1) (\<lambda>(_, m'). Inr m'))"
  by (simp add: launches_def foldE_append)

lemma launch_nothing:
  assumes "eax (cpu_at (kst m) frame) = 9" "ebx (cpu_at (kst m) frame) = 0"
  shows "Syscall L frame m = bindE (CreateUsermodeContext L 0 (vm (kst m))) (\<lambda>(_, v). Inr (frame, m\<lparr>kst := (kst m)\<lparr>vm := v\<rparr>\<rparr>))"
  using assms by (auto simp: Syscall_def sys_launch_def ParseElf_def Let_def split: sum.splits intro!: arg_cong [of _ _ "bindE _"])

lemma launches_leak:
  assumes L: "layout_ok L" and call: "eax (cpu_at (kst m) frame) = 9" "ebx (cpu_at (kst m) frame) = 0"
    and k: "kernel_context (vm (kst m)) \<noteq> 0" and n: "2 * n \<le> free_pool L (vm (kst m))"
  shows "\<exists>v. launches L frame n m = Inr (m\<lparr>kst := (kst m)\<lparr>vm := v\<rparr>\<rparr>) \<and> free_pool L v = free_pool L (vm (kst m)) - 2 * n
    \<and> kernel_context v = kernel_context (vm (kst m))"
  using n
proof (induction n)
  case 0
  then show ?case by (intro exI [of _ "vm (kst m)"]) (simp add: launches_def)
next
  case (Suc n)
  then obtain v where v: "launches L frame n m = Inr (m\<lparr>kst := (kst m)\<lparr>vm := v\<rparr>\<rparr>)"
      "free_pool L v = free_pool L (vm (kst m)) - 2 * n" "kernel_context v = kernel_context (vm (kst m))" by auto
  have "2 \<le> free_pool L v" using v(2) Suc.prems by simp
  then obtain ctx v' where "CreateUsermodeContext L 0 v = Inr (ctx, v')" "kernel_context v' = kernel_context v"
      "free_pool L v' = free_pool L v - 2"
    using usermode_context_succeeds [OF L, of v 0] v(3) k by auto
  then show ?case using v call by (intro exI [of _ v']) (simp add: launches_Suc launch_nothing)
qed

section \<open>Properties\<close>

text \<open>
  C6: Launching a program by system call. Where the current context sees a well-formed image at the address
  in EBX and there is room, the call returns to the caller and there is one process more, in front of the
  list: runnable, with the next PID and a new context of its own, about to start in user mode at the
  image's entry point; its memory holds the segments of the image, followed by zeros up to their sizes; no
  other process has changed, nor has what any of them sees at its user addresses; and the process list and
  all address spaces are well formed as before.
\<close>

theorem launch_starts_program:
  assumes "layout_ok L" "spaces_ok L (vm (kst m)) cs" "system_ok L (kst m) ps Q" "num_proc (kst m) \<noteq> -1"
    and "current_process (kst m) = 0 \<or> current_process (kst m) \<in> set ps"
    and "eax (cpu_at (kst m) frame) = 9" "can_launch L (kst m) img (ebx (cpu_at (kst m) frame))"
    and "h_entry (header_at img (ebx (cpu_at (kst m) frame))) \<noteq> 0"
  shows "\<exists>ctx p s'. Syscall L frame m = Inr (frame, m\<lparr>kst := s'\<rparr>)
    \<and> program_started L img (ebx (cpu_at (kst m) frame)) ctx p (kst m) s' \<and> processes_ok L s' (p # ps)
    \<and> spaces_ok L (vm s') (ctx # cs) \<and> (\<forall>d \<in> set cs. user_view (vm s') d = user_view (vm (kst m)) d)"
proof -
  obtain e where e: "launch_room L (kst m) img (ebx (cpu_at (kst m) frame)) e" using assms(7) by (auto simp: can_launch_def)
  obtain ctx v s1 p s2 where run: "CreateUsermodeContext L 0 (vm (kst m)) = Inr (ctx, v)"
      "ParseElf L (ebx (cpu_at (kst m) frame)) ctx ((kst m)\<lparr>vm := v\<rparr>) = Inr (h_entry (header_at img (ebx (cpu_at (kst m) frame))), s1)"
      "CreateUserProcess L (h_entry (header_at img (ebx (cpu_at (kst m) frame)))) ctx s1 = Inr (p, s2)"
    and s2: "program_started L img (ebx (cpu_at (kst m) frame)) ctx p (kst m) s2" "processes_ok L s2 (p # ps)"
      "spaces_ok L (vm s2) (ctx # cs)" "\<forall>d \<in> set cs. user_view (vm s2) d = user_view (vm (kst m)) d"
    by (rule start_program [OF assms(1-3,5,4) e, of 0])
  have "Syscall L frame m = Inr (frame, m\<lparr>kst := s2\<rparr>)"
    using run assms(6,8) by (simp add: Syscall_def sys_launch_def Let_def)
  with s2 show ?thesis by blast
qed

text \<open>
  Launching a program from the RAM disk at boot does the same, with no check that the file was found.
\<close>

theorem create_driver_process_starts:
  assumes "layout_ok L" "spaces_ok L (vm k) cs" "system_ok L k ps Q" "num_proc k \<noteq> -1"
    and "current_process k = 0 \<or> current_process k \<in> set ps"
    and "can_launch L k img (RamDiskFileContent (seen (vm k)) rd path)"
  shows "\<exists>ctx p k'. create_driver_process L rd path k = Inr k'
    \<and> program_started L img (RamDiskFileContent (seen (vm k)) rd path) ctx p k k' \<and> processes_ok L k' (p # ps)
    \<and> spaces_ok L (vm k') (ctx # cs) \<and> (\<forall>d \<in> set cs. user_view (vm k') d = user_view (vm k) d)"
proof -
  let ?a = "RamDiskFileContent (seen (vm k)) rd path"
  obtain e where e: "launch_room L k img ?a e" using assms(6) by (auto simp: can_launch_def)
  obtain ctx v s1 p s2 where run: "CreateUsermodeContext L 1 (vm k) = Inr (ctx, v)"
      "ParseElf L ?a ctx (k\<lparr>vm := v\<rparr>) = Inr (h_entry (header_at img ?a), s1)"
      "CreateUserProcess L (h_entry (header_at img ?a)) ctx s1 = Inr (p, s2)"
    and s2: "program_started L img ?a ctx p k s2" "processes_ok L s2 (p # ps)"
      "spaces_ok L (vm s2) (ctx # cs)" "\<forall>d \<in> set cs. user_view (vm s2) d = user_view (vm k) d"
    by (rule start_program [OF assms(1-3,5,4) e, of 1])
  have "create_driver_process L rd path k = Inr s2" using run by (simp add: create_driver_process_def)
  with s2 show ?thesis by blast
qed

text \<open>
  C34: A program that asks for a launch without an image, again and again, stops the kernel: each call
  succeeds, changes nothing but takes two pages of the page pool that are never given back, and the first
  call for which fewer than two are left runs into an assertion.
\<close>

theorem failed_launches_stop_kernel:
  assumes "layout_ok L" "eax (cpu_at (kst m) frame) = 9" "ebx (cpu_at (kst m) frame) = 0" "kernel_context (vm (kst m)) \<noteq> 0"
  shows "(\<forall>n \<le> free_pool L (vm (kst m)) div 2. \<exists>v. launches L frame n m = Inr (m\<lparr>kst := (kst m)\<lparr>vm := v\<rparr>\<rparr>)
      \<and> free_pool L v = free_pool L (vm (kst m)) - 2 * n)
    \<and> (\<exists>msg. launches L frame (Suc (free_pool L (vm (kst m)) div 2)) m = Inl (Assert_Failed msg))"
proof -
  let ?f = "free_pool L (vm (kst m))"
  note leak = launches_leak [OF assms]
  obtain v where v: "launches L frame (?f div 2) m = Inr (m\<lparr>kst := (kst m)\<lparr>vm := v\<rparr>\<rparr>)" "free_pool L v = ?f - 2 * (?f div 2)"
    using leak [of "?f div 2"] by auto
  have "free_pool L v < 2" using v(2) by presburger
  then obtain msg where "create_context L v = Inl (Assert_Failed msg)" using create_context_fails [OF assms(1)] by blast
  then have "\<exists>msg. launches L frame (Suc (?f div 2)) m = Inl (Assert_Failed msg)"
    using v(1) assms(2,3) by (simp add: launches_Suc launch_nothing CreateUsermodeContext_def)
  moreover have "\<exists>v. launches L frame n m = Inr (m\<lparr>kst := (kst m)\<lparr>vm := v\<rparr>\<rparr>) \<and> free_pool L v = ?f - 2 * n" if "n \<le> ?f div 2" for n
    using leak [of n] that by fastforce
  ultimately show ?thesis by blast
qed

section \<open>One program after the other\<close>

text \<open>
  The launch call for the images at the addresses \<open>as\<close>, in this order, by a process with its registers at
  \<open>frame\<close>: interrupt 0x30 with the call's number in EAX and its argument in EBX.
\<close>

definition with_call :: "u32 \<Rightarrow> u32 \<Rightarrow> u32 \<Rightarrow> machine \<Rightarrow> machine" where
  "with_call frame n a m = m\<lparr>kst := upd_cpu frame (\<lambda>c. c\<lparr>intr := 0x30, eax := n, ebx := a\<rparr>) (kst m)\<rparr>"

fun launch_all :: "layout \<Rightarrow> u32 \<Rightarrow> u32 list \<Rightarrow> machine \<Rightarrow> kerror + machine" where
  "launch_all L frame [] m = Inr m"
| "launch_all L frame (a # as) m = bindE (Syscall L frame (with_call frame 9 a m)) (\<lambda>(_, m'). launch_all L frame as m')"

text \<open>Room for all of them; blocks that are no processes hold no message queue.\<close>

definition room_for_all :: "layout \<Rightarrow> kernel \<Rightarrow> (memory \<times> u32) list \<Rightarrow> nat \<Rightarrow> bool" where
  "room_for_all L s xs e \<longleftrightarrow>
     (\<forall>(img, a) \<in> set xs. elf_ok img a \<and> sees_image L (vm s) (current_context (vm s)) img a \<and> h_entry (header_at img a) \<noteq> 0)
   \<and> heap_below L (heap s) e \<and> e + (\<Sum>(img, a) \<leftarrow> xs. heap_need (segments img a) + 8292) \<le> unat (HEAP_END L)
   \<and> (\<Sum>(img, a) \<leftarrow> xs. page_need (segments img a)) \<le> free_frames L (vm s)
   \<and> (\<Sum>(img, a) \<leftarrow> xs. page_need (segments img a) + 2) \<le> free_pool L (vm s)"

definition unused_clean :: "kernel \<Rightarrow> u32 list \<Rightarrow> bool" where
  "unused_clean s ps \<longleftrightarrow> (\<forall>a. a \<notin> set ps \<longrightarrow> ml_first (messages (proc_at s a)) = 0)"

text \<open>The programs \<open>xs\<close> run as the processes \<open>qs\<close> in the contexts \<open>ctxs\<close>.\<close>

definition programs_run :: "(memory \<times> u32) list \<Rightarrow> u32 \<Rightarrow> u32 list \<Rightarrow> u32 list \<Rightarrow> kernel \<Rightarrow> bool" where
  "programs_run xs n qs ctxs s \<longleftrightarrow> length qs = length xs \<and> length ctxs = length xs
     \<and> (\<forall>k < length xs. p_context (proc_at s (qs ! k)) = ctxs ! k \<and> pid (proc_at s (qs ! k)) = n + of_nat k
          \<and> status (proc_at s (qs ! k)) = PROCESS_RUNNABLE
          \<and> (\<forall>ph \<in> set (segments (fst (xs ! k)) (snd (xs ! k))). \<forall>i < unat (ph_msize ph).
               user_view (vm s) (ctxs ! k) (ph_vaddr ph + of_nat i) = Some (segment_byte (fst (xs ! k)) (snd (xs ! k)) ph i)))"

lemma with_call_sel [simp]:
  "vm (kst (with_call f n a m)) = vm (kst m)" "heap (kst (with_call f n a m)) = heap (kst m)"
  "proc_at (kst (with_call f n a m)) = proc_at (kst m)" "num_proc (kst (with_call f n a m)) = num_proc (kst m)"
  "current_process (kst (with_call f n a m)) = current_process (kst m)"
  "eax (cpu_at (kst (with_call f n a m)) f) = n" "ebx (cpu_at (kst (with_call f n a m)) f) = a"
  "intr (cpu_at (kst (with_call f n a m)) f) = 0x30"
  by (simp_all add: with_call_def upd_cpu_def)

lemma with_call_ok: "system_ok L (kst m) ps Q \<Longrightarrow> system_ok L (kst (with_call f n a m)) ps Q"
  by (erule system_ok_same) (simp add: same_structure_def with_call_def upd_cpu_def)

lemma room_after:
  assumes room: "room_for_all L s ((img, a) # xs) e" and left: "left_over L img a e p s s'"
  shows "room_for_all L s' xs (e + heap_need (segments img a) + 8292)"
proof -
  note l = left [unfolded left_over_def] and r = room [unfolded room_for_all_def]
  have "sees_image L (vm s') (current_context (vm s')) im b" if "sees_image L (vm s) (current_context (vm s)) im b" for im b
    using sees_image_mono [OF _ that, of "vm s'"] l by (auto simp: kept_def)
  then show ?thesis using l r unfolding room_for_all_def by auto
qed

lemma launch_all_runs:
  assumes L: "layout_ok L"
  shows "spaces_ok L (vm (kst m)) cs \<Longrightarrow> system_ok L (kst m) ps Q \<Longrightarrow>
    current_process (kst m) = 0 \<or> current_process (kst m) \<in> set ps \<Longrightarrow> unat (num_proc (kst m)) + length xs < 2 ^ 32 \<Longrightarrow>
    unused_clean (kst m) ps \<Longrightarrow> room_for_all L (kst m) xs e \<Longrightarrow>
    \<exists>qs ctxs m'. launch_all L frame (map snd xs) m = Inr m' \<and> programs_run xs (num_proc (kst m)) qs ctxs (kst m')
      \<and> processes_ok L (kst m') (rev qs @ ps) \<and> spaces_ok L (vm (kst m')) (rev ctxs @ cs)
      \<and> (\<forall>d \<in> set cs. user_view (vm (kst m')) d = user_view (vm (kst m)) d)
      \<and> (\<forall>q \<in> set ps. proc_at (kst m') q = proc_at (kst m) q) \<and> kept L (vm (kst m)) (vm (kst m'))"
proof (induction xs arbitrary: m cs ps Q e)
  case Nil
  then show ?case
    by (intro exI [of _ "[]"] exI [of _ m]) (simp add: programs_run_def system_okD(1) kept_def)
next
  case (Cons x xs)
  obtain img a where x: "x = (img, a)" by (cases x)
  let ?m = "with_call frame 9 a m"
  note room = Cons.prems(6) [unfolded x]
  have P: "spaces_ok L (vm (kst ?m)) cs" "system_ok L (kst ?m) ps Q" "current_process (kst ?m) = 0 \<or> current_process (kst ?m) \<in> set ps"
    using Cons.prems with_call_ok by simp_all
  have "unat (num_proc (kst m)) < 4294967295" using Cons.prems(4) by simp
  then have wrap: "num_proc (kst ?m) \<noteq> -1" by (auto simp: unsigned_minus_1_eq_mask mask_eq_exp_minus_1)
  have one: "launch_room L (kst ?m) img a e" and entry: "h_entry (header_at img a) \<noteq> 0"
    using room unfolding room_for_all_def launch_room_def by auto
  obtain ctx v s1 p s2 where run: "CreateUsermodeContext L 0 (vm (kst ?m)) = Inr (ctx, v)"
      "ParseElf L a ctx ((kst ?m)\<lparr>vm := v\<rparr>) = Inr (h_entry (header_at img a), s1)"
      "CreateUserProcess L (h_entry (header_at img a)) ctx s1 = Inr (p, s2)"
    and s2: "program_started L img a ctx p (kst ?m) s2" "processes_ok L s2 (p # ps)" "spaces_ok L (vm s2) (ctx # cs)"
      "\<forall>d \<in> set cs. user_view (vm s2) d = user_view (vm (kst ?m)) d" "left_over L img a e p (kst ?m) s2"
    by (rule start_program [OF L P wrap one])
  let ?m2 = "?m\<lparr>kst := s2\<rparr>"
  have sys: "Syscall L frame ?m = Inr (frame, ?m2)" using run entry by (simp add: Syscall_def sys_launch_def Let_def)
  note st = s2(1) [unfolded program_started_def] and l = s2(5) [unfolded left_over_def]
  have p: "p \<notin> set ps" using s2(2) by (simp add: processes_ok_def)
  then have "ml_first (messages (proc_at (kst ?m) p)) = 0" using Cons.prems(5) by (simp add: unused_clean_def)
  then have sys2: "system_ok L (kst ?m2) (p # ps) (Q(p := []))" using l P(2) by simp
  have clean2: "unused_clean (kst ?m2) (p # ps)" using Cons.prems(5) st by (simp add: unused_clean_def)
  have num: "num_proc (kst ?m2) = num_proc (kst m) + 1" "unat (num_proc (kst ?m2)) + length xs < 2 ^ 32"
    using l Cons.prems(4) by (simp_all add: unat_word_ariths)
  have "room_for_all L (kst ?m2) xs (e + heap_need (segments img a) + 8292)"
  proof -
    have "room_for_all L (kst ?m) ((img, a) # xs) e" using room by (simp add: room_for_all_def)
    from room_after [OF this s2(5)] show ?thesis by simp
  qed
  from Cons.IH [OF _ sys2 _ num(2) clean2 this, of "ctx # cs"] s2(3) l P(3) obtain qs ctxs m' where
    rest: "launch_all L frame (map snd xs) ?m2 = Inr m'" "programs_run xs (num_proc (kst ?m2)) qs ctxs (kst m')"
      "processes_ok L (kst m') (rev qs @ p # ps)" "spaces_ok L (vm (kst m')) (rev ctxs @ ctx # cs)"
      "\<forall>d \<in> set (ctx # cs). user_view (vm (kst m')) d = user_view (vm s2) d"
      "\<forall>q \<in> set (p # ps). proc_at (kst m') q = proc_at s2 q" "kept L (vm s2) (vm (kst m'))"
    by auto
  have "programs_run (x # xs) (num_proc (kst m)) (p # qs) (ctx # ctxs) (kst m')"
    unfolding programs_run_def
  proof (intro conjI allI impI)
    fix k assume "k < length (x # xs)"
    then show "p_context (proc_at (kst m') ((p # qs) ! k)) = (ctx # ctxs) ! k"
      "pid (proc_at (kst m') ((p # qs) ! k)) = num_proc (kst m) + of_nat k"
      "status (proc_at (kst m') ((p # qs) ! k)) = PROCESS_RUNNABLE"
      "\<forall>ph \<in> set (segments (fst ((x # xs) ! k)) (snd ((x # xs) ! k))). \<forall>i < unat (ph_msize ph).
         user_view (vm (kst m')) ((ctx # ctxs) ! k) (ph_vaddr ph + of_nat i)
           = Some (segment_byte (fst ((x # xs) ! k)) (snd ((x # xs) ! k)) ph i)"
      using rest(2,5,6) st x num(1) by (cases k; simp add: programs_run_def)+
  qed (use rest(2) in \<open>simp_all add: programs_run_def\<close>)
  moreover have "launch_all L frame (map snd (x # xs)) m = Inr m'" using sys rest(1) x by simp
  moreover have "proc_at (kst m') q = proc_at (kst m) q" if "q \<in> set ps" for q
    using rest(6) st that p by auto
  moreover have "kept L (vm (kst m)) (vm (kst m'))" using rest(7) l by (auto simp: kept_def)
  ultimately show ?case using rest(3-5) s2(4)
    by (intro exI [of _ "p # qs"] exI [of _ "ctx # ctxs"] exI [of _ m']) simp
qed

section \<open>The kernel process starts programs\<close>

text \<open>
  The start of \<open>kernel_process\<close>, before its message loop: the launch call for two files of the RAM disk, whose
  headers it reads through the page tables. \<open>syscall1\<close> of the kernel library is not in the repository and is a
  parameter. The kernel relies on this of it: it raises interrupt 0x30, for which \<open>InitIDT\<close> has installed a
  gate, with the call's number in EAX and its argument in EBX, where \<open>Syscall\<close> looks for them; it returns when
  the call does. So it is a run of \<open>int_handler\<close>, which sets and clears the kernel mode, stores the stack
  pointer for the next interrupt and acknowledges the interrupt, on these registers at \<open>frame\<close>.
\<close>

definition kernel_process_start ::
  "(u32 \<Rightarrow> u32 \<Rightarrow> machine \<Rightarrow> kerror + machine) \<Rightarrow> ramdisk \<Rightarrow> machine \<Rightarrow> kerror + machine" where
  "kernel_process_start syscall1 rd m =
     bindE (syscall1 9 (RamDiskFileContent (seen (vm (kst m))) rd (bytes ''./vfs.elf'')) m) (\<lambda>m.
     syscall1 9 (RamDiskFileContent (seen (vm (kst m))) rd (bytes ''./init.elf'')) m)"

definition library_call :: "layout \<Rightarrow> u32 \<Rightarrow> u32 \<Rightarrow> u32 \<Rightarrow> u32 \<Rightarrow> machine \<Rightarrow> kerror + machine" where
  "library_call L msg_buf frame n a m = bindE (int_handler L msg_buf frame (with_call frame n a m)) (\<lambda>(_, m'). Inr m')"

text \<open>What the dispatcher adds to a system call that returns to its caller.\<close>

definition served :: "u32 \<Rightarrow> machine \<Rightarrow> machine" where
  "served frame m = (out 0x20 0x20 (set_kernel_stack frame m))\<lparr>kernel_mode := 0\<rparr>"

lemma served_sel [simp]:
  "kst (served frame m) = kst m" "kernel_mode (served frame m) = 0"
  "ports (console (served frame m)) = (0x20, 0x20) # ports (console m)"
  "task_state (served frame m) = (task_state m)[1 := frame + sizeof_cpu]" "irq_handlers (served frame m) = irq_handlers m"
  by (simp_all add: served_def out_def outb_def set_kernel_stack_def)

lemma sys_launch_kernel_only:
  assumes "sys_launch L frame m = Inr (f, m1)" "kst m2 = kst m"
  shows "f = frame \<and> m1 = m\<lparr>kst := kst m1\<rparr> \<and> sys_launch L frame m2 = Inr (frame, m2\<lparr>kst := kst m1\<rparr>)"
proof -
  let ?s = "kst m"
  obtain ctx v where new: "CreateUsermodeContext L 0 (vm ?s) = Inr (ctx, v)"
    using assms(1) by (auto simp: sys_launch_def bindE_Inr_iff)
  then obtain en s1 where elf: "ParseElf L (ebx (cpu_at ?s frame)) ctx (?s\<lparr>vm := v\<rparr>) = Inr (en, s1)"
    using assms(1) by (auto simp: sys_launch_def bindE_Inr_iff Let_def)
  show ?thesis
  proof (cases "en = 0")
    case True
    then show ?thesis using assms new elf by (auto simp: sys_launch_def Let_def)
  next
    case False
    then show ?thesis using assms new elf by (cases "CreateUserProcess L en ctx s1") (auto simp: sys_launch_def Let_def)
  qed
qed

lemma launch_kernel_only:
  assumes "Syscall L frame (with_call frame 9 a m) = Inr (f, m1)"
  shows "m1 = m\<lparr>kst := kst m1\<rparr>"
    "kst m2 = kst m \<Longrightarrow> Syscall L frame ((with_call frame 9 a m2)\<lparr>kernel_mode := 1\<rparr>) = Inr (frame, m2\<lparr>kernel_mode := 1, kst := kst m1\<rparr>)"
proof -
  have call: "Syscall L frame (with_call frame 9 a m) = sys_launch L frame (with_call frame 9 a m)"
    "Syscall L frame ((with_call frame 9 a m2)\<lparr>kernel_mode := 1\<rparr>) = sys_launch L frame ((with_call frame 9 a m2)\<lparr>kernel_mode := 1\<rparr>)"
    by (simp_all add: Syscall_def Let_def)
  note only = sys_launch_kernel_only [OF assms [unfolded call]]
  show "m1 = m\<lparr>kst := kst m1\<rparr>" using only [OF refl] by (simp add: with_call_def)
  show "kst m2 = kst m \<Longrightarrow> Syscall L frame ((with_call frame 9 a m2)\<lparr>kernel_mode := 1\<rparr>) = Inr (frame, m2\<lparr>kernel_mode := 1, kst := kst m1\<rparr>)"
    using only [of "(with_call frame 9 a m2)\<lparr>kernel_mode := 1\<rparr>"] by (simp add: call(2)) (simp add: with_call_def)
qed

lemma library_call_launch:
  assumes "frame \<noteq> 0" "Syscall L frame (with_call frame 9 a m) = Inr (f, m1)" "kst m2 = kst m"
  shows "library_call L msg_buf frame 9 a m2 = Inr (served frame (m2\<lparr>kst := kst m1\<rparr>))"
proof -
  note call = launch_kernel_only(2) [OF assms(2,3)]
  then show ?thesis using assms(1)
    by (simp add: library_call_def int_handler_def derefE_nonzero Let_def served_def out_def set_kernel_stack_def)
qed

text \<open>
  The names in the archive's headers, of at most 99 bytes, are seen by the running context, in memory in use
  that is neither page pool nor heap. Launching does not touch them, so look-ups find what they found before.
\<close>

definition archive_safe :: "layout \<Rightarrow> vmm \<Rightarrow> ramdisk \<Rightarrow> bool" where
  "archive_safe L v rd \<longleftrightarrow> (\<forall>h \<in> set (file_table rd). \<forall>i < 100. \<exists>b. holds L v (current_context v) (h + of_nat i) b)"

definition start_files :: "memory \<Rightarrow> memory \<Rightarrow> ramdisk \<Rightarrow> machine \<Rightarrow> (memory \<times> u32) list" where
  "start_files vfs ini rd m = [(vfs, RamDiskFileContent (seen (vm (kst m))) rd (bytes ''./vfs.elf'')),
     (ini, RamDiskFileContent (seen (vm (kst m))) rd (bytes ''./init.elf''))]"

lemma string_at_cong:
  "\<forall>i \<le> length cs. m' (a + of_nat i) = m (a + of_nat i) \<Longrightarrow> string_at m' a cs = string_at m a cs"
proof (induction cs arbitrary: a)
  case (Cons c cs)
  have "m' (a + 1 + of_nat i) = m (a + 1 + of_nat i)" if "i \<le> length cs" for i
    using Cons.prems that by (auto dest!: spec [of _ "Suc i"] simp: add.assoc)
  moreover have "m' a = m a" using Cons.prems [rule_format, of 0] by simp
  ultimately show ?case using Cons.IH by simp
qed simp

lemma holds_seen: "active v c \<Longrightarrow> holds L v c a b \<Longrightarrow> seen v a = b"
  using virt_to_phys_active [of v c a] by (auto simp: holds_def seen_def)

lemma RamDiskFileContent_kept:
  assumes "kept L v v'" "archive_safe L v rd" "active v (current_context v)" "active v' (current_context v')"
    and "length name < 100"
  shows "RamDiskFileContent (seen v') rd name = RamDiskFileContent (seen v) rd name"
proof -
  have "seen v' (h + of_nat i) = seen v (h + of_nat i)" if h: "h \<in> set (file_table rd)" "i < 100" for h i
  proof -
    obtain b where "holds L v (current_context v) (h + of_nat i) b" using assms(2) h by (auto simp: archive_safe_def)
    moreover have "holds L v' (current_context v') (h + of_nat i) b" using assms(1) calculation by (simp add: kept_def)
    ultimately show ?thesis using holds_seen [OF assms(3)] holds_seen [OF assms(4)] by metis
  qed
  then have "string_at (seen v') h name = string_at (seen v) h name" if "h \<in> set (file_table rd)" for h
    using assms(5) that by (intro string_at_cong) simp
  then have "lookup (seen v') rd name = lookup (seen v) rd name"
    unfolding lookup_def by (intro find_cong refl) (auto dest: in_set_takeD)
  then show ?thesis by (simp add: RamDiskFileContent_def)
qed

lemma launch_two:
  assumes "frame \<noteq> 0" "launch_all L frame [a] m = Inr m1" "launch_all L frame [a, b] m = Inr m2"
  shows "library_call L msg_buf frame 9 a m = Inr (served frame m1)"
    "library_call L msg_buf frame 9 b (served frame m1) = Inr (served frame ((served frame m)\<lparr>kst := kst m2\<rparr>))"
proof -
  obtain f where one: "Syscall L frame (with_call frame 9 a m) = Inr (f, m1)" using assms(2) by (auto simp: bindE_Inr_iff)
  then obtain g where two: "Syscall L frame (with_call frame 9 b m1) = Inr (g, m2)" using assms(3) by (auto simp: bindE_Inr_iff)
  have m1: "m1 = m\<lparr>kst := kst m1\<rparr>" by (rule launch_kernel_only(1) [OF one])
  show "library_call L msg_buf frame 9 a m = Inr (served frame m1)"
    using library_call_launch [OF assms(1) one refl, of msg_buf] m1 by simp
  have "(served frame m1)\<lparr>kst := kst m2\<rparr> = (served frame m)\<lparr>kst := kst m2\<rparr>"
    by (subst m1) (simp add: served_def out_def set_kernel_stack_def)
  then show "library_call L msg_buf frame 9 b (served frame m1) = Inr (served frame ((served frame m)\<lparr>kst := kst m2\<rparr>))"
    using library_call_launch [OF assms(1) two, of "served frame m1" msg_buf] by simp
qed

section \<open>Several programs\<close>

text \<open>
  C8: Launching one program after the other. The launch calls for any list of images the current context
  sees, where there is room for all of them and unused blocks hold no message queue, all succeed, and in
  the end every one of the programs runs in a context of its own: consecutive PIDs, runnable, and its memory
  holds its segments whatever was launched after it. The process list holds the new processes in front
  of the old, all address spaces are well formed, and no older process or its memory has changed.
\<close>

theorem programs_launched:
  assumes "layout_ok L" "spaces_ok L (vm (kst m)) cs" "system_ok L (kst m) ps Q"
    and "current_process (kst m) = 0 \<or> current_process (kst m) \<in> set ps" "unat (num_proc (kst m)) + length xs < 2 ^ 32"
    and "unused_clean (kst m) ps" "room_for_all L (kst m) xs e"
  shows "\<exists>qs ctxs m'. launch_all L frame (map snd xs) m = Inr m' \<and> programs_run xs (num_proc (kst m)) qs ctxs (kst m')
    \<and> processes_ok L (kst m') (rev qs @ ps) \<and> spaces_ok L (vm (kst m')) (rev ctxs @ cs)
    \<and> (\<forall>d \<in> set cs. user_view (vm (kst m')) d = user_view (vm (kst m)) d)
    \<and> (\<forall>q \<in> set ps. proc_at (kst m') q = proc_at (kst m) q)"
  using launch_all_runs [OF assms] by blast

text \<open>
  C7: The kernel process starts its programs, by two interrupts 0x30 through the dispatcher. Where the kernel
  process sees \<open>vfs.elf\<close> and \<open>init.elf\<close> in the RAM disk as well-formed images, with room for both
  (\<open>room_for_all\<close>), sees the archive's names in memory in use outside the page pool and the heap
  (\<open>archive_safe\<close>), and blocks that are no processes hold no message queue (\<open>unused_clean\<close>), the start of the
  kernel process returns and both programs run, each in an address space of its own that holds its segments,
  the file system before \<open>init\<close> in the order of PIDs; what was there before is untouched; each call has been
  acknowledged to the interrupt controller and the kernel is out of kernel mode. Assumed of \<open>syscall1\<close>, which
  is not in the repository, is that it raises the interrupt with its arguments in the registers; and no other
  interrupt comes in between.
\<close>

theorem kernel_process_starts_programs:
  assumes "layout_ok L" "spaces_ok L (vm (kst m)) cs" "system_ok L (kst m) ps Q"
    and "current_process (kst m) = 0 \<or> current_process (kst m) \<in> set ps" "unat (num_proc (kst m)) + 2 < 2 ^ 32"
    and "unused_clean (kst m) ps" "room_for_all L (kst m) (start_files vfs ini rd m) e"
    and "archive_safe L (vm (kst m)) rd" "frame \<noteq> 0" "\<forall>n a m. syscall1 n a m = library_call L msg_buf frame n a m"
  shows "\<exists>p q c d m'. kernel_process_start syscall1 rd m = Inr m'
    \<and> programs_run (start_files vfs ini rd m) (num_proc (kst m)) [p, q] [c, d] (kst m')
    \<and> processes_ok L (kst m') (q # p # ps) \<and> spaces_ok L (vm (kst m')) (d # c # cs)
    \<and> (\<forall>x \<in> set cs. user_view (vm (kst m')) x = user_view (vm (kst m)) x)
    \<and> (\<forall>x \<in> set ps. proc_at (kst m') x = proc_at (kst m) x)
    \<and> ports (console m') = [(0x20, 0x20), (0x20, 0x20)] @ ports (console m) \<and> kernel_mode m' = 0"
proof -
  let ?a = "RamDiskFileContent (seen (vm (kst m))) rd (bytes ''./vfs.elf'')"
  let ?b = "RamDiskFileContent (seen (vm (kst m))) rd (bytes ''./init.elf'')"
  have xs: "start_files vfs ini rd m = [(vfs, ?a), (ini, ?b)]" by (simp add: start_files_def)
  note P = assms(1-4) and more = assms(6) and room = assms(7) [unfolded xs]
  have n: "unat (num_proc (kst m)) + length [(vfs, ?a)] < 2 ^ 32" "unat (num_proc (kst m)) + length [(vfs, ?a), (ini, ?b)] < 2 ^ 32"
    using assms(5) by simp_all
  have "room_for_all L (kst m) [(vfs, ?a)] e" using room by (auto simp: room_for_all_def)
  from launch_all_runs [OF P n(1) more this, of frame] obtain ctxs1 m1 where
    m1: "launch_all L frame [?a] m = Inr m1" "kept L (vm (kst m)) (vm (kst m1))" "spaces_ok L (vm (kst m1)) ctxs1"
    by (auto simp del: launch_all.simps)
  have b: "RamDiskFileContent (seen (vm (kst m1))) rd (bytes ''./init.elf'') = ?b"
    by (rule RamDiskFileContent_kept [OF m1(2) assms(8) spaces_okD(7) [OF assms(2)] spaces_okD(7) [OF m1(3)]]) (simp add: bytes_def)
  obtain qs ctxs m' where all: "launch_all L frame [?a, ?b] m = Inr m'"
    and run: "programs_run [(vfs, ?a), (ini, ?b)] (num_proc (kst m)) qs ctxs (kst m')"
    and ok: "processes_ok L (kst m') (rev qs @ ps)" "spaces_ok L (vm (kst m')) (rev ctxs @ cs)"
      "\<forall>x \<in> set cs. user_view (vm (kst m')) x = user_view (vm (kst m)) x" "\<forall>x \<in> set ps. proc_at (kst m') x = proc_at (kst m) x"
    using launch_all_runs [OF P n(2) more room, of frame] by (auto simp del: launch_all.simps)
  have "kernel_process_start syscall1 rd m = Inr (served frame ((served frame m)\<lparr>kst := kst m'\<rparr>))"
    using launch_two [OF assms(9) m1(1) all, of msg_buf] b by (simp add: kernel_process_start_def assms(10))
  moreover obtain p q c d where "qs = [p, q]" "ctxs = [c, d]" using run by (auto simp: programs_run_def length_Suc_conv)
  ultimately show ?thesis using run ok by (auto simp: xs)
qed

section \<open>Witnesses\<close>

lemma example_program_vaddr: "ph_vaddr example_program = 0x80000000" "ph_msize example_program = 4"
  by (simp_all add: example_program_def)

text \<open>A kernel without processes whose paging is on and that sees the example's image; the call's argument is in EBX.\<close>

definition launch_machine :: "vmm \<Rightarrow> u32 \<Rightarrow> machine" where
  "launch_machine v arg = (example_machine 9 arg)\<lparr>kst := boot_kernel\<lparr>vm := v,
     cpu_at := (\<lambda>_. no_cpu)(0x5000 := no_cpu\<lparr>eax := 9, ebx := arg\<rparr>)\<rparr>\<rparr>"

lemma launch_machine_sel [simp]:
  "vm (kst (launch_machine v a)) = v" "heap (kst (launch_machine v a)) = fresh_heap"
  "first_process (kst (launch_machine v a)) = 0" "num_proc (kst (launch_machine v a)) = 0"
  "current_process (kst (launch_machine v a)) = 0" "cpu_at (kst (launch_machine v a)) 0x5000 = no_cpu\<lparr>eax := 9, ebx := a\<rparr>"
  by (simp_all add: launch_machine_def)

theorem launch_starts_program_witness:
  "\<exists>v ctx p s'. InitVmm example_layout loader_vmm = Inr v
     \<and> Syscall example_layout 0x5000 (launch_machine v 0x1000) = Inr (0x5000, (launch_machine v 0x1000)\<lparr>kst := s'\<rparr>)
     \<and> p_context (proc_at s' p) = ctx \<and> eip (cpu_at s' (p_state (proc_at s' p))) = 0x80000000
     \<and> user_view (vm s') ctx 0x80000001 = Some 20 \<and> user_view (vm s') ctx 0x80000003 = Some 0"
proof -
  let ?L = example_layout
  obtain v where v: "InitVmm ?L loader_vmm = Inr v" "221 \<le> free_pool ?L v" and id: "identity_mapped ?L v"
    "current_context v = kernel_context v" and i: "pool_only ?L loader_vmm v"
    by (rule example_started)
  let ?m = "launch_machine v 0x1000"
  have spaces: "spaces_ok ?L v []" by (rule spaces_init [OF example_layout_ok _ v(1)]) simp
  have image: "sees_image ?L v (kernel_context v) example_elf 0x1000" by (rule example_image_seen [OF id(1) refl i example_base])
  have heap: "heap_below ?L fresh_heap 0x350010 \<and> 0x350010 + heap_need (segments example_elf 0x1000) + 8292 \<le> unat (HEAP_END ?L)"
    using example_heap_below example_needs [OF example_base] by simp
  then have can: "can_launch ?L (kst ?m) example_elf 0x1000"
    unfolding can_launch_def launch_room_def using image id(2) example_elf_ok [OF example_base] example_needs [OF example_base] example_frames [OF i] v(2) by auto
  have sys: "system_ok ?L (kst ?m) [] (\<lambda>_. [])" by (rule system_ok_empty) (simp_all add: boot_kernel_heap)
  have P: "spaces_ok ?L (vm (kst ?m)) []" "num_proc (kst ?m) \<noteq> -1" "current_process (kst ?m) = 0 \<or> current_process (kst ?m) \<in> set []"
    "eax (cpu_at (kst ?m) 0x5000) = 9" "can_launch ?L (kst ?m) example_elf (ebx (cpu_at (kst ?m) 0x5000))"
    "h_entry (header_at example_elf (ebx (cpu_at (kst ?m) 0x5000))) \<noteq> 0"
    using spaces can by (simp_all add: example_elf_header)
  from launch_starts_program [OF example_layout_ok P(1) sys P(2-6)] obtain ctx p s' where
    run: "Syscall ?L 0x5000 ?m = Inr (0x5000, ?m\<lparr>kst := s'\<rparr>)" and st: "program_started ?L example_elf 0x1000 ctx p (kst ?m) s'"
    by auto
  note st = st [unfolded program_started_def example_elf_segments [OF example_base]]
  have "user_view (vm s') ctx (ph_vaddr example_program + of_nat i) = Some (segment_byte example_elf 0x1000 example_program i)"
    if "i < unat (ph_msize example_program)" for i using st that by simp
  from this [of 1] this [of 3] have "user_view (vm s') ctx 0x80000001 = Some 20" "user_view (vm s') ctx 0x80000003 = Some 0"
    by (simp_all add: example_segment_bytes [unfolded One_nat_def] example_program_vaddr)
  moreover have "p_context (proc_at s' p) = ctx" "eip (cpu_at s' (p_state (proc_at s' p))) = 0x80000000"
    using st by (simp_all add: Let_def example_elf_header)
  ultimately show ?thesis using v(1) run by blast
qed

theorem programs_launched_witness:
  "\<exists>v c1 c2 p1 p2 m'. InitVmm example_layout loader_vmm = Inr v
     \<and> launch_all example_layout 0x5000 [0x1000, 0x1000] (launch_machine v 0) = Inr m'
     \<and> processes_ok example_layout (kst m') [p2, p1] \<and> c1 \<noteq> c2
     \<and> p_context (proc_at (kst m') p1) = c1 \<and> p_context (proc_at (kst m') p2) = c2
     \<and> user_view (vm (kst m')) c1 0x80000001 = Some 20 \<and> user_view (vm (kst m')) c2 0x80000001 = Some 20"
proof -
  let ?L = example_layout and ?xs = "[(example_elf, 0x1000), (example_elf, 0x1000)] :: (memory \<times> u32) list"
  obtain v where v: "InitVmm ?L loader_vmm = Inr v" "221 \<le> free_pool ?L v" and id: "identity_mapped ?L v"
    "current_context v = kernel_context v" and i: "pool_only ?L loader_vmm v"
    by (rule example_started)
  let ?m = "launch_machine v 0"
  have spaces: "spaces_ok ?L (vm (kst ?m)) []" using spaces_init [OF example_layout_ok _ v(1)] by simp
  have image: "sees_image ?L v (kernel_context v) example_elf 0x1000" by (rule example_image_seen [OF id(1) refl i example_base])
  have room: "room_for_all ?L (kst ?m) ?xs 0x350010"
    using image id(2) example_elf_ok [OF example_base] example_needs [OF example_base] example_frames [OF i] v(2) example_heap_below
    by (simp add: room_for_all_def example_elf_header)
  have sys: "system_ok ?L (kst ?m) [] (\<lambda>_. [])" by (rule system_ok_empty) (simp_all add: boot_kernel_heap)
  have clean: "unused_clean (kst ?m) []" by (simp add: unused_clean_def launch_machine_def boot_kernel_def no_process_def)
  obtain qs ctxs m' where run: "launch_all ?L 0x5000 [0x1000, 0x1000] ?m = Inr m'" "programs_run ?xs 0 qs ctxs (kst m')"
    "processes_ok ?L (kst m') (rev qs)" "spaces_ok ?L (vm (kst m')) (rev ctxs)"
    using programs_launched [OF example_layout_ok spaces sys _ _ clean room, of "0x5000"] by auto
  then obtain p1 p2 c1 c2 where q: "qs = [p1, p2]" "ctxs = [c1, c2]"
    by (auto simp: programs_run_def length_Suc_conv)
  have st: "p_context (proc_at (kst m') (qs ! k)) = ctxs ! k"
      "user_view (vm (kst m')) (ctxs ! k) (ph_vaddr example_program + of_nat i) = Some (segment_byte example_elf 0x1000 example_program i)"
    if "k < 2" "i < unat (ph_msize example_program)" for k i
    using run(2) that by (auto simp: programs_run_def example_elf_segments nth_Cons' less_Suc_eq numeral_2_eq_2)
  have bytes: "user_view (vm (kst m')) (ctxs ! k) 0x80000001 = Some 20" if "k < 2" for k
    using st(2) [OF that, of 1] by (simp add: example_segment_bytes [unfolded One_nat_def] example_program_vaddr)
  have c: "p_context (proc_at (kst m') p1) = c1" "p_context (proc_at (kst m') p2) = c2"
    using st(1) [of 0 0] st(1) [of 1 0] q by (simp_all add: example_program_def)
  have "user_view (vm (kst m')) c1 0x80000001 = Some 20" "user_view (vm (kst m')) c2 0x80000001 = Some 20"
    using bytes [of 0] bytes [of 1] q by simp_all
  moreover have "c1 \<noteq> c2" using spaces_okD(1) [OF run(4)] q by auto
  ultimately show ?thesis using v(1) run(1,3) c q by force
qed

text \<open>The archive with \<open>vfs.elf\<close> and \<open>init.elf\<close> in the example's memory.\<close>

definition example_files :: ramdisk where
  "example_files = \<lparr>files = 0x1200, file_table = [0x1200, 0x1600], first_file = 0x1200, fileno = 2\<rparr>"

lemma example_header_byte:
  assumes "h \<in> set (file_table example_files)" "i < 100"
  obtains j where "h + of_nat i = 0x1000 + of_nat j" "j < 4096"
proof -
  have "h = 0x1000 + of_nat 0x200 \<or> h = 0x1000 + of_nat 0x600" using assms(1) by (auto simp: example_files_def)
  then show ?thesis using assms(2) that [of "0x200 + i"] that [of "0x600 + i"] by (auto simp: add.assoc)
qed

lemma example_names: "string_at example_elf 0x1200 (bytes ''./vfs.elf'')" "\<not> string_at example_elf 0x1200 (bytes ''./init.elf'')"
  "string_at example_elf 0x1600 (bytes ''./init.elf'')"
  by (simp_all add: bytes_def example_elf_def)

lemma example_files_found:
  assumes id: "identity_mapped example_layout v" and cur: "current_context v = kernel_context v" and "pool_only example_layout loader_vmm v"
    and act: "active v (current_context v)"
  shows "RamDiskFileContent (seen v) example_files (bytes ''./vfs.elf'') = 0x1400"
    "RamDiskFileContent (seen v) example_files (bytes ''./init.elf'') = 0x1800" "archive_safe example_layout v example_files"
proof -
  have byte: "holds example_layout v (current_context v) (h + of_nat i) (example_elf (h + of_nat i))"
    if h: "h \<in> set (file_table example_files)" "i < 100" for h i
  proof -
    obtain j where "h + of_nat i = 0x1000 + of_nat j" "j < 4096" by (rule example_header_byte [OF h])
    then show ?thesis using example_image_byte [OF id refl assms(3) example_page] cur by simp
  qed
  then show "archive_safe example_layout v example_files" by (auto simp: archive_safe_def)
  have "string_at (seen v) h n = string_at example_elf h n" if "h \<in> set (file_table example_files)" "length n < 100" for h n
    using holds_seen [OF act byte [OF that(1)]] that(2) by (intro string_at_cong) simp
  then have same: "string_at (seen v) h n = string_at example_elf h n" if "h = 0x1200 \<or> h = 0x1600" "length n < 100" for h n
    using that by (auto simp: example_files_def)
  have "length (bytes ''./vfs.elf'') < 100" "length (bytes ''./init.elf'') < 100" by (simp_all add: bytes_def)
  note names = example_names [folded same [OF disjI1 [OF refl] this(1)] same [OF disjI1 [OF refl] this(2)] same [OF disjI2 [OF refl] this(2)]]
  show "RamDiskFileContent (seen v) example_files (bytes ''./vfs.elf'') = 0x1400"
    "RamDiskFileContent (seen v) example_files (bytes ''./init.elf'') = 0x1800"
    unfolding RamDiskFileContent_def lookup_def example_files_def using names
    by (simp_all only: ramdisk.simps) (simp_all add: unat_numeral take_Cons' del: string_at.simps)
qed

theorem kernel_process_starts_programs_witness:
  "\<exists>v p q c d m'. InitVmm example_layout loader_vmm = Inr v
     \<and> kernel_process_start (library_call example_layout 0x6000 0x5000) example_files (launch_machine v 0) = Inr m'
     \<and> processes_ok example_layout (kst m') [q, p] \<and> pid (proc_at (kst m') p) = 0 \<and> pid (proc_at (kst m') q) = 1
     \<and> p_context (proc_at (kst m') q) = d \<and> user_view (vm (kst m')) d 0x80000001 = Some 20"
proof -
  let ?L = example_layout
  obtain v where v: "InitVmm ?L loader_vmm = Inr v" "221 \<le> free_pool ?L v" and id: "identity_mapped ?L v"
    "current_context v = kernel_context v" and i: "pool_only ?L loader_vmm v"
    by (rule example_started)
  let ?m = "launch_machine v 0"
  have s0: "spaces_ok ?L v []" by (rule spaces_init [OF example_layout_ok _ v(1)]) simp
  note found = example_files_found [OF id i spaces_okD(7) [OF s0]]
  have xs: "start_files example_elf example_elf example_files ?m = [(example_elf, 0x1400), (example_elf, 0x1800)]"
    by (simp add: start_files_def found)
  have base: "0x1400 \<in> set example_bases" "0x1800 \<in> set example_bases" by (simp_all add: example_bases_def)
  have spaces: "spaces_ok ?L (vm (kst ?m)) []" using spaces_init [OF example_layout_ok _ v(1)] by simp
  have room: "room_for_all ?L (kst ?m) (start_files example_elf example_elf example_files ?m) 0x350010"
    using example_image_seen [OF id(1) refl i base(1)] example_image_seen [OF id(1) refl i base(2)] base
      id(2) example_frames [OF i] v(2) example_heap_below
    by (simp add: xs room_for_all_def example_elf_header example_elf_ok example_needs)
  have sys: "system_ok ?L (kst ?m) [] (\<lambda>_. [])" by (rule system_ok_empty) (simp_all add: boot_kernel_heap)
  have clean: "unused_clean (kst ?m) []" by (simp add: unused_clean_def launch_machine_def boot_kernel_def no_process_def)
  obtain p q c d m' where run: "kernel_process_start (library_call ?L 0x6000 0x5000) example_files ?m = Inr m'"
    "programs_run [(example_elf, 0x1400), (example_elf, 0x1800)] 0 [p, q] [c, d] (kst m')" "processes_ok ?L (kst m') [q, p]"
    using kernel_process_starts_programs [OF example_layout_ok spaces sys _ _ clean room, of "0x5000" "library_call ?L 0x6000 0x5000" "0x6000"] found(3)
    by (auto simp: xs)
  have st: "pid (proc_at (kst m') ([p, q] ! k)) = of_nat k" "p_context (proc_at (kst m') ([p, q] ! k)) = [c, d] ! k" if "k < 2" for k
    using run(2) that by (simp_all add: programs_run_def)
  have "\<forall>i < 4. user_view (vm (kst m')) d (0x80000000 + of_nat i) = Some (segment_byte example_elf 0x1800 example_program i)"
    using run(2) unfolding programs_run_def
    by (auto dest!: spec [of _ 1] simp: example_elf_segments [OF base(2)] example_program_vaddr)
  then have "user_view (vm (kst m')) d 0x80000001 = Some (segment_byte example_elf 0x1800 example_program 1)"
    by (auto dest!: spec [of _ 1])
  then have "user_view (vm (kst m')) d 0x80000001 = Some 20" using example_segment_bytes(1) [OF base(2)] by simp
  moreover have "pid (proc_at (kst m') p) = 0" "pid (proc_at (kst m') q) = 1" "p_context (proc_at (kst m') q) = d"
    using st [of 0] st [of 1] by simp_all
  ultimately show ?thesis using v(1) run(1,3) by blast
qed

theorem failed_launches_stop_kernel_witness:
  "\<exists>n msg. 3 \<le> n \<and> launches example_layout 0x5000 (Suc n) (launch_machine example_vmm 0) = Inl (Assert_Failed msg)"
proof -
  have "\<exists>msg. launches example_layout 0x5000 (Suc (free_pool example_layout example_vmm div 2)) (launch_machine example_vmm 0)
      = Inl (Assert_Failed msg)"
    using failed_launches_stop_kernel [OF example_layout_ok, of "launch_machine example_vmm 0" "0x5000"] boot_kernel_room(2) by simp
  moreover have "3 \<le> free_pool example_layout example_vmm div 2" using boot_kernel_room(1) by simp
  ultimately show ?thesis by blast
qed

end
