(* ===== verification/Services.thy ===== *)
theory Services
  imports Kernel_State
begin

text \<open>
  The service registry of the kernel process, \<open>kernel-process.c\<close>: processes register a service under a
  name and others ask for the PID behind it. One turn of its message loop, and the behaviour of
  registering and asking.
\<close>

section \<open>Operations\<close>

text \<open>
  \<open>service_t\<close>: the PID and the name, a C string without its terminating zero in a 255-byte array. The
  linked list from \<open>service_start\<close> is a list, newest first. Calls to the kernel library
  (\<open>receive_message\<close>, \<open>send_message\<close>) are what a turn receives and what it returns to be sent.
\<close>

record service =
  svc_pid :: u32
  svc_name :: "u8 list"

abbreviation (input) sizeof_service :: u32 where "sizeof_service \<equiv> 264"
abbreviation (input) SIGNAL_OK :: u32 where "SIGNAL_OK \<equiv> 0"

text \<open>
  The C string at the start of a message's body. \<open>strcpy\<close> reads up to the terminating zero, which need not
  be there; \<open>strcmp\<close> with a name of the registry stops at the end of the name at the latest.
\<close>

definition c_string :: "u8 list \<Rightarrow> u8 list" where
  "c_string bs = takeWhile (\<lambda>b. b \<noteq> 0) bs"

text \<open>
  \<open>strcpy\<close> into the 255-byte name checks no length: a longer string runs over the link behind it, and
  one without an end runs out of the message.
\<close>

definition copy_name :: "u8 list \<Rightarrow> kerror + u8 list" where
  "copy_name bs = (if 0 \<in> set bs \<and> length (c_string bs) < 255 then Inr (c_string bs) else Inl Out_Of_Bounds)"

definition register_service ::
  "layout \<Rightarrow> message \<Rightarrow> service list \<times> kheap \<Rightarrow> kerror + message option \<times> service list \<times> kheap" where
  "register_service L msg st =
     (let (services, h) = st in
      bindE (kmalloc L sizeof_service h) (\<lambda>(_, h').
      bindE (copy_name (body msg)) (\<lambda>nm.
      Inr (Some (msg\<lparr>signal := SIGNAL_OK\<rparr>), \<lparr>svc_pid = sender msg, svc_name = nm\<rparr> # services, h'))))"

definition request_service ::
  "message \<Rightarrow> service list \<times> kheap \<Rightarrow> kerror + message option \<times> service list \<times> kheap" where
  "request_service msg st =
     (let (services, h) = st in
      case find (\<lambda>s. svc_name s = c_string (body msg)) services of
        Some s \<Rightarrow> Inr (Some (msg\<lparr>signal := svc_pid s\<rparr>), services, h)
      | None \<Rightarrow> Inr (Some (msg\<lparr>signal := 0\<rparr>), services, h))"

text \<open>One turn: the reply to send, if any, and the registry. Messages of PID 0 are skipped.\<close>

definition kernel_process_turn ::
  "layout \<Rightarrow> message \<Rightarrow> service list \<times> kheap \<Rightarrow> kerror + message option \<times> service list \<times> kheap" where
  "kernel_process_turn L msg st =
     (if sender msg = 0 then Inr (None, st)
      else if signal msg = 1 then register_service L msg st
      else if signal msg = 2 then request_service msg st
      else Inr (None, st))"

section \<open>The registry over a run\<close>

text \<open>The turns for the messages received one after the other, with the replies sent.\<close>

definition kernel_process_turns ::
  "layout \<Rightarrow> message list \<Rightarrow> message option list \<times> service list \<times> kheap
   \<Rightarrow> kerror + message option list \<times> service list \<times> kheap" where
  "kernel_process_turns L =
     foldE (\<lambda>msg (replies, st).
       bindE (kernel_process_turn L msg st) (\<lambda>(reply, st'). Inr (replies @ [reply], st')))"

definition registers :: "u8 list \<Rightarrow> message \<Rightarrow> bool" where
  "registers nm msg \<longleftrightarrow> sender msg \<noteq> 0 \<and> signal msg = 1 \<and> c_string (body msg) = nm"

text \<open>What the registry should answer: the sender of the newest registration of the name, or 0.\<close>

definition answer :: "message list \<Rightarrow> u8 list \<Rightarrow> u32" where
  "answer history nm = (case find (registers nm) (rev history) of Some m \<Rightarrow> sender m | None \<Rightarrow> 0)"

definition reply_to :: "message list \<Rightarrow> message \<Rightarrow> message option" where
  "reply_to history msg =
     (if sender msg = 0 then None
      else if signal msg = 1 then Some (msg\<lparr>signal := SIGNAL_OK\<rparr>)
      else if signal msg = 2 then Some (msg\<lparr>signal := answer history (c_string (body msg))\<rparr>)
      else None)"

definition registry_of :: "message list \<Rightarrow> service list" where
  "registry_of history =
     map (\<lambda>m. \<lparr>svc_pid = sender m, svc_name = c_string (body m)\<rparr>)
       (filter (\<lambda>m. sender m \<noteq> 0 \<and> signal m = 1) (rev history))"

lemma find_registry:
  "(case find (\<lambda>s. svc_name s = nm) (registry_of history) of Some s \<Rightarrow> svc_pid s | None \<Rightarrow> 0) = answer history nm"
proof -
  have "(case find (\<lambda>s. svc_name s = nm)
           (map (\<lambda>m. \<lparr>svc_pid = sender m, svc_name = c_string (body m)\<rparr>)
             (filter (\<lambda>m. sender m \<noteq> 0 \<and> signal m = 1) ms)) of Some s \<Rightarrow> svc_pid s | None \<Rightarrow> 0)
      = (case find (registers nm) ms of Some m \<Rightarrow> sender m | None \<Rightarrow> 0)" for ms
    by (induction ms) (auto simp: registers_def)
  then show ?thesis by (simp add: registry_of_def answer_def)
qed

lemma turn_registry:
  assumes "kernel_process_turn L msg (registry_of history, h) = Inr (reply, svs, h')"
  shows "svs = registry_of (history @ [msg])" and "reply = reply_to history msg"
proof -
  have "svs = registry_of (history @ [msg]) \<and> reply = reply_to history msg"
  proof (cases "sender msg \<noteq> 0 \<and> signal msg = 1")
    case True
    with assms have "copy_name (body msg) = Inr (c_string (body msg))"
        "svs = \<lparr>svc_pid = sender msg, svc_name = c_string (body msg)\<rparr> # registry_of history"
        "reply = Some (msg\<lparr>signal := SIGNAL_OK\<rparr>)"
      by (auto simp: kernel_process_turn_def register_service_def copy_name_def kernel_simps split: if_splits)
    with True show ?thesis by (simp add: registry_of_def reply_to_def)
  next
    case False
    then have reg: "registry_of (history @ [msg]) = registry_of history" by (auto simp: registry_of_def)
    show ?thesis
    proof (cases "sender msg \<noteq> 0 \<and> signal msg = 2")
      case True
      with assms find_registry [of "c_string (body msg)" history] reg show ?thesis
        by (cases "find (\<lambda>s. svc_name s = c_string (body msg)) (registry_of history)")
          (simp_all add: kernel_process_turn_def request_service_def reply_to_def)
    next
      case False
      with \<open>\<not> (sender msg \<noteq> 0 \<and> signal msg = 1)\<close> assms reg show ?thesis
        by (cases "sender msg = 0") (simp_all add: kernel_process_turn_def reply_to_def)
    qed
  qed
  then show "svs = registry_of (history @ [msg])" "reply = reply_to history msg" by simp_all
qed

lemma turns_registry:
  assumes "kernel_process_turns L msgs (replies, registry_of history, h) = Inr (replies', svs, h')"
  shows "svs = registry_of (history @ msgs)
    \<and> replies' = replies @ map (\<lambda>k. reply_to (history @ take k msgs) (msgs ! k)) [0..<length msgs]"
  using assms
proof (induction msgs arbitrary: history h replies)
  case (Cons msg msgs)
  obtain reply svs1 h1 where turn: "kernel_process_turn L msg (registry_of history, h) = Inr (reply, svs1, h1)"
    and rest: "kernel_process_turns L msgs (replies @ [reply], svs1, h1) = Inr (replies', svs, h')"
    using Cons.prems
    by (cases "kernel_process_turn L msg (registry_of history, h)") (auto simp: kernel_process_turns_def)
  note step = turn_registry [OF turn]
  from Cons.IH [OF rest [unfolded step(1)]] have
    "svs = registry_of ((history @ [msg]) @ msgs)"
    "replies' = (replies @ [reply]) @
       map (\<lambda>k. reply_to ((history @ [msg]) @ take k msgs) (msgs ! k)) [0..<length msgs]" by simp_all
  moreover have "[0..<length (msg # msgs)] = 0 # map Suc [0..<length msgs]"
    by (simp add: map_Suc_upt upt_conv_Cons del: upt_Suc)
  ultimately show ?case using step(2) by (simp add: comp_def)
qed (simp add: kernel_process_turns_def)

text \<open>
  C36: The registry answers from its history. Whatever messages the kernel process has handled, when all
  its turns have returned, the replies are: \<open>SIGNAL_OK\<close> for a registration, and for a request the PID of
  the sender of the newest earlier registration of that name, or 0 when there was none; messages of PID
  0 and other signals get no reply.
\<close>

theorem registry_answers_from_history:
  assumes "kernel_process_turns L msgs ([], [], h) = Inr (replies, svs, h')"
  shows "replies = map (\<lambda>k. reply_to (take k msgs) (msgs ! k)) [0..<length msgs]"
  using turns_registry [of L msgs "[]" "[]"] assms by (simp add: registry_of_def)

definition example_request :: "u32 \<Rightarrow> u32 \<Rightarrow> message" where
  "example_request who sig =
     \<lparr>sender = who, receiver = 0, msize = 0, signal = sig, body = [118, 102, 115, 0], m_link = 0\<rparr>"

theorem registry_answers_from_history_witness:
  "\<exists>r1 r2 svs h. kernel_process_turns example_layout [example_request 9 2, example_request 5 1, example_request 9 2]
      ([], [], fresh_heap) = Inr ([Some (example_request 9 0), r1, r2], svs, h)
      \<and> r1 = Some (example_request 5 0) \<and> r2 = Some (example_request 9 5)"
proof -
  let ?msgs = "[example_request 9 2, example_request 5 1, example_request 9 2]"
  obtain h where "kmalloc example_layout sizeof_service fresh_heap = Inr (0x350020, h)"
    unfolding kmalloc_eq [OF heap_inv_fresh]
    by (simp add: fresh_heap_def kinit_heap_def upd_node_def fits_def NEXT_BLOCK_def BLOCK_START_def)
  then obtain replies svs where
    run: "kernel_process_turns example_layout ?msgs ([], [], fresh_heap) = Inr (replies, svs, h)"
    by (simp add: kernel_process_turns_def kernel_process_turn_def register_service_def request_service_def
        example_request_def c_string_def copy_name_def)
  from registry_answers_from_history [OF run] run show ?thesis
    by (auto simp: reply_to_def answer_def registers_def example_request_def c_string_def)
qed

end
