(* ===== verification/Ramdisk_Server.thy ===== *)
theory Ramdisk_Server
  imports Ramdisk Services
begin

text \<open>
  The RAM disk as a server, \<open>ramdisk_process\<close> of \<open>ramdisk.c\<close>: a process that mounts the archive and
  answers the requests of the virtual file system. What the file system's library defines is a parameter;
  the abstract specification is a read-only file system.
\<close>

section \<open>The file system's library\<close>

text \<open>
  \<open>vfs.h\<close> and \<open>sys/stat.h\<close> belong to another repository: the numbers of the requests, the mode for
  reading, where a request in a message's body has its mode, its path (a C string) and its offset, and how
  \<open>struct stat\<close> is laid out over the body. \<open>put_stat\<close> writes \<open>st_dev\<close> and \<open>st_size\<close>. The offset is a 32-bit
  number here, as \<open>size_t\<close> is on this machine.
\<close>

record vfs_library =
  FS_SIGNAL_OPEN :: u32
  FS_SIGNAL_STAT :: u32
  FS_SIGNAL_READ :: u32
  VFS_MODE_RO :: u32
  rq_mode :: "u8 list \<Rightarrow> u32"
  rq_path :: "u8 list \<Rightarrow> u8 list"
  rq_offset :: "u8 list \<Rightarrow> u32"
  put_stat :: "u32 \<Rightarrow> u32 \<Rightarrow> u8 list \<Rightarrow> u8 list"

abbreviation (input) SIGNAL_FAIL :: u32 where "SIGNAL_FAIL \<equiv> -1"

text \<open>The labels of a \<open>switch\<close> differ.\<close>

definition vfs_ok :: "vfs_library \<Rightarrow> bool" where
  "vfs_ok V \<longleftrightarrow> distinct [FS_SIGNAL_OPEN V, FS_SIGNAL_STAT V, FS_SIGNAL_READ V]"

section \<open>The server\<close>

text \<open>
  What a turn sends: \<open>Reply\<close> is \<open>send_message(&msg, to)\<close>, \<open>Write_Stream\<close> is \<open>write_message_stream(p, n, to)\<close>,
  which sends the \<open>n\<close> bytes at address \<open>p\<close>. The text on the serial port is left out.
\<close>

datatype disk_output =
    Reply message u32
  | Write_Stream u32 u32 u32

definition ramdisk_open :: "vfs_library \<Rightarrow> memory \<Rightarrow> ramdisk \<Rightarrow> message \<Rightarrow> kerror + disk_output" where
  "ramdisk_open V m rd msg =
     bindE (if rq_mode V (body msg) \<noteq> VFS_MODE_RO V then Inr SIGNAL_FAIL
            else bindE (GetRamDiskFileRel m rd (rq_path V (body msg)))
                   (\<lambda>f. Inr (if f = 0 then SIGNAL_FAIL else SIGNAL_OK)))
       (\<lambda>sig. Inr (Reply (msg\<lparr>signal := sig\<rparr>) (sender msg)))"

definition ramdisk_stat :: "vfs_library \<Rightarrow> memory \<Rightarrow> ramdisk \<Rightarrow> message \<Rightarrow> kerror + disk_output" where
  "ramdisk_stat V m rd msg =
     bindE (GetRamDiskFileRel m rd (rq_path V (body msg))) (\<lambda>f.
     if f = 0 then Inr (Reply (msg\<lparr>signal := SIGNAL_FAIL\<rparr>) (sender msg))
     else
       Inr (Reply (msg\<lparr>body := put_stat V (receiver msg) (get_size m (header_size f)) (body msg),
                       signal := SIGNAL_OK\<rparr>) (sender msg)))"

text \<open>The size of the file is read before the file is compared with \<open>NULL\<close>.\<close>

definition ramdisk_read :: "vfs_library \<Rightarrow> memory \<Rightarrow> ramdisk \<Rightarrow> message \<Rightarrow> kerror + disk_output" where
  "ramdisk_read V m rd msg =
     bindE (GetRamDiskFileRel m rd (rq_path V (body msg))) (\<lambda>f.
     let data = f + 512 in
     bindE (derefE f) (\<lambda>_.
     let fsz = get_size m (header_size f);
         sz = (if msize msg < fsz then msize msg else fsz)
     in if f = 0 \<or> rq_offset V (body msg) + sz > fsz
        then Inr (Reply (msg\<lparr>signal := SIGNAL_FAIL\<rparr>) (sender msg))
        else Inr (Write_Stream (data + rq_offset V (body msg)) sz (sender msg))))"

definition ramdisk_turn :: "vfs_library \<Rightarrow> memory \<Rightarrow> ramdisk \<Rightarrow> message \<Rightarrow> kerror + disk_output option" where
  "ramdisk_turn V m rd msg =
     (if signal msg = FS_SIGNAL_OPEN V then bindE (ramdisk_open V m rd msg) (\<lambda>r. Inr (Some r))
      else if signal msg = FS_SIGNAL_STAT V then bindE (ramdisk_stat V m rd msg) (\<lambda>r. Inr (Some r))
      else if signal msg = FS_SIGNAL_READ V then bindE (ramdisk_read V m rd msg) (\<lambda>r. Inr (Some r))
      else Inr None)"

text \<open>
  The process over the messages it receives, with what it has sent so far. \<open>mounted\<close> is the result of
  \<open>vfs_mount_ramdisk\<close>; when that failed, the process sleeps forever and sends nothing.
\<close>

definition ramdisk_process ::
  "vfs_library \<Rightarrow> memory \<Rightarrow> ramdisk \<Rightarrow> u32 \<Rightarrow> message list \<Rightarrow> kerror + disk_output option list" where
  "ramdisk_process V m rd mounted msgs =
     (if mounted = SIGNAL_FAIL then Inl Diverges
      else foldE (\<lambda>msg sent. bindE (ramdisk_turn V m rd msg) (\<lambda>r. Inr (sent @ [r]))) msgs [])"

section \<open>A read-only file system\<close>

text \<open>The bytes of the file behind the header at \<open>h\<close>, and the files of an archive by path.\<close>

definition file_bytes :: "memory \<Rightarrow> u32 \<Rightarrow> u8 list" where
  "file_bytes m h = map (\<lambda>i. m (h + 512 + of_nat i)) [0..<unat (get_size m (header_size h))]"

definition disk_file :: "memory \<Rightarrow> u32 list \<Rightarrow> u8 list \<Rightarrow> u8 list option" where
  "disk_file m hs path = map_option (file_bytes m) (find (\<lambda>h. string_at m h (rel_path path)) hs)"

datatype fs_answer = Fs_Reply message u32 | Fs_Data "u8 list" u32

text \<open>What a file system with the files \<open>fs\<close> answers.\<close>

definition fs_serve :: "vfs_library \<Rightarrow> (u8 list \<Rightarrow> u8 list option) \<Rightarrow> message \<Rightarrow> fs_answer option" where
  "fs_serve V fs msg =
     (let file = fs (rq_path V (body msg));
          fail = Fs_Reply (msg\<lparr>signal := SIGNAL_FAIL\<rparr>) (sender msg)
      in if signal msg = FS_SIGNAL_OPEN V then
           Some (if rq_mode V (body msg) = VFS_MODE_RO V \<and> file \<noteq> None
                 then Fs_Reply (msg\<lparr>signal := SIGNAL_OK\<rparr>) (sender msg) else fail)
         else if signal msg = FS_SIGNAL_STAT V then
           Some (case file of None \<Rightarrow> fail
                 | Some bs \<Rightarrow> Fs_Reply (msg\<lparr>body := put_stat V (receiver msg) (of_nat (length bs)) (body msg),
                                         signal := SIGNAL_OK\<rparr>) (sender msg))
         else if signal msg = FS_SIGNAL_READ V then
           Some (case file of None \<Rightarrow> fail
                 | Some bs \<Rightarrow>
                     let off = unat (rq_offset V (body msg)); n = min (unat (msize msg)) (length bs)
                     in if off + n \<le> length bs then Fs_Data (take n (drop off bs)) (sender msg) else fail)
         else None)"

text \<open>The bytes an output of the server carries.\<close>

fun disk_sent :: "memory \<Rightarrow> disk_output \<Rightarrow> fs_answer" where
  "disk_sent m (Reply msg to) = Fs_Reply msg to"
| "disk_sent m (Write_Stream p n to) = Fs_Data (map (\<lambda>i. m (p + of_nat i)) [0..<unat n]) to"

text \<open>
  The requests the server serves as such a file system would: the path fits the array it is copied to, and
  a read is of a file that exists, with an offset that does not wrap around.
\<close>

definition request_ok :: "vfs_library \<Rightarrow> (u8 list \<Rightarrow> u8 list option) \<Rightarrow> message \<Rightarrow> bool" where
  "request_ok V fs msg \<longleftrightarrow>
     length (rel_path (rq_path V (body msg))) < 512 \<and>
     (signal msg = FS_SIGNAL_READ V \<longrightarrow>
       (case fs (rq_path V (body msg)) of None \<Rightarrow> False
        | Some bs \<Rightarrow> unat (rq_offset V (body msg)) + min (unat (msize msg)) (length bs) < 2 ^ 32))"

definition ramdisk_ready :: "u32 list \<Rightarrow> ramdisk \<Rightarrow> bool" where
  "ramdisk_ready hs rd \<longleftrightarrow> files rd \<noteq> 0 \<and> file_table rd = hs \<and> unat (fileno rd) = length hs"

section \<open>The server implements it\<close>

lemma length_file_bytes [simp]: "length (file_bytes m h) = unat (get_size m (header_size h))"
  by (simp add: file_bytes_def)

lemma file_bytes_part:
  assumes "off + n \<le> unat (get_size m (header_size h))"
  shows "map (\<lambda>i. m (h + 512 + of_nat off + of_nat i)) [0..<n] = take n (drop off (file_bytes m h))"
  using assms by (intro nth_equalityI) (auto simp: file_bytes_def algebra_simps)

lemma file_found:
  assumes "ramdisk_ready hs rd" "length (rel_path path) < 512"
  shows "GetRamDiskFileRel m rd path
    = Inr (case find (\<lambda>h. string_at m h (rel_path path)) hs of Some h \<Rightarrow> h | None \<Rightarrow> 0)"
  using assms
  by (simp add: GetRamDiskFileRel_def GetRamDiskFile_def lookup_def fits_path_def ramdisk_ready_def)

lemma read_found:
  assumes "ramdisk_ready hs rd" "length (rel_path (rq_path V (body msg))) < 512"
    and "find (\<lambda>h. string_at m h (rel_path (rq_path V (body msg)))) hs = Some h" "h \<noteq> 0"
  shows "ramdisk_read V m rd msg =
    (let fsz = get_size m (header_size h); sz = (if msize msg < fsz then msize msg else fsz)
     in Inr (if rq_offset V (body msg) + sz > fsz then Reply (msg\<lparr>signal := SIGNAL_FAIL\<rparr>) (sender msg)
             else Write_Stream (h + 512 + rq_offset V (body msg)) sz (sender msg)))"
  using assms by (simp add: ramdisk_read_def file_found derefE_nonzero Let_def)

lemma turn_serves:
  assumes "vfs_ok V" "ramdisk_ready hs rd" "0 \<notin> set hs" "request_ok V (disk_file m hs) msg"
  shows "\<exists>out. ramdisk_turn V m rd msg = Inr out \<and> map_option (disk_sent m) out = fs_serve V (disk_file m hs) msg"
proof -
  let ?find = "find (\<lambda>h. string_at m h (rel_path (rq_path V (body msg)))) hs"
  have path: "length (rel_path (rq_path V (body msg))) < 512" using assms(4) by (simp add: request_ok_def)
  note rel = file_found [OF assms(2) path, of m]
  have nonzero: "h \<noteq> 0" if "?find = Some h" for h
    using that assms(3) by (metis find_Some_iff nth_mem)
  show ?thesis
  proof (cases "signal msg = FS_SIGNAL_READ V")
    case True
    with assms(4) obtain h where h: "?find = Some h"
      and nowrap: "unat (rq_offset V (body msg)) + min (unat (msize msg)) (unat (get_size m (header_size h))) < 2 ^ 32"
      by (auto simp: request_ok_def disk_file_def split: option.splits)
    have labels: "FS_SIGNAL_READ V \<noteq> FS_SIGNAL_OPEN V" "FS_SIGNAL_READ V \<noteq> FS_SIGNAL_STAT V"
      using assms(1) by (auto simp: vfs_ok_def)
    let ?fsz = "get_size m (header_size h)" and ?off = "rq_offset V (body msg)"
    define sz where "sz = (if msize msg < ?fsz then msize msg else ?fsz)"
    have sz: "unat sz = min (unat (msize msg)) (unat ?fsz)"
      by (auto simp: sz_def word_less_nat_alt min_def)
    then have sum: "unat (?off + sz) = unat ?off + unat sz"
      using nowrap by (simp add: unat_word_ariths)
    have data: "map (\<lambda>i. m (h + 512 + ?off + of_nat i)) [0..<unat sz] = take (unat sz) (drop (unat ?off) (file_bytes m h))"
      if "unat ?off + unat sz \<le> unat ?fsz"
      using file_bytes_part [OF that] by simp
    have "ramdisk_read V m rd msg =
        Inr (if ?off + sz > ?fsz then Reply (msg\<lparr>signal := SIGNAL_FAIL\<rparr>) (sender msg)
             else Write_Stream (h + 512 + ?off) sz (sender msg))"
      unfolding read_found [OF assms(2) path h nonzero [OF h]] Let_def sz_def ..
    moreover have "?off + sz > ?fsz \<longleftrightarrow> \<not> unat ?off + unat sz \<le> unat ?fsz"
      by (simp only: word_less_nat_alt sum not_le)
    ultimately have "ramdisk_turn V m rd msg =
        Inr (Some (if unat ?off + unat sz \<le> unat ?fsz then Write_Stream (h + 512 + ?off) sz (sender msg)
                   else Reply (msg\<lparr>signal := SIGNAL_FAIL\<rparr>) (sender msg)))"
      using True labels by (simp add: ramdisk_turn_def)
    moreover have "fs_serve V (disk_file m hs) msg =
        Some (if unat ?off + unat sz \<le> unat ?fsz then Fs_Data (take (unat sz) (drop (unat ?off) (file_bytes m h))) (sender msg)
              else Fs_Reply (msg\<lparr>signal := SIGNAL_FAIL\<rparr>) (sender msg))"
      using True labels h sz by (simp add: fs_serve_def disk_file_def Let_def)
    ultimately show ?thesis using data by simp
  next
    case False
    with assms(1) rel nonzero show ?thesis
      by (cases ?find) (auto simp: ramdisk_turn_def ramdisk_open_def ramdisk_stat_def fs_serve_def disk_file_def Let_def)
  qed
qed

lemma process_serves:
  assumes "vfs_ok V" "ramdisk_ready hs rd" "0 \<notin> set hs" "\<forall>msg \<in> set msgs. request_ok V (disk_file m hs) msg"
    and "mounted \<noteq> SIGNAL_FAIL"
  shows "\<exists>outs. ramdisk_process V m rd mounted msgs = Inr outs
    \<and> map (map_option (disk_sent m)) outs = map (fs_serve V (disk_file m hs)) msgs"
proof -
  have "\<exists>outs. foldE (\<lambda>msg sent. bindE (ramdisk_turn V m rd msg) (\<lambda>r. Inr (sent @ [r]))) msgs acc = Inr (acc @ outs)
    \<and> map (map_option (disk_sent m)) outs = map (fs_serve V (disk_file m hs)) msgs" for acc
    using assms(4)
  proof (induction msgs arbitrary: acc)
    case (Cons msg msgs)
    obtain out where out: "ramdisk_turn V m rd msg = Inr out"
        "map_option (disk_sent m) out = fs_serve V (disk_file m hs) msg"
      using turn_serves [OF assms(1-3), of m msg] Cons.prems by auto
    obtain outs where "foldE (\<lambda>msg sent. bindE (ramdisk_turn V m rd msg) (\<lambda>r. Inr (sent @ [r]))) msgs (acc @ [out])
        = Inr ((acc @ [out]) @ outs)" "map (map_option (disk_sent m)) outs = map (fs_serve V (disk_file m hs)) msgs"
      using Cons.IH [of "acc @ [out]"] Cons.prems by auto
    with out show ?case by (intro exI [of _ "out # outs"]) simp
  qed simp
  from this [of "[]"] show ?thesis using assms(5) by (auto simp: ramdisk_process_def)
qed

section \<open>Properties\<close>

text \<open>
  C33: The RAM disk serves its archive as a read-only file system. Set up over an archive, the process
  answers every sequence of requests with fitting paths exactly as a file system with the files of the
  archive does: opening succeeds for reading of files that exist only, the size is that of the file, and a
  read sends the bytes of the file from the offset on, as many as asked for and at most its size, or fails
  where they would reach past the file's end.
\<close>

theorem ramdisk_serves_files:
  assumes "archive m addr hs" "hs \<noteq> []" "0 \<notin> set hs" "length hs < 2 ^ 32"
    and "kmalloc L (4 * of_nat (length hs)) h = Inr (p, h')" "p \<noteq> 0"
    and "vfs_ok V" "mounted \<noteq> SIGNAL_FAIL" "\<forall>msg \<in> set msgs. request_ok V (disk_file m hs) msg"
  shows "\<exists>rd' outs. InitRamdisk L m addr rd h = Inr (rd', h') \<and> ramdisk_process V m rd' mounted msgs = Inr outs
    \<and> map (map_option (disk_sent m)) outs = map (fs_serve V (disk_file m hs)) msgs"
proof -
  have "addr \<noteq> 0" using assms(1-3) by (cases hs) auto
  then obtain rd' where init: "InitRamdisk L m addr rd h = Inr (rd', h')" and "ramdisk_ready hs rd'"
    using InitRamdisk_lists [OF assms(1) _ assms(2,4-6), of rd] assms(4,6)
    by (auto simp: ramdisk_ready_def unat_of_nat)
  then obtain outs where "ramdisk_process V m rd' mounted msgs = Inr outs"
    "map (map_option (disk_sent m)) outs = map (fs_serve V (disk_file m hs)) msgs"
    using process_serves [OF assms(7) _ assms(3,9,8), of rd'] by auto
  with init show ?thesis by blast
qed

text \<open>A library for the examples: mode, offset and path follow each other in the body.\<close>

definition example_vfs :: vfs_library where
  "example_vfs = \<lparr>FS_SIGNAL_OPEN = 1, FS_SIGNAL_STAT = 2, FS_SIGNAL_READ = 3, VFS_MODE_RO = 0,
     rq_mode = (\<lambda>bs. ucast (bs ! 0)), rq_path = (\<lambda>bs. c_string (drop 2 bs)),
     rq_offset = (\<lambda>bs. scast (bs ! 1)), put_stat = (\<lambda>dev sz bs. ucast dev # ucast sz # drop 2 bs)\<rparr>"

text \<open>An archive of one file, \<open>./a\<close>, whose three bytes are 10, 20, 30, at \<open>0x200000\<close>.\<close>

definition example_archive :: memory where
  "example_archive =
     (\<lambda>_. 0)(0x200000 := 46, 0x200001 := 47, 0x200002 := 97, 0x20007C := 48, 0x20007D := 48, 0x20007E := 48,
       0x20007F := 48, 0x200080 := 48, 0x200081 := 48, 0x200082 := 48, 0x200083 := 48, 0x200084 := 48,
       0x200085 := 48, 0x200086 := 51, 0x200200 := 10, 0x200201 := 20, 0x200202 := 30)"

definition disk_request :: "u32 \<Rightarrow> u8 \<Rightarrow> message" where
  "disk_request sig off =
     \<lparr>sender = 7, receiver = 4, msize = 2, signal = sig, body = [0, off, 47, 97, 0], m_link = 0\<rparr>"

lemma example_archive_size: "get_size example_archive (header_size 0x200000) = 3"
  by (simp add: get_size_def header_size_def example_archive_def upt_rec)

lemma example_archive_files: "archive example_archive 0x200000 [0x200000]"
  by (simp add: next_header_def example_archive_size) (simp add: example_archive_def)

lemma example_archive_file: "disk_file example_archive [0x200000] [47, 97] = Some [10, 20, 30]"
  by (simp add: disk_file_def file_bytes_def rel_path_def example_archive_size upt_rec)
    (simp add: example_archive_def)

theorem ramdisk_serves_files_witness:
  "\<exists>rd h outs. InitRamdisk example_layout example_archive 0x200000
        \<lparr>files = 0, file_table = [], first_file = 0, fileno = 0\<rparr> fresh_heap = Inr (rd, h)
      \<and> ramdisk_process example_vfs example_archive rd 0 [disk_request 1 0, disk_request 3 1, disk_request 3 2] = Inr outs
      \<and> map (map_option (disk_sent example_archive)) outs =
          [Some (Fs_Reply (disk_request 0 0) 7), Some (Fs_Data [20, 30] 7), Some (Fs_Reply (disk_request (-1) 2) 7)]"
proof -
  let ?rd = "\<lparr>files = 0, file_table = [], first_file = 0, fileno = 0\<rparr>"
  let ?msgs = "[disk_request 1 0, disk_request 3 1, disk_request 3 2]"
  obtain h where heap: "kmalloc example_layout 4 fresh_heap = Inr (0x350020, h)"
    unfolding kmalloc_eq [OF heap_inv_fresh]
    by (simp add: fresh_heap_def kinit_heap_def upd_node_def fits_def NEXT_BLOCK_def BLOCK_START_def)
  have path: "rq_path example_vfs (body (disk_request sig off)) = [47, 97]"
    and at: "rq_offset example_vfs (body (disk_request sig off)) = scast off"
    and mode: "rq_mode example_vfs (body (disk_request sig off)) = 0" for sig off
    by (simp_all add: example_vfs_def disk_request_def c_string_def)
  have "request_ok example_vfs (disk_file example_archive [0x200000]) (disk_request sig off)" if "off \<in> {0, 1, 2}" for sig off
    using that by (auto simp: request_ok_def path at example_archive_file rel_path_def)
  then have "\<forall>msg \<in> set ?msgs. request_ok example_vfs (disk_file example_archive [0x200000]) msg" by simp
  moreover have "vfs_ok example_vfs" by (simp add: vfs_ok_def example_vfs_def)
  ultimately obtain rd outs where init: "InitRamdisk example_layout example_archive 0x200000 ?rd fresh_heap = Inr (rd, h)"
    and run: "ramdisk_process example_vfs example_archive rd 0 ?msgs = Inr outs"
    and outs: "map (map_option (disk_sent example_archive)) outs
        = map (fs_serve example_vfs (disk_file example_archive [0x200000])) ?msgs"
    using ramdisk_serves_files [OF example_archive_files, where L = example_layout and h = fresh_heap and p = "0x350020" and h' = h
        and V = example_vfs and mounted = 0 and msgs = ?msgs and rd = ?rd] heap
    by auto
  have "map (fs_serve example_vfs (disk_file example_archive [0x200000])) ?msgs =
      [Some (Fs_Reply (disk_request 0 0) 7), Some (Fs_Data [20, 30] 7), Some (Fs_Reply (disk_request (-1) 2) 7)]"
    by (simp add: fs_serve_def path at mode example_archive_file Let_def)
      (simp add: example_vfs_def disk_request_def)
  with init run outs show ?thesis by metis
qed

text \<open>
  C35: What reading does not check. A read of a file that does not exist dereferences the null pointer
  instead of failing; and an offset just below 4 GB passes the check against the file's size, so that
  the bytes sent start in front of the file.
\<close>

theorem ramdisk_read_unchecked:
  assumes "ramdisk_ready hs rd" "vfs_ok V" "signal msg = FS_SIGNAL_READ V"
    and "length (rel_path (rq_path V (body msg))) < 512"
  shows "(disk_file m hs (rq_path V (body msg)) = None \<longrightarrow> ramdisk_turn V m rd msg = Inl Null_Deref)
    \<and> (\<forall>h k. find (\<lambda>h. string_at m h (rel_path (rq_path V (body msg)))) hs = Some h \<and> h \<noteq> 0
         \<and> 0 < k \<and> k \<le> min (unat (msize msg)) (unat (get_size m (header_size h)))
         \<and> rq_offset V (body msg) = - of_nat k
         \<longrightarrow> ramdisk_turn V m rd msg = Inr (Some (Write_Stream (h + 512 - of_nat k)
               (min (msize msg) (get_size m (header_size h))) (sender msg))))"
proof -
  have turn: "ramdisk_turn V m rd msg = bindE (ramdisk_read V m rd msg) (\<lambda>r. Inr (Some r))"
    using assms(2,3) by (auto simp: ramdisk_turn_def vfs_ok_def)
  have "ramdisk_turn V m rd msg = Inl Null_Deref" if "disk_file m hs (rq_path V (body msg)) = None"
    using that file_found [OF assms(1,4)] by (simp add: turn ramdisk_read_def disk_file_def Let_def derefE_zero)
  moreover have "ramdisk_turn V m rd msg = Inr (Some (Write_Stream (h + 512 - of_nat k) sz (sender msg)))"
    if h: "find (\<lambda>h. string_at m h (rel_path (rq_path V (body msg)))) hs = Some h" "h \<noteq> 0"
      and k: "0 < k" "k \<le> min (unat (msize msg)) (unat (get_size m (header_size h)))"
      and off: "rq_offset V (body msg) = - of_nat k"
      and sz: "sz = min (msize msg) (get_size m (header_size h))" for h k sz
  proof -
    have "unat sz = min (unat (msize msg)) (unat (get_size m (header_size h)))"
      unfolding sz by (auto simp: min_def word_le_nat_alt)
    with k have "k \<le> unat sz" "sz \<le> get_size m (header_size h)" by (simp_all add: word_le_nat_alt)
    moreover from this have "(of_nat k :: u32) \<le> sz" by (simp add: word_le_nat_alt unat_of_nat)
    then have "sz - of_nat k \<le> sz" by (rule word_sub_le)
    ultimately have fits: "\<not> - of_nat k + sz > get_size m (header_size h)" by simp
    have "(if msize msg < get_size m (header_size h) then msize msg else get_size m (header_size h)) = sz"
      by (auto simp: sz min_def)
    then show ?thesis
      using fits read_found [OF assms(1,4) h] by (simp add: turn off Let_def)
  qed
  ultimately show ?thesis by blast
qed

text \<open>A read of one byte in front of the file, and one of the file \<open>./b\<close>.\<close>

theorem ramdisk_read_unchecked_witness:
  "ramdisk_turn example_vfs example_archive \<lparr>files = 1, file_table = [0x200000], first_file = 0x200000, fileno = 1\<rparr>
     (disk_request 3 (-1)) = Inr (Some (Write_Stream 0x2001FF 2 7))"
proof -
  let ?rd = "\<lparr>files = 1, file_table = [0x200000], first_file = 0x200000, fileno = 1\<rparr>" and ?msg = "disk_request 3 (-1)"
  have path: "rq_path example_vfs (body ?msg) = [47, 97]" and off: "rq_offset example_vfs (body ?msg) = - of_nat 1"
    by (simp_all add: example_vfs_def disk_request_def c_string_def)
  have found: "find (\<lambda>h. string_at example_archive h (rel_path [47, 97])) [0x200000] = Some 0x200000"
    by (simp add: rel_path_def) (simp add: example_archive_def)
  have "ramdisk_ready [0x200000] ?rd" "vfs_ok example_vfs" "signal ?msg = FS_SIGNAL_READ example_vfs"
    "length (rel_path (rq_path example_vfs (body ?msg))) < 512"
    by (simp_all add: ramdisk_ready_def vfs_ok_def path rel_path_def) (simp_all add: example_vfs_def disk_request_def)
  note read = ramdisk_read_unchecked [OF this, of example_archive, THEN conjunct2, rule_format, of "0x200000" 1]
  have "ramdisk_turn example_vfs example_archive ?rd ?msg = Inr (Some (Write_Stream (0x200000 + 512 - of_nat 1)
      (min (msize ?msg) (get_size example_archive (header_size 0x200000))) (sender ?msg)))"
  proof (rule read, intro conjI)
    show "1 \<le> min (unat (msize ?msg)) (unat (get_size example_archive (header_size 0x200000)))"
      by (simp add: example_archive_size disk_request_def)
  qed (use found path off in simp_all)
  then show ?thesis by (simp add: example_archive_size) (simp add: disk_request_def)
qed

end
