(* ===== verification/Start_Up.thy ===== *)
theory Start_Up
  imports Debug
begin

text \<open>
  Smaller parts of the start-up: the macros of \<open>debug.h\<close> that build the messages of assertions and panics,
  the stack protector of \<open>stack.c\<close>, which \<open>start.asm\<close> sets up before \<open>init\<close>, and \<open>int32_test\<close> of \<open>init.c\<close>,
  the graphics test over BIOS calls.
\<close>

section \<open>Messages of the macros\<close>

text \<open>
  \<open>file\<close> and \<open>line\<close> are what the compiler substitutes for \<open>__FILE__\<close> and \<open>__LINE__\<close>, \<open>expr\<close> is the text of the
  macro's argument. An assertion that holds does nothing.
\<close>

definition assertion_message :: "u8 list \<Rightarrow> u8 list \<Rightarrow> u8 list \<Rightarrow> u8 list" where
  "assertion_message expr path line =
     bytes ''Assertion failed: '' @ bytes ''('' @ expr @ bytes '')'' @ bytes '', in file '' @ path @ bytes '' at line '' @ line"

definition assert_macro ::
  "(u32 \<Rightarrow> u32) \<Rightarrow> u32 \<Rightarrow> kernel \<Rightarrow> bool \<Rightarrow> u8 list \<Rightarrow> u8 list \<Rightarrow> u8 list \<Rightarrow> serial \<times> video \<Rightarrow> kerror + serial \<times> video" where
  "assert_macro rd fp k b expr path line st = (if \<not> b then kassert rd fp k (assertion_message expr path line) st else Inr st)"

definition panic_message :: "u8 list \<Rightarrow> u8 list \<Rightarrow> u8 list" where
  "panic_message path line = bytes ''Kernel Panic in file '' @ path @ bytes '' at line '' @ line"

definition panic ::
  "(u32 \<Rightarrow> u32) \<Rightarrow> u32 \<Rightarrow> u8 list \<Rightarrow> u8 list \<Rightarrow> u8 list \<Rightarrow> serial \<times> video \<Rightarrow> kerror + serial \<times> video" where
  "panic rd fp expression path line = kpanic rd fp expression (panic_message path line)"

definition panic_cpu ::
  "(u32 \<Rightarrow> u32) \<Rightarrow> u32 \<Rightarrow> u8 list \<Rightarrow> cpu \<Rightarrow> u8 list \<Rightarrow> u8 list \<Rightarrow> serial \<times> video \<Rightarrow> kerror + serial \<times> video" where
  "panic_cpu rd fp expression c path line = kpanic_cpu rd fp expression (panic_message path line) c"

section \<open>The stack protector\<close>

text \<open>
  The guard word is null until \<open>setup_stack_chk\<close> overwrites it. Code the compiler inserts compares it with the
  copy on the stack and calls \<open>stack_chk_fail\<close> when they differ.
\<close>

definition stack_chk_guard :: u32 where
  "stack_chk_guard = 0"

definition setup_stack_chk :: "u32 \<Rightarrow> u32" where
  "setup_stack_chk guard = 0xAFF"

definition stack_chk_fail ::
  "(u32 \<Rightarrow> u32) \<Rightarrow> u32 \<Rightarrow> u8 list \<Rightarrow> u8 list \<Rightarrow> serial \<times> video \<Rightarrow> kerror + serial \<times> video" where
  "stack_chk_fail rd fp path line = panic rd fp (bytes ''Stack overflow/corruption detected!'') path line"

section \<open>The graphics test\<close>

text \<open>
  The registers a BIOS call takes and gives back. \<open>int32\<close>, which is assembly, is a parameter: the interrupt's
  number, the registers and the screen memory to the registers and the screen memory after the call. \<open>regs\<close> is
  not initialised but for AX. The frame buffer of graphics mode starts at \<open>0xA0000\<close>, that is \<open>0x18000\<close> bytes
  before the text screen, where indices are negative.
\<close>

record regs16 =
  g_di :: u16
  g_si :: u16
  g_bp :: u16
  g_sp :: u16
  g_bx :: u16
  g_dx :: u16
  g_cx :: u16
  g_ax :: u16
  g_gs :: u16
  g_fs :: u16
  g_es :: u16
  g_ds :: u16
  g_eflags :: u16

definition memset_screen :: "int \<Rightarrow> u8 \<Rightarrow> nat \<Rightarrow> video \<Rightarrow> video" where
  "memset_screen i b n = fold (\<lambda>k. poke (i + int k) b) [0..<n]"

definition draw_lines :: "video \<Rightarrow> video" where
  "draw_lines v =
     fold (\<lambda>y. memset_screen (- 0x18000 + (int y * 320 + 80)) (of_nat y) 160) [0..<200]
       (memset_screen (- 0x18000) 1 (320 * 200) v)"

definition int32_test :: "(u8 \<Rightarrow> regs16 \<times> video \<Rightarrow> regs16 \<times> video) \<Rightarrow> regs16 \<Rightarrow> video \<Rightarrow> video" where
  "int32_test int32 regs v =
     (let v1 = kprintln (bytes ''Executing VGA graphics test. Press any key to continue.'') (cls v);
          (r2, v2) = int32 0x16 (regs\<lparr>g_ax := 0\<rparr>, v1);
          (r3, v3) = int32 0x10 (r2\<lparr>g_ax := 0x13\<rparr>, v2);
          v4 = draw_lines v3;
          (r5, v5) = int32 0x16 (r3\<lparr>g_ax := 0\<rparr>, v4);
          (r6, v6) = int32 0x10 (r5\<lparr>g_ax := 3\<rparr>, v5)
      in v6)"

section \<open>What is reported and drawn\<close>

lemma memset_screen_at:
  "screen (memset_screen i b n v) j = (if i \<le> j \<and> j < i + int n then b else screen v j)"
  by (induction n) (auto simp: memset_screen_def poke_def)

lemma rows_at:
  "screen (fold (\<lambda>y. memset_screen (- 0x18000 + (int y * 320 + 80)) (of_nat y) 160) [0..<n] v) (- 0x18000 + (320 * int y + int x)) =
     (if y < n \<and> 80 \<le> x \<and> x < 240 then of_nat y else screen v (- 0x18000 + (320 * int y + int x)))"
  if "x < 320"
proof (induction n)
  case (Suc n)
  have "80 + int n * 320 \<le> 320 * int y + int x \<and> 320 * int y + int x < 240 + int n * 320 \<longleftrightarrow> y = n \<and> 80 \<le> x \<and> x < 240"
    using that by (cases y n rule: linorder_cases) (auto dest!: less_imp_Suc_add)
  with Suc.IH show ?case by (auto simp: memset_screen_at algebra_simps)
qed simp

text \<open>
  The picture of the test: a bar from column 80 to 239 of every row, in the row's number as its colour, and
  colour 1 at both sides; the rest of the screen memory is untouched.
\<close>

theorem draw_lines_picture:
  assumes "x < 320" "y < 200"
  shows "screen (draw_lines v) (- 0x18000 + (320 * int y + int x)) = (if 80 \<le> x \<and> x < 240 then of_nat y else 1)"
  using rows_at [OF assms(1), of 200 "memset_screen (- 0x18000) 1 (320 * 200) v" y] assms
  by (simp add: draw_lines_def memset_screen_at)

text \<open>
  A corrupted stack is reported with its place and the frames still found, over the port and on the screen.
\<close>

theorem stack_chk_fail_reports:
  assumes chain: "linked rd fp fs" and line: "ready_forever (line_status s)"
  shows "\<exists>s' v'. stack_chk_fail rd fp path no (s, v) = Inr (s', v')
    \<and> serial_sent (panic_message path no @ [10] @ bytes ''Stack overflow/corruption detected!'' @ [10] @ trace_text rd fs) s s'"
proof -
  let ?w = "panic_message path no @ [10] @ bytes ''Stack overflow/corruption detected!'' @ [10] @ trace_text rd fs"
  obtain s' where sent: "DebugPuts ?w s = Inr s'" "serial_sent ?w s s'" using DebugPuts_sends_all [OF line] by blast
  have fmt: "format_loop (bytes ''%s, %s'' @ [10]) [Str a, Str b] = Inr (a @ bytes '', '' @ b @ [10])" for a b
    by (simp add: conversion.simps bytes_simps)
  have "stack_chk_fail rd fp path no (s, v) = bindE (DebugPuts ?w s) (\<lambda>s.
      bindE (kprintf (bytes ''%s, %s'' @ [10]) [Str (panic_message path no), Str (bytes ''Stack overflow/corruption detected!'')] v)
        (\<lambda>v. Inr (s, kprintln (bytes ''Kernel panic!'') v)))"
    by (simp add: stack_chk_fail_def panic_def kpanic_def DebugLog_def StackTrace_prints [OF chain] bindE_assoc)
  then show ?thesis using sent by (simp add: kprintf_def fmt)
qed

end
